(* ===== verification/Prelude.thy ===== *)
theory Prelude
  imports Main "HOL-Library.Word" "HOL-Library.Monad_Syntax"
begin

text \<open>
  Shared vocabulary of the development: the C types at their width, the two characters the
  program treats specially, generic lemmas on lists and words, and the collections of facts
  that carry the component proofs.

  A C \<open>char\<close> is a HOL \<^typ>\<open>char\<close> (eight bits), a byte array a list of them.
  \<open>size_t\<close> and \<open>loff_t\<close> are 64-bit words, \<open>loff_t\<close> read through \<open>sint\<close>
  where its sign matters.  An operation that may run into undefined behaviour of C (an access
  outside a block, a free of a dead block) returns an \<open>option\<close> whose \<open>None\<close> is that
  behaviour.
\<close>

section \<open>Types\<close>

type_synonym size_t = "64 word"
type_synonym loff_t = "64 word"
type_synonym uint32 = "32 word"
type_synonym uint8 = "8 word"

abbreviation newline :: char where "newline \<equiv> CHR 0x0A"
abbreviation NUL :: char where "NUL \<equiv> CHR 0x00"

named_theorems mem_simps "block memory: loads, stores and the allocator"
named_theorems lock_simps "fields an operation of a lock leaves alone"
named_theorems srv_simps "server: effects of the primitive calls on the thread state"

section \<open>The last elements of a list\<close>

definition last_n :: "nat \<Rightarrow> 'a list \<Rightarrow> 'a list" where
  "last_n n xs = drop (length xs - n) xs"

lemma last_n_short [simp]: "length xs \<le> n \<Longrightarrow> last_n n xs = xs"
  by (simp add: last_n_def)

lemma length_last_n [simp]: "length (last_n n xs) = min (length xs) n"
  by (simp add: last_n_def)

lemma last_n_append_last_n: "last_n n (last_n n xs @ ys) = last_n n (xs @ ys)"
proof (cases "length xs \<le> n")
  case True
  then show ?thesis by simp
next
  case False
  then have "last_n n (last_n n xs @ ys) = drop (length ys) (last_n n xs @ ys)"
    by (simp add: last_n_def)
  also have "\<dots> = drop (length xs - n + length ys) (xs @ ys)"
    using False by (simp add: last_n_def add.commute)
  also have "\<dots> = last_n n (xs @ ys)"
    using False by (simp add: last_n_def)
  finally show ?thesis .
qed

lemma last_n_snoc_full: "length xs = n \<Longrightarrow> 0 < n \<Longrightarrow> last_n n (xs @ [x]) = tl xs @ [x]"
  by (cases xs) (simp_all add: last_n_def)

lemma map_last_n: "map f (last_n n xs) = last_n n (map f xs)"
  by (simp add: last_n_def drop_map)

lemma length_concat_last_n: "length (concat (last_n n xs)) \<le> length (concat xs)"
proof -
  have "length (concat xs) = length (concat (take (length xs - n) xs)) + length (concat (last_n n xs))"
    by (metis append_take_drop_id concat_append last_n_def length_append)
  then show ?thesis by simp
qed

lemma last_n_snoc: "0 < n \<Longrightarrow> \<exists>ys. last_n n (xs @ [x]) = ys @ [x]"
  by (cases n) (auto simp: last_n_def)

lemma takeWhile_take: "set (takeWhile P (take n xs)) \<subseteq> set (takeWhile P xs)"
  by (induction xs arbitrary: n) (auto simp: take_Cons' split: if_splits)

section \<open>Running a fallible operation over a list\<close>

primrec run_adds :: "('b \<Rightarrow> 'e \<Rightarrow> 'b option) \<Rightarrow> 'b \<Rightarrow> 'e list \<Rightarrow> 'b option" where
  "run_adds f b [] = Some b"
| "run_adds f b (e # es) = Option.bind (f b e) (\<lambda>b'. run_adds f b' es)"

section \<open>Positions in a concatenation\<close>

text \<open>
  Where a position falls when blocks of the given sizes lie end to end: the index of the
  block that holds it and the offset inside that block.
\<close>

fun locate :: "nat list \<Rightarrow> nat \<Rightarrow> (nat \<times> nat) option" where
  "locate [] pos = None"
| "locate (n # ns) pos =
     (if pos < n then Some (0, pos)
      else map_option (\<lambda>(i, off). (Suc i, off)) (locate ns (pos - n)))"

lemma locate_None_iff: "locate ns pos = None \<longleftrightarrow> sum_list ns \<le> pos"
  by (induction ns pos rule: locate.induct) auto

lemma locate_Some:
  "locate ns pos = Some (i, off) \<Longrightarrow>
     i < length ns \<and> off < ns ! i \<and> pos = sum_list (take i ns) + off"
proof (induction ns pos arbitrary: i rule: locate.induct)
  case (1 pos)
  then show ?case by simp
next
  case (2 n ns pos)
  show ?case
  proof (cases "pos < n")
    case True
    with "2.prems" show ?thesis by auto
  next
    case False
    with "2.prems" obtain j where j: "i = Suc j" "locate ns (pos - n) = Some (j, off)"
      by auto
    with "2.IH" False show ?thesis by auto
  qed
qed

lemma locate_at:
  "i < length ns \<Longrightarrow> off < ns ! i \<Longrightarrow> locate ns (sum_list (take i ns) + off) = Some (i, off)"
proof (induction ns arbitrary: i)
  case Nil
  then show ?case by simp
next
  case (Cons n ns)
  then show ?case by (cases i) auto
qed

lemma locate_lengthD:
  "locate (map length xss) pos = Some (i, off) \<Longrightarrow>
     i < length xss \<and> off < length (xss ! i) \<and> pos = sum_list (take i (map length xss)) + off"
  using locate_Some [of "map length xss" pos i off] by (cases "i < length xss") auto

text \<open>The located block starts the rest of the concatenation.\<close>

lemma drop_concat_at:
  "i < length xss \<Longrightarrow> off \<le> length (xss ! i) \<Longrightarrow>
     drop (sum_list (take i (map length xss)) + off) (concat xss) =
     drop off (xss ! i) @ concat (drop (Suc i) xss)"
proof (induction xss arbitrary: i)
  case Nil
  then show ?case by simp
next
  case (Cons xs xss)
  then show ?case by (cases i) (auto simp: add.assoc)
qed

lemma sum_list_take_le: "sum_list (take i ns) \<le> sum_list (ns :: nat list)"
  by (metis append_take_drop_id le_add1 sum_list_append)

lemma sum_list_take_nth_le:
  "i < length ns \<Longrightarrow> sum_list (take i ns) + ns ! i \<le> sum_list (ns :: nat list)"
  using sum_list_take_le [of "Suc i" ns] by (simp add: take_Suc_conv_app_nth)

section \<open>Words\<close>

lemma unat_uint8_mod10 [simp]: "unat (word_of_nat (n mod 10) :: uint8) = n mod 10"
  by (simp add: unat_of_nat take_bit_nat_def)

lemma unat_size_of_nat:
  "n < 2 ^ 64 \<Longrightarrow> unat (word_of_nat n :: size_t) = n"
  by (simp add: unat_of_nat take_bit_nat_def)

lemma unat_size_less: "unat (w :: size_t) < 2 ^ 64"
  by (rule unsigned_less [of w, THEN order_less_le_trans]) simp

lemma unat_size_add:
  "unat (a :: size_t) + unat b < 2 ^ 64 \<Longrightarrow> unat (a + b) = unat a + unat b"
  by (simp add: unat_word_ariths)

lemma unat_size_sub:
  "(b :: size_t) \<le> a \<Longrightarrow> unat (a - b) = unat a - unat b"
  by (rule unat_sub)

lemma unat_ucast_size [simp]: "unat (ucast (w :: uint32) :: size_t) = unat w"
proof -
  have "unat w < 2 ^ 32"
    by (rule unsigned_less [of w, THEN order_less_le_trans]) simp
  then have "unat w < 2 ^ 64" by (rule order_less_trans) simp
  then show ?thesis by (simp add: unsigned_ucast_eq take_bit_nat_eq_self)
qed

lemma word_eq_of_unat: "unat (w :: size_t) = n \<Longrightarrow> w = word_of_nat n"
  by (metis of_nat_unat ucast_id)

text \<open>A sum of sizes that fits a machine word is the word sum.\<close>

lemma unat_sum_list:
  "sum_list (map unat ws) < 2 ^ 64 \<Longrightarrow> unat (sum_list (ws :: size_t list)) = sum_list (map unat ws)"
proof (induction ws)
  case Nil
  then show ?case by simp
next
  case (Cons w ws)
  then have "unat (sum_list ws) = sum_list (map unat ws)" by simp
  with Cons.prems show ?case by (simp add: unat_size_add)
qed

lemma sint_size_nonneg:
  assumes "uint (a :: loff_t) < 2 ^ 63"
  shows "sint a = uint a"
  unfolding sint_uint
  by (rule signed_take_bit_int_eq_self) (use assms in \<open>simp_all add: order_trans [OF _ uint_ge_0]\<close>)

lemma sint_size_neg_iff: "sint (a :: loff_t) < 0 \<longleftrightarrow> 2 ^ 63 \<le> uint a"
proof (cases "uint a < 2 ^ 63")
  case True
  then show ?thesis by (simp add: sint_size_nonneg)
next
  case False
  then have "uint a div 2 ^ 63 = 1"
    using uint_lt2p [of a] by (intro div_pos_geq [THEN trans]) simp_all
  then have "bit (uint a) 63" by (simp only: bit_iff_odd odd_one not_False_eq_True)
  then have "signed_take_bit 63 (uint a) < 0" by (simp only: signed_take_bit_negative_iff)
  then have "sint a < 0" by (simp add: sint_uint)
  then show ?thesis using False by linarith
qed

text \<open>A wrapping sum of a position and a signed offset is negative exactly when it left the range.\<close>

lemma sint_sum_neg_iff:
  assumes "0 \<le> a" "a < 2 ^ 63" "- (2 ^ 63) \<le> b" "b < 2 ^ 63"
  shows "sint (word_of_int a + word_of_int b :: loff_t) < 0 \<longleftrightarrow> \<not> (0 \<le> a + b \<and> a + b < 2 ^ 63)"
proof -
  have u: "uint (word_of_int a + word_of_int b :: loff_t) = (a + b) mod 2 ^ 64"
    by (simp only: of_int_add [symmetric] uint_word_of_int) simp
  show ?thesis
  proof (cases "0 \<le> a + b")
    case True
    then have "(a + b) mod 2 ^ 64 = a + b" using assms by (intro mod_pos_pos_trivial) simp_all
    then show ?thesis using True by (auto simp: sint_size_neg_iff u)
  next
    case False
    have "(a + b) mod 2 ^ 64 = (a + b + 2 ^ 64) mod 2 ^ 64" by simp
    also have "\<dots> = a + b + 2 ^ 64" using False assms by (intro mod_pos_pos_trivial) simp_all
    finally show ?thesis using False assms by (simp add: sint_size_neg_iff u)
  qed
qed

lemma uint_lt63_iff: "unat (a :: loff_t) < 2 ^ 63 \<longleftrightarrow> uint a < 2 ^ 63"
proof -
  have "int (unat a) < int (2 ^ 63) \<longleftrightarrow> unat a < 2 ^ 63" by (rule of_nat_less_iff)
  then show ?thesis by (simp only: uint_nat of_nat_power of_nat_numeral)
qed

end
