(* ===== verification/Bounded_Log.thy ===== *)
theory Bounded_Log
  imports Prelude
begin

text \<open>
  The contract of a bounded log: a container to which entries are added one at a time and
  which keeps the last \<open>cap\<close> of them, oldest first.  The circular buffer of the driver
  promises it for its entries; the character device promises it for the commands written to
  it.  Both interpret this locale, and both get the facts about whole histories from it.
\<close>

locale bounded_log =
  fixes start :: 'b
    and add :: "'b \<Rightarrow> 'e \<Rightarrow> 'b option"
    and view :: "'b \<Rightarrow> 'e list"
    and inv :: "'b \<Rightarrow> bool"
    and ok :: "'e \<Rightarrow> bool"
    and cap :: nat
  assumes inv_start: "inv start"
    and view_start: "view start = []"
    and add_step: "inv b \<Longrightarrow> ok e \<Longrightarrow>
      \<exists>b'. add b e = Some b' \<and> inv b' \<and> view b' = last_n cap (view b @ [e])"
begin

lemma history:
  "inv b \<Longrightarrow> \<forall>e\<in>set es. ok e \<Longrightarrow> length (view b) \<le> cap \<Longrightarrow>
     \<exists>b'. run_adds add b es = Some b' \<and> inv b' \<and> view b' = last_n cap (view b @ es)"
proof (induction es arbitrary: b)
  case Nil
  then show ?case by simp
next
  case (Cons e es)
  obtain c where c: "add b e = Some c" "inv c" "view c = last_n cap (view b @ [e])"
    using add_step [of b e] Cons.prems by auto
  then have "length (view c) \<le> cap" by simp
  then obtain b' where "run_adds add c es = Some b'" "inv b'" "view b' = last_n cap (view c @ es)"
    using Cons c by fastforce
  with c show ?case by (simp add: last_n_append_last_n)
qed

lemma history_from_start:
  "\<forall>e\<in>set es. ok e \<Longrightarrow>
     \<exists>b'. run_adds add start es = Some b' \<and> inv b' \<and> view b' = last_n cap es"
  using history [OF inv_start] by (simp add: view_start)

lemma short_history:
  "\<forall>e\<in>set es. ok e \<Longrightarrow> length es \<le> cap \<Longrightarrow>
     \<exists>b'. run_adds add start es = Some b' \<and> view b' = es"
  using history_from_start [of es] by auto

end

end
