(* ===== verification/Circular_Buffer.thy ===== *)
theory Circular_Buffer
  imports Bounded_Log
begin

text \<open>
  The circular buffer of \<^verbatim>\<open>aesd-char-driver/aesd-circular-buffer.c\<close>: a fixed array of ten
  entries, a slot for the next write (\<open>in_offs\<close>), the slot of the oldest entry
  (\<open>out_offs\<close>) and a flag that is set once the array has filled up and never cleared
  again.  The definitions follow the C functions; the lemmas show that the buffer is a
  bounded log of capacity ten and that the two traversals (size, lookup by position) agree
  with the concatenation of its entries.
\<close>

section \<open>The data structures\<close>

abbreviation AESDCHAR_MAX_WRITE_OPERATIONS_SUPPORTED :: nat where
  "AESDCHAR_MAX_WRITE_OPERATIONS_SUPPORTED \<equiv> 10"

text \<open>A pointer is an address in the block memory of \<open>Kernel_Memory\<close>; NULL is \<open>0\<close>.\<close>

record aesd_buffer_entry =
  buffptr :: nat
  size :: size_t

record aesd_circular_buffer =
  entry :: "aesd_buffer_entry list"
  in_offs :: uint8
  out_offs :: uint8
  full :: bool

definition null_entry :: aesd_buffer_entry where
  "null_entry = \<lparr>buffptr = 0, size = 0\<rparr>"

section \<open>The functions of aesd-circular-buffer.c\<close>

text \<open>The number of entries in use, as each of the traversals computes it.\<close>

definition entry_count :: "aesd_circular_buffer \<Rightarrow> nat" where
  "entry_count buffer =
     (if full buffer then AESDCHAR_MAX_WRITE_OPERATIONS_SUPPORTED else unat (in_offs buffer))"

text \<open>The slot of the \<open>i\<close>-th oldest entry.\<close>

definition entry_pos :: "aesd_circular_buffer \<Rightarrow> nat \<Rightarrow> nat" where
  "entry_pos buffer i =
     (unat (out_offs buffer) + i) mod AESDCHAR_MAX_WRITE_OPERATIONS_SUPPORTED"

function calculate_size_loop :: "aesd_circular_buffer \<Rightarrow> nat \<Rightarrow> nat \<Rightarrow> size_t \<Rightarrow> size_t" where
  "calculate_size_loop buffer i count total_size =
     (if i < count
      then calculate_size_loop buffer (Suc i) count
             (total_size + size (entry buffer ! entry_pos buffer i))
      else total_size)"
  by pat_completeness auto
termination
  by (relation "measure (\<lambda>(b, i, count, t). count - i)") auto

definition aesd_circular_buffer_calculate_size :: "aesd_circular_buffer \<Rightarrow> loff_t" where
  "aesd_circular_buffer_calculate_size buffer =
     calculate_size_loop buffer 0 (entry_count buffer) 0"

text \<open>
  The lookup returns the slot of the entry (the C code returns its address) and the offset
  stored through \<open>entry_offset_byte_rtn\<close>; \<open>None\<close> is the NULL result, on which the
  C code stores nothing.
\<close>

function find_entry_loop :: "aesd_circular_buffer \<Rightarrow> nat \<Rightarrow> nat \<Rightarrow> size_t \<Rightarrow> (nat \<times> size_t) option" where
  "find_entry_loop buffer i count remaining =
     (if i < count
      then (let pos = entry_pos buffer i in
        if remaining < size (entry buffer ! pos) then Some (pos, remaining)
        else find_entry_loop buffer (Suc i) count (remaining - size (entry buffer ! pos)))
      else None)"
  by pat_completeness auto
termination
  by (relation "measure (\<lambda>(b, i, count, t). count - i)") auto

definition aesd_circular_buffer_find_entry_offset_for_fpos ::
    "aesd_circular_buffer \<Rightarrow> size_t \<Rightarrow> (nat \<times> size_t) option" where
  "aesd_circular_buffer_find_entry_offset_for_fpos buffer char_offset =
     find_entry_loop buffer 0 (entry_count buffer) char_offset"

text \<open>The slot after \<open>index\<close>, stored back into an eight-bit field.\<close>

definition next_offs :: "nat \<Rightarrow> uint8" where
  "next_offs index = word_of_nat ((index + 1) mod AESDCHAR_MAX_WRITE_OPERATIONS_SUPPORTED)"

text \<open>
  \<open>None\<close> is the assignment outside the array that an \<open>in_offs\<close> of ten or more would
  cause.
\<close>

definition aesd_circular_buffer_add_entry ::
    "aesd_circular_buffer \<Rightarrow> aesd_buffer_entry \<Rightarrow> aesd_circular_buffer option" where
  "aesd_circular_buffer_add_entry buffer add_entry =
     (let index = unat (in_offs buffer);
          b1 = (if full buffer then buffer\<lparr>out_offs := next_offs index\<rparr> else buffer)
      in if index < length (entry b1)
         then let b2 = b1\<lparr>entry := (entry b1)[index := add_entry]\<rparr>;
                  b3 = b2\<lparr>in_offs := next_offs index\<rparr>
              in Some (if \<not> full b3 \<and> in_offs b3 = out_offs b3 then b3\<lparr>full := True\<rparr> else b3)
         else None)"

text \<open>\<open>memset\<close> of the whole struct to zero.\<close>

definition aesd_circular_buffer_init :: aesd_circular_buffer where
  "aesd_circular_buffer_init =
     \<lparr>entry = replicate AESDCHAR_MAX_WRITE_OPERATIONS_SUPPORTED null_entry,
      in_offs = 0, out_offs = 0, full = False\<rparr>"

text \<open>
  The iteration macro visits the ten slots in array order; its body is a function on some
  state that may fail.
\<close>

definition AESD_CIRCULAR_BUFFER_FOREACH ::
    "('s \<Rightarrow> aesd_buffer_entry \<Rightarrow> 's option) \<Rightarrow> aesd_circular_buffer \<Rightarrow> 's \<Rightarrow> 's option" where
  "AESD_CIRCULAR_BUFFER_FOREACH body buffer s =
     run_adds body s (take AESDCHAR_MAX_WRITE_OPERATIONS_SUPPORTED (entry buffer))"

declare calculate_size_loop.simps [simp del] find_entry_loop.simps [simp del]

section \<open>The well-formed buffers and their contents\<close>

definition ring_wf :: "aesd_circular_buffer \<Rightarrow> bool" where
  "ring_wf b \<longleftrightarrow> length (entry b) = 10 \<and> unat (in_offs b) < 10 \<and> unat (out_offs b) < 10 \<and>
     (if full b then in_offs b = out_offs b else out_offs b = 0)"

definition ring_view :: "aesd_circular_buffer \<Rightarrow> aesd_buffer_entry list" where
  "ring_view b = map (\<lambda>i. entry b ! entry_pos b i) [0..<entry_count b]"

lemma length_ring_view [simp]: "length (ring_view b) = entry_count b"
  by (simp add: ring_view_def)

lemma nth_ring_view: "i < entry_count b \<Longrightarrow> ring_view b ! i = entry b ! entry_pos b i"
  by (simp add: ring_view_def)

lemma entry_pos_less [simp]: "entry_pos b i < 10"
  by (simp add: entry_pos_def)

lemma entry_count_le: "ring_wf b \<Longrightarrow> entry_count b \<le> 10"
  by (simp add: ring_wf_def entry_count_def)

lemma ring_wf_init: "ring_wf aesd_circular_buffer_init"
  by (simp add: ring_wf_def aesd_circular_buffer_init_def)

lemma ring_view_init: "ring_view aesd_circular_buffer_init = []"
  by (simp add: ring_view_def entry_count_def aesd_circular_buffer_init_def)

lemma ring_view_set: "ring_wf b \<Longrightarrow> set (ring_view b) \<subseteq> set (entry b)"
  by (auto simp: ring_view_def ring_wf_def)

section \<open>Adding an entry\<close>

lemma unat_next_offs [simp]: "unat (next_offs k) = (k + 1) mod 10"
  by (simp only: next_offs_def unat_uint8_mod10)

lemma next_offs_0_iff: "k < 10 \<Longrightarrow> next_offs k = 0 \<longleftrightarrow> k = 9"
proof -
  assume "k < 10"
  have "next_offs k = 0 \<longleftrightarrow> unat (next_offs k) = 0" by (simp only: unat_eq_0)
  also have "\<dots> \<longleftrightarrow> k = 9" using \<open>k < 10\<close> unfolding unat_next_offs by presburger
  finally show ?thesis .
qed

text \<open>The two shapes of the buffer an addition meets.\<close>

lemma add_entry_not_full:
  assumes wf: "ring_wf b" and nf: "\<not> full b"
  shows "\<exists>b'. aesd_circular_buffer_add_entry b e = Some b' \<and> ring_wf b' \<and>
     ring_view b' = ring_view b @ [e] \<and> entry b' = (entry b)[unat (in_offs b) := e]"
proof -
  define k where "k = unat (in_offs b)"
  let ?b = "b\<lparr>entry := (entry b)[k := e], in_offs := next_offs k, full := (k = 9)\<rparr>"
  have k: "k < 10" "length (entry b) = 10" "out_offs b = 0"
    using wf nf by (auto simp: ring_wf_def k_def)
  have "aesd_circular_buffer_add_entry b e = Some ?b"
    using k nf by (auto simp: aesd_circular_buffer_add_entry_def Let_def next_offs_0_iff
        simp flip: k_def)
  moreover have "ring_wf ?b"
    using k by (simp add: ring_wf_def next_offs_0_iff)
  moreover have n: "entry_count ?b = Suc k" "entry_count b = k"
    using k nf by (auto simp: entry_count_def k_def)
  then have "ring_view ?b = ring_view b @ [e]"
    using k by (intro nth_equalityI)
      (auto simp: nth_ring_view nth_append entry_pos_def nth_list_update)
  ultimately show ?thesis by (auto simp: k_def)
qed

lemma add_entry_full:
  assumes wf: "ring_wf b" and f: "full b"
  shows "\<exists>b'. aesd_circular_buffer_add_entry b e = Some b' \<and> ring_wf b' \<and>
     ring_view b' = tl (ring_view b) @ [e] \<and> entry b' = (entry b)[unat (in_offs b) := e]"
proof -
  define k where "k = unat (in_offs b)"
  let ?b = "b\<lparr>out_offs := next_offs k, entry := (entry b)[k := e], in_offs := next_offs k\<rparr>"
  have k: "k < 10" "length (entry b) = 10" "unat (out_offs b) = k"
    using wf f by (auto simp: ring_wf_def k_def)
  have "aesd_circular_buffer_add_entry b e = Some ?b"
    using k f by (simp add: aesd_circular_buffer_add_entry_def Let_def flip: k_def)
  moreover have "ring_wf ?b"
    using k f by (simp add: ring_wf_def)
  moreover have n: "entry_count ?b = 10" "entry_count b = 10"
    using f by (simp_all add: entry_count_def)
  have "ring_view ?b = tl (ring_view b) @ [e]"
  proof (rule nth_equalityI)
    show "length (ring_view ?b) = length (tl (ring_view b) @ [e])"
      by (simp add: n)
    fix i assume "i < length (ring_view ?b)"
    then have i: "i < 10" by (simp add: n)
    have new: "entry_pos ?b i = (k + Suc i) mod 10" and old: "entry_pos b (Suc i) = (k + Suc i) mod 10"
      using k by (simp_all add: entry_pos_def mod_simps)
    show "ring_view ?b ! i = (tl (ring_view b) @ [e]) ! i"
    proof (cases "i = 9")
      case True
      then have "entry_pos ?b i = k" using new k by simp
      with True k show ?thesis by (simp add: nth_ring_view nth_append n)
    next
      case False
      with i have "i < 9" by simp
      then have "(k + Suc i) mod 10 \<noteq> k" using k(1) by (auto simp: mod_if)
      then have "ring_view ?b ! i = entry b ! entry_pos b (Suc i)"
        using i by (simp add: nth_ring_view n new old del: add_Suc_right)
      also have "\<dots> = (tl (ring_view b) @ [e]) ! i"
        using \<open>i < 9\<close> by (simp add: nth_ring_view n nth_append nth_tl)
      finally show ?thesis .
    qed
  qed
  ultimately show ?thesis by (auto simp: k_def)
qed

lemma add_entry_ok:
  assumes "ring_wf b"
  shows "\<exists>b'. aesd_circular_buffer_add_entry b e = Some b' \<and> ring_wf b' \<and>
     ring_view b' = last_n 10 (ring_view b @ [e])"
proof (cases "full b")
  case True
  then have "last_n 10 (ring_view b @ [e]) = tl (ring_view b) @ [e]"
    by (intro last_n_snoc_full) (simp_all add: entry_count_def)
  with add_entry_full [OF assms True, of e] show ?thesis by auto
next
  case False
  then have "length (ring_view b @ [e]) \<le> 10"
    using assms by (simp add: ring_wf_def entry_count_def)
  then have "last_n 10 (ring_view b @ [e]) = ring_view b @ [e]" by (rule last_n_short)
  with add_entry_not_full [OF assms False, of e] show ?thesis by auto
qed

text \<open>The circular buffer is a bounded log of ten entries.\<close>

interpretation ring: bounded_log aesd_circular_buffer_init aesd_circular_buffer_add_entry
    ring_view ring_wf "\<lambda>_. True" 10
  by unfold_locales (simp_all add: ring_wf_init ring_view_init add_entry_ok)

section \<open>The traversals\<close>

abbreviation ring_sizes :: "aesd_circular_buffer \<Rightarrow> nat list" where
  "ring_sizes b \<equiv> map (\<lambda>e. unat (size e)) (ring_view b)"

lemma drop_ring_view:
  "i < entry_count b \<Longrightarrow>
     drop i (ring_view b) = entry b ! entry_pos b i # drop (Suc i) (ring_view b)"
  by (simp add: nth_ring_view flip: Cons_nth_drop_Suc)

lemma calculate_size_loop_sum:
  "count = entry_count b \<Longrightarrow>
     calculate_size_loop b i count t = t + sum_list (map size (drop i (ring_view b)))"
proof (induction b i count t rule: calculate_size_loop.induct)
  case (1 b i count t)
  then show ?case
    by (cases "i < count")
      (simp_all add: calculate_size_loop.simps [of b i] drop_ring_view add.assoc)
qed

lemma calculate_size_unat:
  "sum_list (ring_sizes b) < 2 ^ 64 \<Longrightarrow>
     unat (aesd_circular_buffer_calculate_size b) = sum_list (ring_sizes b)"
  using unat_sum_list [of "map size (ring_view b)"]
  by (simp add: aesd_circular_buffer_calculate_size_def calculate_size_loop_sum comp_def)

lemma find_entry_loop_locate:
  "count = entry_count b \<Longrightarrow>
     find_entry_loop b i count r =
     map_option (\<lambda>(j, off). (entry_pos b (i + j), word_of_nat off))
       (locate (drop i (ring_sizes b)) (unat r))"
proof (induction b i count r rule: find_entry_loop.induct)
  case (1 b i count r)
  show ?case
  proof (cases "i < count")
    case True
    define e where "e = entry b ! entry_pos b i"
    have view: "drop i (ring_sizes b) = unat (size e) # drop (Suc i) (ring_sizes b)"
      using True "1.prems" by (simp add: drop_ring_view drop_map e_def)
    show ?thesis
    proof (cases "r < size e")
      case True
      with \<open>i < count\<close> view show ?thesis
        by (simp add: find_entry_loop.simps [of b i] Let_def word_less_nat_alt flip: e_def)
    next
      case False
      then have r: "unat (r - size e) = unat r - unat (size e)" "\<not> unat r < unat (size e)"
        by (simp_all add: unat_size_sub word_less_nat_alt word_le_nat_alt)
      from False \<open>i < count\<close>
      have "find_entry_loop b i count r = find_entry_loop b (Suc i) count (r - size e)"
        by (simp add: find_entry_loop.simps [of b i] Let_def flip: e_def)
      also have "\<dots> = map_option (\<lambda>(j, off). (entry_pos b (Suc i + j), word_of_nat off))
          (locate (drop (Suc i) (ring_sizes b)) (unat (r - size e)))"
        using "1.IH" [OF \<open>i < count\<close> refl] False "1.prems" by (simp flip: e_def)
      finally show ?thesis
        by (cases "locate (drop (Suc i) (ring_sizes b)) (unat r - unat (size e))") (auto simp: view r)
    qed
  next
    case False
    with "1.prems" show ?thesis by (simp add: find_entry_loop.simps [of b i])
  qed
qed

lemma find_entry_locate:
  "aesd_circular_buffer_find_entry_offset_for_fpos b pos =
     map_option (\<lambda>(j, off). (entry_pos b j, word_of_nat off)) (locate (ring_sizes b) (unat pos))"
  by (simp add: aesd_circular_buffer_find_entry_offset_for_fpos_def find_entry_loop_locate)

lemma find_entry_None_iff:
  "aesd_circular_buffer_find_entry_offset_for_fpos b pos = None \<longleftrightarrow>
     sum_list (ring_sizes b) \<le> unat pos"
  by (simp add: find_entry_locate locate_None_iff)

lemma find_entry_SomeD:
  assumes "aesd_circular_buffer_find_entry_offset_for_fpos b pos = Some (slot, off)"
  obtains j where "j < entry_count b" "slot = entry_pos b j" "entry b ! slot = ring_view b ! j"
    "off < size (ring_view b ! j)"
    "unat pos = sum_list (take j (ring_sizes b)) + unat off"
proof -
  from assms obtain j n where j: "locate (ring_sizes b) (unat pos) = Some (j, n)"
    and eq: "slot = entry_pos b j" "off = word_of_nat n"
    by (auto simp: find_entry_locate)
  from locate_Some [OF j] have *: "j < entry_count b" "n < unat (size (ring_view b ! j))"
    "unat pos = sum_list (take j (ring_sizes b)) + n"
    by (auto simp del: nth_map) (simp_all add: nth_map)
  have "n < 2 ^ 64" using *(2) unat_size_less less_trans by blast
  then have "unat off = n" using eq unat_size_of_nat by simp
  with * eq show ?thesis by (intro that [of j]) (simp_all add: nth_ring_view word_less_nat_alt)
qed

end
