(* ===== verification/Ring_Properties.thy ===== *)
theory Ring_Properties
  imports Circular_Buffer
begin

text \<open>
  What the circular buffer promises its users, stated over the C functions alone: additions
  keep the last ten entries in order, the size is the sum over the entries, and the lookup
  finds the byte at a position of their concatenation.
\<close>

text \<open>
  C32: after any sequence of \<open>aesd_circular_buffer_add_entry\<close> calls on an initialised buffer,
  none of them stores outside the array, the buffer is well formed, and reading it from
  \<open>out_offs\<close> on gives exactly the last ten entries added, oldest first.
\<close>

theorem ring_keeps_last_ten:
  "\<exists>b. run_adds aesd_circular_buffer_add_entry aesd_circular_buffer_init es = Some b \<and>
     ring_wf b \<and> ring_view b = last_n 10 es"
  using ring.history_from_start [of es] by simp

text \<open>
  One addition to a well-formed buffer appends the entry, after dropping the oldest one
  exactly when the buffer is full; it overwrites one slot, that of \<open>in_offs\<close>, and leaves the other nine.
\<close>

theorem ring_add_exact:
  assumes "ring_wf b"
  shows "\<exists>b'. aesd_circular_buffer_add_entry b e = Some b' \<and> ring_wf b' \<and>
     ring_view b' = (if full b then tl (ring_view b) else ring_view b) @ [e] \<and>
     entry b' = (entry b)[unat (in_offs b) := e]"
  using add_entry_full [OF assms, of e] add_entry_not_full [OF assms, of e] by auto

definition full_ring :: aesd_circular_buffer where
  "full_ring = \<lparr>entry = map (\<lambda>i. \<lparr>buffptr = i, size = of_nat i\<rparr>) [100..<110],
     in_offs = 3, out_offs = 3, full = True\<rparr>"

lemma full_ring_wf: "ring_wf full_ring"
  by (simp add: full_ring_def ring_wf_def)

theorem ring_add_exact_witness:
  "\<exists>b'. aesd_circular_buffer_add_entry full_ring null_entry = Some b' \<and>
     length (ring_view b') = 10 \<and> entry b' ! 3 = null_entry"
proof -
  obtain b' where "aesd_circular_buffer_add_entry full_ring null_entry = Some b'"
    "ring_view b' = tl (ring_view full_ring) @ [null_entry]" "entry b' = (entry full_ring)[3 := null_entry]"
    using ring_add_exact [OF full_ring_wf, of null_entry] by (auto simp: full_ring_def)
  then show ?thesis
    by (simp add: entry_count_def full_ring_def del: length_ring_view)
      (simp add: ring_view_def entry_count_def)
qed

text \<open>
  C33: \<open>aesd_circular_buffer_find_entry_offset_for_fpos\<close> finds the byte at a position of the
  concatenation of the entries, oldest first, whatever bytes of the stated sizes they hold: it
  returns NULL exactly for positions at or past the end, and otherwise a slot of the array and an offset inside
  the entry there, where the byte at that position is.
\<close>

theorem ring_lookup_byte:
  assumes len: "\<forall>e\<in>set (ring_view b). length (bytes e) = unat (size e)"
  shows "case aesd_circular_buffer_find_entry_offset_for_fpos b pos of
      None \<Rightarrow> length (concat (map bytes (ring_view b))) \<le> unat pos
    | Some (slot, off) \<Rightarrow>
        slot < 10 \<and> off < size (entry b ! slot) \<and>
        unat pos < length (concat (map bytes (ring_view b))) \<and>
        concat (map bytes (ring_view b)) ! unat pos = bytes (entry b ! slot) ! unat off"
proof -
  have sizes: "ring_sizes b = map length (map bytes (ring_view b))" using len by simp
  show ?thesis
  proof (cases "aesd_circular_buffer_find_entry_offset_for_fpos b pos")
    case None
    then have "length (concat (map bytes (ring_view b))) \<le> unat pos"
      using sizes by (simp add: find_entry_None_iff length_concat)
    with None show ?thesis by simp
  next
    case (Some so)
    obtain slot off where so: "so = (slot, off)" by (cases so)
    from Some so obtain j where j: "j < entry_count b" "slot = entry_pos b j"
      "entry b ! slot = ring_view b ! j" "off < size (ring_view b ! j)"
      "unat pos = sum_list (take j (ring_sizes b)) + unat off"
      by (auto elim!: find_entry_SomeD)
    let ?xss = "map bytes (ring_view b)"
    have "unat off < length (?xss ! j)"
      using j len by (simp add: word_less_nat_alt)
    moreover have "unat pos = sum_list (take j (map length ?xss)) + unat off"
      using j(5) by (simp only: sizes)
    ultimately have d: "drop (unat pos) (concat ?xss) =
        drop (unat off) (?xss ! j) @ concat (drop (Suc j) ?xss)"
      using j(1) by (simp add: drop_concat_at del: map_map)
    then have "drop (unat pos) (concat ?xss) \<noteq> []" using \<open>unat off < length (?xss ! j)\<close> by simp
    then have lt: "unat pos < length (concat ?xss)" by simp
    moreover have "concat ?xss ! unat pos = ?xss ! j ! unat off"
      using arg_cong [OF d, of hd] lt \<open>unat off < length (?xss ! j)\<close>
      by (simp add: hd_drop_conv_nth hd_append)
    ultimately show ?thesis using Some so j by (simp add: nth_map)
  qed
qed

definition two_ring :: aesd_circular_buffer where
  "two_ring = \<lparr>entry = \<lparr>buffptr = 17, size = 2\<rparr> # \<lparr>buffptr = 18, size = 3\<rparr> # replicate 8 null_entry,
     in_offs = 2, out_offs = 0, full = False\<rparr>"

lemma two_ring_view: "ring_view two_ring = [\<lparr>buffptr = 17, size = 2\<rparr>, \<lparr>buffptr = 18, size = 3\<rparr>]"
  by code_simp

theorem ring_lookup_byte_witness:
  "aesd_circular_buffer_find_entry_offset_for_fpos two_ring 3 = Some (1, 1) \<and>
   concat (map (\<lambda>e. if buffptr e = 17 then ''ab'' else ''cde'') (ring_view two_ring)) ! 3 = CHR ''d''"
proof -
  have f: "aesd_circular_buffer_find_entry_offset_for_fpos two_ring 3 = Some (1, 1)"
    by (simp add: find_entry_locate two_ring_view) (simp add: entry_pos_def two_ring_def)
  show ?thesis
    using ring_lookup_byte [of two_ring "\<lambda>e. if buffptr e = 17 then ''ab'' else ''cde''" 3] f
    by (simp add: two_ring_view)
qed

text \<open>
  \<open>aesd_circular_buffer_calculate_size\<close> is the number of bytes in the buffer, for
  entries whose sizes add up without wrapping the 64-bit counter.
\<close>

theorem ring_size_total:
  assumes "sum_list (ring_sizes b) < 2 ^ 64"
  shows "unat (aesd_circular_buffer_calculate_size b) = sum_list (ring_sizes b)"
  by (rule calculate_size_unat [OF assms])

theorem ring_size_total_witness: "unat (aesd_circular_buffer_calculate_size two_ring) = 5"
  using ring_size_total [of two_ring] by (simp add: two_ring_view)

end
