(* ===== verification/Kernel_Memory.thy ===== *)
theory Kernel_Memory
  imports Prelude
begin

text \<open>
  The memory the driver works on: live blocks of bytes by address.  An access outside a live
  block is undefined behaviour (\<open>None\<close>).  The allocator of the kernel
  (\<open>krealloc\<close>, \<open>kfree\<close>) is not part of the repository: it is a parameter of the
  model, a record of two functions, and \<open>kernel_api_ok\<close> states what its documentation
  promises.
\<close>

section \<open>Blocks\<close>

type_synonym kheap = "nat \<rightharpoonup> char list"

text \<open>\<open>krealloc\<close> to size zero returns a pointer that is neither NULL nor a block.\<close>

abbreviation ZERO_SIZE_PTR :: nat where "ZERO_SIZE_PTR \<equiv> 16"

abbreviation zero_or_null :: "nat \<Rightarrow> bool" where
  "zero_or_null p \<equiv> p = 0 \<or> p = ZERO_SIZE_PTR"

definition heap_ok :: "kheap \<Rightarrow> bool" where
  "heap_ok h \<longleftrightarrow> h 0 = None \<and> h ZERO_SIZE_PTR = None"

text \<open>The bytes behind a pointer; none behind NULL.\<close>

definition block :: "kheap \<Rightarrow> nat \<Rightarrow> char list" where
  "block h p = (case h p of None \<Rightarrow> [] | Some b \<Rightarrow> b)"

definition load :: "kheap \<Rightarrow> nat \<Rightarrow> nat \<Rightarrow> nat \<Rightarrow> char list option" where
  "load h p off n =
     (if n = 0 then Some []
      else case h p of
        None \<Rightarrow> None
      | Some b \<Rightarrow> if off + n \<le> length b then Some (take n (drop off b)) else None)"

definition store :: "kheap \<Rightarrow> nat \<Rightarrow> nat \<Rightarrow> char list \<Rightarrow> kheap option" where
  "store h p off bs =
     (if bs = [] then Some h
      else case h p of
        None \<Rightarrow> None
      | Some b \<Rightarrow>
          if off + length bs \<le> length b
          then Some (h(p \<mapsto> take off b @ bs @ drop (off + length bs) b))
          else None)"

text \<open>\<open>memchr\<close> over the first \<open>n\<close> bytes of a block: whether the byte occurs.\<close>

definition memchr :: "kheap \<Rightarrow> nat \<Rightarrow> char \<Rightarrow> nat \<Rightarrow> bool option" where
  "memchr h p c n = map_option (\<lambda>bs. c \<in> set bs) (load h p 0 n)"

lemma block_simps [mem_simps]:
  "h p = Some b \<Longrightarrow> block h p = b"
  "h p = None \<Longrightarrow> block h p = []"
  by (simp_all add: block_def)

lemma block_upd [simp]: "block (h(p \<mapsto> b)) q = (if q = p then b else block h q)"
  by (simp add: block_def)

lemma block_free [simp]: "block (h(p := None)) q = (if q = p then [] else block h q)"
  by (simp add: block_def)

lemma load_block [mem_simps]:
  "h p = Some b \<Longrightarrow> off + n \<le> length b \<Longrightarrow> load h p off n = Some (take n (drop off b))"
  by (simp add: load_def)

lemma store_block [mem_simps]:
  "h p = Some b \<Longrightarrow> off + length bs \<le> length b \<Longrightarrow>
     store h p off bs = Some (h(p \<mapsto> take off b @ bs @ drop (off + length bs) b))"
  by (auto simp: store_def)

lemma memchr_block [mem_simps]:
  "h p = Some b \<Longrightarrow> memchr h p c (length b) = Some (c \<in> set b)"
  by (simp add: memchr_def load_block)

lemma load_None_iff:
  "load h p off n = None \<longleftrightarrow> 0 < n \<and> (\<forall>b. h p = Some b \<longrightarrow> length b < off + n)"
  by (auto simp: load_def split: option.splits)

section \<open>The allocator\<close>

record kernel_api =
  krealloc :: "kheap \<Rightarrow> nat \<Rightarrow> nat \<Rightarrow> (nat \<times> kheap) option"
  kfree :: "kheap \<Rightarrow> nat \<Rightarrow> kheap option"

definition valid_ptr :: "kheap \<Rightarrow> nat \<Rightarrow> bool" where
  "valid_ptr h p \<longleftrightarrow> zero_or_null p \<or> h p \<noteq> None"

text \<open>
  What the kernel documents of \<open>krealloc(p, n)\<close>: NULL and an unchanged heap on failure;
  for size zero the block is freed; otherwise a block of \<open>n\<close> bytes, in place or fresh,
  that keeps the old bytes up to the smaller size, while the old block is gone.
\<close>

definition krealloc_post :: "kheap \<Rightarrow> nat \<Rightarrow> nat \<Rightarrow> nat \<Rightarrow> kheap \<Rightarrow> bool" where
  "krealloc_post h p n q h' \<longleftrightarrow>
     (q = 0 \<and> h' = h) \<or>
     (n = 0 \<and> q = ZERO_SIZE_PTR \<and> h' = h(p := None)) \<or>
     (0 < n \<and> \<not> zero_or_null q \<and> (q = p \<or> h q = None) \<and>
      (\<exists>b. length b = n \<and> take (min n (length (block h p))) b = take n (block h p) \<and>
           h' = (h(p := None))(q \<mapsto> b)))"

definition krealloc_spec :: "kernel_api \<Rightarrow> bool" where
  "krealloc_spec K \<longleftrightarrow>
     (\<forall>h p n. heap_ok h \<longrightarrow> valid_ptr h p \<longrightarrow>
        (\<exists>q h'. krealloc K h p n = Some (q, h') \<and> krealloc_post h p n q h'))"

definition kfree_spec :: "kernel_api \<Rightarrow> bool" where
  "kfree_spec K \<longleftrightarrow>
     (\<forall>h p. heap_ok h \<longrightarrow> zero_or_null p \<longrightarrow> kfree K h p = Some h) \<and>
     (\<forall>h p b. heap_ok h \<longrightarrow> h p = Some b \<longrightarrow> kfree K h p = Some (h(p := None)))"

definition kernel_api_ok :: "kernel_api \<Rightarrow> bool" where
  "kernel_api_ok K \<longleftrightarrow> krealloc_spec K \<and> kfree_spec K"

lemma krealloc_ok:
  assumes "kernel_api_ok K" "heap_ok h" "valid_ptr h p"
  obtains q h' where "krealloc K h p n = Some (q, h')" "krealloc_post h p n q h'"
proof -
  have "\<exists>q h'. krealloc K h p n = Some (q, h') \<and> krealloc_post h p n q h'"
    using assms unfolding kernel_api_ok_def krealloc_spec_def by blast
  then show thesis using that by blast
qed

lemma kfree_null:
  assumes "kernel_api_ok K" "heap_ok h" "zero_or_null p"
  shows "kfree K h p = Some h"
proof -
  from assms(1) have "kfree_spec K" by (simp add: kernel_api_ok_def)
  then show ?thesis using assms(2,3) unfolding kfree_spec_def by blast
qed

lemma kfree_block:
  assumes "kernel_api_ok K" "heap_ok h" "h p = Some b"
  shows "kfree K h p = Some (h(p := None))"
proof -
  from assms(1) have "kfree_spec K" by (simp add: kernel_api_ok_def)
  then show ?thesis using assms(2,3) unfolding kfree_spec_def by blast
qed

text \<open>A growing \<open>krealloc\<close> that succeeds keeps all old bytes.\<close>

lemma krealloc_grow:
  assumes "krealloc_post h p n q h'" "q \<noteq> 0" "length (block h p) \<le> n" "0 < n"
  obtains t where "h' = (h(p := None))(q \<mapsto> block h p @ t)"
    "length (block h p @ t) = n" "\<not> zero_or_null q" "q = p \<or> h q = None"
proof -
  from assms obtain b where b: "length b = n" "take (length (block h p)) b = block h p"
    "h' = (h(p := None))(q \<mapsto> b)" "\<not> zero_or_null q" "q = p \<or> h q = None"
    by (auto simp: krealloc_post_def min_def split: if_splits)
  then have "b = block h p @ drop (length (block h p)) b"
    by (metis append_take_drop_id)
  with b show thesis by (intro that [of "drop (length (block h p)) b"]) simp_all
qed

section \<open>An allocator that keeps the promises\<close>

text \<open>
  First fit over a small range of addresses, moving every block it resizes.  It shows that
  \<open>kernel_api_ok\<close> can hold; witnesses run the driver on it.
\<close>

definition first_fit_krealloc :: "kheap \<Rightarrow> nat \<Rightarrow> nat \<Rightarrow> (nat \<times> kheap) option" where
  "first_fit_krealloc h p n =
     (if n = 0 then Some (ZERO_SIZE_PTR, h(p := None))
      else case find (\<lambda>a. h a = None) [17..<48] of
        None \<Rightarrow> Some (0, h)
      | Some q \<Rightarrow> Some (q, (h(p := None))(q \<mapsto> take n (block h p @ replicate n NUL))))"

definition first_fit_kfree :: "kheap \<Rightarrow> nat \<Rightarrow> kheap option" where
  "first_fit_kfree h p =
     (if zero_or_null p then Some h
      else case h p of None \<Rightarrow> None | Some _ \<Rightarrow> Some (h(p := None)))"

definition first_fit :: kernel_api where
  "first_fit = \<lparr>krealloc = first_fit_krealloc, kfree = first_fit_kfree\<rparr>"

lemma first_fit_krealloc_post:
  "\<exists>q h'. first_fit_krealloc h p n = Some (q, h') \<and> krealloc_post h p n q h'"
proof (cases "n = 0")
  case True
  then show ?thesis by (simp add: first_fit_krealloc_def krealloc_post_def)
next
  case False
  show ?thesis
  proof (cases "find (\<lambda>a. h a = None) [17..<48]")
    case None
    with False show ?thesis by (simp add: first_fit_krealloc_def krealloc_post_def)
  next
    case (Some q)
    then have "h q = None \<and> q \<in> set [17..<48]"
      unfolding find_Some_iff by (metis nth_mem)
    then have "h q = None" "17 \<le> q" by (simp_all del: upt_rec_numeral)
    moreover define b where "b = take n (block h p @ replicate n NUL)"
    then have "length b = n" "take (min n (length (block h p))) b = take n (block h p)"
      by (simp_all add: min_def)
    moreover have "first_fit_krealloc h p n = Some (q, (h(p := None))(q \<mapsto> b))"
      using False Some by (simp add: first_fit_krealloc_def b_def del: upt_rec_numeral)
    ultimately show ?thesis using False unfolding krealloc_post_def by auto
  qed
qed

lemma first_fit_ok: "kernel_api_ok first_fit"
  using first_fit_krealloc_post
  by (auto simp: kernel_api_ok_def krealloc_spec_def kfree_spec_def first_fit_def
      first_fit_kfree_def heap_ok_def)

end
