(* ===== verification/Char_Driver.thy ===== *)
theory Char_Driver
  imports Circular_Buffer Kernel_Memory
begin

text \<open>
  The character driver of \<^verbatim>\<open>aesd-char-driver/main.c\<close>: its device structure, the file
  operations in the order of the source, and the module's entry and exit functions.

  Every file operation takes the device mutex with \<open>mutex_lock_interruptible\<close> and holds it
  until it returns, so one call is one step of the device; a call that finds the mutex taken
  waits, and the model's step is taken from a state in which it is free.  What the kernel
  decides in a call is an argument (\<open>kcall\<close>): whether the lock was interrupted by a
  signal and how many bytes \<open>copy_to_user\<close> or \<open>copy_from_user\<close> left uncopied.
\<close>

section \<open>State\<close>

datatype errno = EFAULT | ENOMEM | EINVAL | ENOTTY | ERESTARTSYS

text \<open>
  \<open>struct aesd_dev\<close>: its field \<open>entry\<close> (the working entry) is \<open>dev_entry\<close>
  here, and \<open>mutex\<close> is whether the mutex is held.  The embedded \<open>cdev\<close> is part of
  the registration state of the module below.
\<close>

record aesd_dev =
  buffer :: aesd_circular_buffer
  dev_entry :: aesd_buffer_entry
  mutex :: bool

record kstate =
  heap :: kheap
  dev :: aesd_dev

text \<open>The fields of \<open>struct file\<close> the driver uses.\<close>

record file_struct =
  f_pos :: loff_t
  private_data :: nat

record kcall =
  interrupted :: bool
  uncopied :: nat

abbreviation mutex_lock :: "kstate \<Rightarrow> kstate" where
  "mutex_lock s \<equiv> s\<lparr>dev := (dev s)\<lparr>mutex := True\<rparr>\<rparr>"

abbreviation mutex_unlock :: "kstate \<Rightarrow> kstate" where
  "mutex_unlock s \<equiv> s\<lparr>dev := (dev s)\<lparr>mutex := False\<rparr>\<rparr>"

section \<open>open and release\<close>

text \<open>
  \<open>container_of\<close> subtracts the offset of \<open>cdev\<close> in the structure, which the
  compiler chooses, from the address of the \<open>cdev\<close>.
\<close>

definition aesd_open :: "nat \<Rightarrow> nat \<Rightarrow> file_struct \<Rightarrow> int \<times> file_struct" where
  "aesd_open cdev_offset i_cdev filp = (0, filp\<lparr>private_data := i_cdev - cdev_offset\<rparr>)"

definition aesd_release :: "file_struct \<Rightarrow> int \<times> file_struct" where
  "aesd_release filp = (0, filp)"

section \<open>read and write\<close>

text \<open>
  A successful read returns the bytes copied to the user; their number is the return value
  of the C function.
\<close>

definition aesd_read :: "kcall \<Rightarrow> size_t \<Rightarrow> kstate \<Rightarrow> file_struct \<Rightarrow>
    ((errno + char list) \<times> kstate \<times> file_struct) option" where
  "aesd_read c count s filp =
     (if interrupted c then Some (Inl ERESTARTSYS, s, filp)
      else
        let s = mutex_lock s in
        case aesd_circular_buffer_find_entry_offset_for_fpos (buffer (dev s)) (f_pos filp) of
          None \<Rightarrow> Some (Inr [], mutex_unlock s, filp)
        | Some (slot, entry_offset) \<Rightarrow>
            let e = entry (buffer (dev s)) ! slot;
                entry_remaining_bytes = size e - entry_offset;
                bytes_to_read =
                  (if entry_remaining_bytes \<ge> count then count else entry_remaining_bytes)
            in do {
              bs \<leftarrow> load (heap s) (buffptr e) (unat entry_offset) (unat bytes_to_read);
              if uncopied c \<noteq> 0 then Some (Inl EFAULT, mutex_unlock s, filp)
              else Some (Inr bs, mutex_unlock s, filp\<lparr>f_pos := f_pos filp + bytes_to_read\<rparr>)
            })"

text \<open>
  \<open>data\<close> is the user's buffer, \<open>count\<close> its length.  A \<open>copy_from_user\<close> that
  leaves \<open>u\<close> bytes uncopied has stored the first \<open>count - u\<close>.
\<close>

definition aesd_write :: "kernel_api \<Rightarrow> kcall \<Rightarrow> char list \<Rightarrow> kstate \<Rightarrow> file_struct \<Rightarrow>
    ((errno + size_t) \<times> kstate \<times> file_struct) option" where
  "aesd_write K c data s filp =
     (if interrupted c then Some (Inl ERESTARTSYS, s, filp)
      else
        let s = mutex_lock s;
            count = word_of_nat (length data);
            current_size = size (dev_entry (dev s));
            new_size = current_size + count
        in do {
          (tmp, h) \<leftarrow> krealloc K (heap s) (buffptr (dev_entry (dev s))) (unat new_size);
          let s = s\<lparr>heap := h\<rparr>;
          if tmp = 0 then Some (Inl ENOMEM, mutex_unlock s, filp)
          else do {
            let s = s\<lparr>dev := (dev s)\<lparr>dev_entry := (dev_entry (dev s))\<lparr>buffptr := tmp\<rparr>\<rparr>\<rparr>;
            h \<leftarrow> store (heap s) tmp (unat current_size) (take (length data - uncopied c) data);
            if uncopied c \<noteq> 0
            then do {
              h \<leftarrow> kfree K h (buffptr (dev_entry (dev s)));
              let s = s\<lparr>heap := h, dev := (dev s)\<lparr>dev_entry := null_entry\<rparr>\<rparr>;
              Some (Inl EFAULT, mutex_unlock s, filp)
            }
            else do {
              let s = s\<lparr>heap := h, dev := (dev s)\<lparr>dev_entry := (dev_entry (dev s))\<lparr>size := new_size\<rparr>\<rparr>\<rparr>;
              found \<leftarrow> memchr (heap s) (buffptr (dev_entry (dev s))) newline (unat new_size);
              s \<leftarrow> (if found
                then do {
                  b \<leftarrow> aesd_circular_buffer_add_entry (buffer (dev s)) (dev_entry (dev s));
                  Some (s\<lparr>dev := (dev s)\<lparr>buffer := b, dev_entry := null_entry\<rparr>\<rparr>)
                }
                else Some s);
              Some (Inr count, mutex_unlock s, filp\<lparr>f_pos := f_pos filp + count\<rparr>)
            }
          }
        })"

section \<open>seek\<close>

text \<open>
  The kernel is built with wrapping signed arithmetic, so \<open>newpos\<close> is a word sum; the
  test for a negative position reads its sign.
\<close>

definition aesd_seek :: "kcall \<Rightarrow> loff_t \<Rightarrow> int \<Rightarrow> kstate \<Rightarrow> file_struct \<Rightarrow>
    (errno + loff_t) \<times> kstate \<times> file_struct" where
  "aesd_seek c off whence s filp =
     (if interrupted c then (Inl ERESTARTSYS, s, filp)
      else
        let s = mutex_lock s;
            newpos =
              (if whence = 0 then Some off
               else if whence = 1 then Some (f_pos filp + off)
               else if whence = 2
               then Some (aesd_circular_buffer_calculate_size (buffer (dev s)) + off)
               else None)
        in case newpos of
             None \<Rightarrow> (Inl EINVAL, mutex_unlock s, filp)
           | Some newpos \<Rightarrow>
               if sint newpos < 0 then (Inl EINVAL, mutex_unlock s, filp)
               else (Inr newpos, mutex_unlock s, filp\<lparr>f_pos := newpos\<rparr>))"

section \<open>ioctl\<close>

text \<open>The sum over the commands before \<open>write_cmd\<close>.\<close>

function cmd_offset_loop :: "aesd_circular_buffer \<Rightarrow> uint32 \<Rightarrow> nat \<Rightarrow> loff_t \<Rightarrow> loff_t" where
  "cmd_offset_loop b write_cmd index cmd_offset =
     (if index < unat write_cmd
      then cmd_offset_loop b write_cmd (Suc index)
             (cmd_offset + size (entry b ! entry_pos b index))
      else cmd_offset)"
  by pat_completeness auto
termination
  by (relation "measure (\<lambda>(b, w, i, c). unat w - i)") auto

declare cmd_offset_loop.simps [simp del]

definition aesd_adjust_file_offset :: "kcall \<Rightarrow> uint32 \<Rightarrow> uint32 \<Rightarrow> kstate \<Rightarrow> file_struct \<Rightarrow>
    (errno + unit) \<times> kstate \<times> file_struct" where
  "aesd_adjust_file_offset c write_cmd write_cmd_offset s filp =
     (if interrupted c then (Inl ERESTARTSYS, s, filp)
      else
        let s = mutex_lock s;
            count = entry_count (buffer (dev s));
            entry_pos_off = entry_pos (buffer (dev s)) (unat write_cmd)
        in if unat write_cmd \<ge> count then (Inl EINVAL, mutex_unlock s, filp)
           else if ucast write_cmd_offset \<ge> size (entry (buffer (dev s)) ! entry_pos_off)
           then (Inl EINVAL, mutex_unlock s, filp)
           else (Inr (), mutex_unlock s,
             filp\<lparr>f_pos := cmd_offset_loop (buffer (dev s)) write_cmd 0 0 + ucast write_cmd_offset\<rparr>))"

record aesd_seekto =
  write_cmd :: uint32
  write_cmd_offset :: uint32

text \<open>
  The command number as the generic \<open>_IOWR\<close> encodes it: both directions in the top two
  bits, the size of the argument (eight bytes), the magic number and the command.
\<close>

definition IOWR :: "uint32 \<Rightarrow> uint32 \<Rightarrow> uint32 \<Rightarrow> uint32" where
  "IOWR magic nr sz = push_bit 30 3 + push_bit 16 sz + push_bit 8 magic + nr"

definition AESD_IOC_MAGIC :: uint32 where "AESD_IOC_MAGIC = 0x16"

definition AESDCHAR_IOCSEEKTO :: uint32 where
  "AESDCHAR_IOCSEEKTO = IOWR AESD_IOC_MAGIC 1 8"

text \<open>
  The argument is the structure behind the user's pointer, \<open>uncopied\<close> what
  \<open>copy_from_user\<close> returns for it.
\<close>

definition aesd_ioctl :: "kcall \<Rightarrow> uint32 \<Rightarrow> aesd_seekto \<Rightarrow> kstate \<Rightarrow> file_struct \<Rightarrow>
    (errno + unit) \<times> kstate \<times> file_struct" where
  "aesd_ioctl c cmd seekto s filp =
     (if cmd = AESDCHAR_IOCSEEKTO
      then if uncopied c \<noteq> 0 then (Inl EFAULT, s, filp)
           else aesd_adjust_file_offset c (write_cmd seekto) (write_cmd_offset seekto) s filp
      else (Inl ENOTTY, s, filp))"

end
