(* ===== verification/Driver_Inv.thy ===== *)
theory Driver_Inv
  imports Char_Driver
begin

text \<open>
  The invariant of the driver and what its state means: the list of complete commands in the
  circular buffer, oldest first, and the bytes of the command still being written.  The
  lemmas give, for each file operation, the exact result in terms of that meaning.
\<close>

section \<open>Invariant and meaning\<close>

text \<open>An entry of the circular buffer owns a live block of its size that ends a command.\<close>

definition cmd_ok :: "kheap \<Rightarrow> aesd_buffer_entry \<Rightarrow> bool" where
  "cmd_ok h e \<longleftrightarrow>
     (\<exists>b. h (buffptr e) = Some b \<and> length b = unat (size e) \<and> newline \<in> set b)"

text \<open>The working entry is empty or owns a live block without a newline.\<close>

definition work_ok :: "kheap \<Rightarrow> aesd_buffer_entry \<Rightarrow> bool" where
  "work_ok h e \<longleftrightarrow>
     (zero_or_null (buffptr e) \<and> size e = 0) \<or>
     (\<exists>b. h (buffptr e) = Some b \<and> length b = unat (size e) \<and> b \<noteq> [] \<and> newline \<notin> set b)"

text \<open>Slots that were never written are zero.\<close>

definition slots_ok :: "aesd_circular_buffer \<Rightarrow> bool" where
  "slots_ok b \<longleftrightarrow>
     (\<not> full b \<longrightarrow> (\<forall>i<10. unat (in_offs b) \<le> i \<longrightarrow> entry b ! i = null_entry))"

abbreviation ring_ptrs :: "kstate \<Rightarrow> nat list" where
  "ring_ptrs s \<equiv> map buffptr (ring_view (buffer (dev s)))"

abbreviation work_ptr :: "kstate \<Rightarrow> nat" where
  "work_ptr s \<equiv> buffptr (dev_entry (dev s))"

definition dev_inv :: "kstate \<Rightarrow> bool" where
  "dev_inv s \<longleftrightarrow>
     heap_ok (heap s) \<and> ring_wf (buffer (dev s)) \<and> slots_ok (buffer (dev s)) \<and>
     (\<forall>e\<in>set (ring_view (buffer (dev s))). cmd_ok (heap s) e) \<and>
     distinct (ring_ptrs s) \<and>
     work_ok (heap s) (dev_entry (dev s)) \<and> work_ptr s \<notin> set (ring_ptrs s) \<and>
     \<not> mutex (dev s)"

definition commands :: "kstate \<Rightarrow> char list list" where
  "commands s = map (block (heap s)) (ring_ptrs s)"

definition pending :: "kstate \<Rightarrow> char list" where
  "pending s = block (heap s) (work_ptr s)"

definition content :: "kstate \<Rightarrow> char list" where
  "content s = concat (commands s)"

lemma length_commands [simp]: "length (commands s) = entry_count (buffer (dev s))"
  by (simp add: commands_def)

lemma dev_invD:
  assumes "dev_inv s"
  shows inv_heap: "heap_ok (heap s)" and inv_wf: "ring_wf (buffer (dev s))"
    and inv_slots: "slots_ok (buffer (dev s))"
    and inv_cmds: "\<forall>e\<in>set (ring_view (buffer (dev s))). cmd_ok (heap s) e"
    and inv_distinct: "distinct (ring_ptrs s)"
    and inv_work: "work_ok (heap s) (dev_entry (dev s))"
    and inv_sep: "work_ptr s \<notin> set (ring_ptrs s)"
    and inv_free: "\<not> mutex (dev s)"
  using assms by (simp_all add: dev_inv_def)

lemma ring_ptr_live:
  assumes "dev_inv s" "p \<in> set (ring_ptrs s)"
  obtains b where "heap s p = Some b" "newline \<in> set b" "\<not> zero_or_null p"
proof -
  from assms(2) obtain e where "e \<in> set (ring_view (buffer (dev s)))" "p = buffptr e" by auto
  then obtain b where b: "heap s p = Some b" "newline \<in> set b"
    using inv_cmds [OF assms(1)] by (auto simp: cmd_ok_def)
  with inv_heap [OF assms(1)] show thesis by (intro that [OF b]) (auto simp: heap_ok_def intro: gr0I)
qed

lemma work_ptr_valid: "dev_inv s \<Longrightarrow> valid_ptr (heap s) (work_ptr s)"
  by (auto simp: valid_ptr_def work_ok_def dest!: inv_work)

lemma length_pending:
  assumes "dev_inv s"
  shows "length (pending s) = unat (size (dev_entry (dev s)))"
  using inv_work [OF assms] inv_heap [OF assms]
  by (auto simp: work_ok_def pending_def block_def heap_ok_def)

lemma newline_notin_pending:
  assumes "dev_inv s"
  shows "newline \<notin> set (pending s)"
  using inv_work [OF assms] inv_heap [OF assms]
  by (auto simp: work_ok_def pending_def block_def heap_ok_def)

lemma ring_sizes_commands:
  assumes "dev_inv s"
  shows "ring_sizes (buffer (dev s)) = map length (commands s)"
  using inv_cmds [OF assms] by (auto simp: commands_def cmd_ok_def block_def)

lemma sum_ring_sizes: "dev_inv s \<Longrightarrow> sum_list (ring_sizes (buffer (dev s))) = length (content s)"
  by (simp add: ring_sizes_commands content_def length_concat)

lemma mutex_lock_unlock: "dev_inv s \<Longrightarrow> mutex_unlock (mutex_lock s) = s"
  by (simp add: inv_free)

section \<open>open, read\<close>

lemma aesd_open_container:
  "aesd_open off (d + off) filp = (0, filp\<lparr>private_data := d\<rparr>)"
  by (simp add: aesd_open_def)

text \<open>What a read of \<open>n\<close> bytes at \<open>pos\<close> gives: the rest of one command at most.\<close>

definition read_spec :: "char list list \<Rightarrow> nat \<Rightarrow> nat \<Rightarrow> char list" where
  "read_spec cmds pos n =
     (case locate (map length cmds) pos of
        None \<Rightarrow> []
      | Some (i, off) \<Rightarrow> take n (drop off (cmds ! i)))"

lemma read_spec_prefix: "\<exists>rest. drop pos (concat cmds) = read_spec cmds pos n @ rest"
proof (cases "locate (map length cmds) pos")
  case None
  then show ?thesis by (simp add: read_spec_def)
next
  case (Some io)
  obtain i off where io: "io = (i, off)" by (cases io)
  from locate_lengthD [of cmds pos i off] Some io
  have *: "i < length cmds" "off < length (cmds ! i)"
    "pos = sum_list (take i (map length cmds)) + off" by auto
  then have "drop pos (concat cmds) = drop off (cmds ! i) @ concat (drop (Suc i) cmds)"
    by (simp add: drop_concat_at)
  then have "drop pos (concat cmds) =
      take n (drop off (cmds ! i)) @ drop n (drop off (cmds ! i)) @ concat (drop (Suc i) cmds)"
    by (simp del: drop_drop)
  with Some io show ?thesis by (auto simp: read_spec_def)
qed

lemma read_spec_Nil_iff:
  "read_spec cmds pos n = [] \<longleftrightarrow> n = 0 \<or> length (concat cmds) \<le> pos"
proof (cases "locate (map length cmds) pos")
  case None
  then have "length (concat cmds) \<le> pos" by (simp add: locate_None_iff length_concat)
  with None show ?thesis by (simp add: read_spec_def)
next
  case (Some io)
  obtain i off where io: "io = (i, off)" by (cases io)
  from locate_lengthD [of cmds pos i off] Some io
  have "i < length cmds" "off < length (cmds ! i)" by auto
  moreover have "pos < length (concat cmds)"
    using Some locate_None_iff [of "map length cmds" pos] by (auto simp: length_concat)
  ultimately show ?thesis using Some io by (simp add: read_spec_def)
qed

lemma length_read_spec: "length (read_spec cmds pos n) \<le> n"
  by (auto simp: read_spec_def split: option.split)

text \<open>A read of the driver returns exactly that, moves the position by it and nothing else.\<close>

lemma aesd_read_ok:
  fixes count :: size_t and filp :: file_struct
  assumes inv: "dev_inv s" and c: "\<not> interrupted c" "uncopied c = 0"
  defines "bs \<equiv> read_spec (commands s) (unat (f_pos filp)) (unat count)"
  shows "aesd_read c count s filp =
     Some (Inr bs, s, filp\<lparr>f_pos := f_pos filp + word_of_nat (length bs)\<rparr>)"
proof (cases "aesd_circular_buffer_find_entry_offset_for_fpos (buffer (dev s)) (f_pos filp)")
  case None
  then have "bs = []"
    using inv by (simp add: find_entry_None_iff sum_ring_sizes bs_def read_spec_Nil_iff content_def)
  with None c show ?thesis by (simp add: aesd_read_def Let_def mutex_lock_unlock [OF inv] inv_free [OF inv])
next
  case (Some so)
  obtain slot off where so: "so = (slot, off)" by (cases so)
  from Some so obtain j where j: "j < entry_count (buffer (dev s))"
    "entry (buffer (dev s)) ! slot = ring_view (buffer (dev s)) ! j"
    "off < size (ring_view (buffer (dev s)) ! j)"
    "unat (f_pos filp) = sum_list (take j (ring_sizes (buffer (dev s)))) + unat off"
    by (auto elim!: find_entry_SomeD)
  define e where "e = ring_view (buffer (dev s)) ! j"
  have "cmd_ok (heap s) e" using inv_cmds [OF inv] j(1) by (simp add: e_def)
  then obtain b where b: "heap s (buffptr e) = Some b" "length b = unat (size e)"
    by (auto simp: cmd_ok_def)
  have cmd: "commands s ! j = b" using j(1) b by (simp add: commands_def block_def flip: e_def)
  define n where "n = (if size e - off \<ge> count then count else size e - off)"
  have n: "unat n = min (unat count) (length b - unat off)" "unat off + unat n \<le> length b"
    using j(3) b(2) unat_size_sub [of off "size e"]
    by (auto simp: n_def word_le_nat_alt word_less_nat_alt simp flip: e_def)
  have "locate (map length (commands s)) (unat (f_pos filp)) = Some (j, unat off)"
    using j locate_at [of j "map length (commands s)" "unat off"] b cmd
    by (simp add: ring_sizes_commands [OF inv] word_less_nat_alt flip: e_def)
  then have bs: "bs = take (unat n) (drop (unat off) b)"
    by (simp add: bs_def read_spec_def cmd n min_def)
  moreover have "word_of_nat (length bs) = n" using bs n(2) by simp
  moreover have "mutex_unlock s = s" by (simp add: inv_free [OF inv])
  ultimately show ?thesis
    using Some so c b j(2) n(2)
    by (cases "count \<le> size e - off")
      (simp_all add: aesd_read_def Let_def load_block n_def flip: e_def)
qed

end
