(* ===== verification/Driver_Write.thy ===== *)
theory Driver_Write
  imports Driver_Inv
begin

text \<open>
  The write operation of the driver: the four ways a call can end, that each keeps the
  invariant, what it does to the commands and the pending bytes, and which blocks of the
  kernel heap nobody refers to afterwards.
\<close>

section \<open>Blocks the driver refers to, and blocks it has lost\<close>

definition owned :: "kstate \<Rightarrow> nat set" where
  "owned s = set (ring_ptrs s) \<union> (if zero_or_null (work_ptr s) then {} else {work_ptr s})"

definition lost :: "kstate \<Rightarrow> nat set" where
  "lost s = dom (heap s) - owned s"

lemma owned_subset: "dev_inv s \<Longrightarrow> owned s \<subseteq> dom (heap s)"
proof
  fix p assume inv: "dev_inv s" and "p \<in> owned s"
  then consider "p \<in> set (ring_ptrs s)" | "p = work_ptr s" "\<not> zero_or_null p"
    by (auto simp: owned_def split: if_splits)
  then show "p \<in> dom (heap s)"
  proof cases
    case 1
    with inv show ?thesis by (blast elim: ring_ptr_live)
  next
    case 2
    with work_ptr_valid [OF inv] show ?thesis by (auto simp: valid_ptr_def)
  qed
qed

section \<open>The four outcomes\<close>

text \<open>The pointer \<open>krealloc\<close> returned when it succeeded.\<close>

definition new_ptr :: "kstate \<Rightarrow> char list \<Rightarrow> nat \<Rightarrow> bool" where
  "new_ptr s data q \<longleftrightarrow>
     (if pending s @ data = [] then q = ZERO_SIZE_PTR
      else \<not> zero_or_null q \<and> (q = work_ptr s \<or> heap s q = None))"

text \<open>The heap and the working entry once the data has been copied in.\<close>

definition grown_heap :: "kstate \<Rightarrow> char list \<Rightarrow> nat \<Rightarrow> kheap" where
  "grown_heap s data q =
     (if pending s @ data = [] then heap s
      else (heap s)(work_ptr s := None, q \<mapsto> pending s @ data))"

definition grown_entry :: "kstate \<Rightarrow> char list \<Rightarrow> nat \<Rightarrow> aesd_buffer_entry" where
  "grown_entry s data q = \<lparr>buffptr = q, size = word_of_nat (length (pending s @ data))\<rparr>"

definition grown :: "kstate \<Rightarrow> char list \<Rightarrow> nat \<Rightarrow> kstate" where
  "grown s data q =
     s\<lparr>heap := grown_heap s data q, dev := (dev s)\<lparr>dev_entry := grown_entry s data q\<rparr>\<rparr>"

text \<open>The command moved into the circular buffer.\<close>

definition committed :: "kstate \<Rightarrow> char list \<Rightarrow> nat \<Rightarrow> aesd_circular_buffer \<Rightarrow> kstate" where
  "committed s data q b =
     s\<lparr>heap := grown_heap s data q, dev := (dev s)\<lparr>buffer := b, dev_entry := null_entry\<rparr>\<rparr>"

text \<open>The partial command thrown away after a failed copy.\<close>

definition dropped :: "kstate \<Rightarrow> kstate" where
  "dropped s =
     s\<lparr>heap := (if zero_or_null (work_ptr s) then heap s else (heap s)(work_ptr s := None)),
       dev := (dev s)\<lparr>dev_entry := null_entry\<rparr>\<rparr>"

text \<open>The result of the whole call when the copy went through.\<close>

definition write_result :: "kstate \<Rightarrow> char list \<Rightarrow> nat \<Rightarrow> kstate option" where
  "write_result s data q =
     (if newline \<in> set data
      then map_option (committed s data q)
             (aesd_circular_buffer_add_entry (buffer (dev s)) (grown_entry s data q))
      else Some (grown s data q))"

lemma heap_ok_upd: "heap_ok h \<Longrightarrow> \<not> zero_or_null q \<Longrightarrow> heap_ok (h(q \<mapsto> b))"
  by (auto simp: heap_ok_def)

lemma heap_ok_free: "heap_ok h \<Longrightarrow> heap_ok (h(p := None))"
  by (auto simp: heap_ok_def)

lemma fun_upd_None_absorb: "h p = None \<Longrightarrow> h(p := None) = h"
  by auto

lemma entry_eqI: "buffptr e = p \<Longrightarrow> size e = n \<Longrightarrow> e = \<lparr>buffptr = p, size = n\<rparr>"
  by (cases e) simp

lemma entry_upd: "e\<lparr>buffptr := p, size := n\<rparr> = \<lparr>buffptr = p, size = n\<rparr>"
  by (cases e) simp

lemma unlocked_entry_upd:
  "\<not> mutex d \<Longrightarrow> d\<lparr>dev_entry := w, mutex := False\<rparr> = d\<lparr>dev_entry := w\<rparr>"
  "\<not> mutex d \<Longrightarrow> d\<lparr>buffer := b, dev_entry := w, mutex := False\<rparr> = d\<lparr>buffer := b, dev_entry := w\<rparr>"
  by (cases d, simp)+

text \<open>After the allocation: nothing, or a block whose start is the pending bytes.\<close>

lemma krealloc_pending:
  assumes K: "kernel_api_ok K" and inv: "dev_inv s"
    and n: "n = length (pending s @ data)"
  obtains (fails) "krealloc K (heap s) (work_ptr s) n = Some (0, heap s)"
  | (empty) "pending s @ data = []"
      "krealloc K (heap s) (work_ptr s) n = Some (ZERO_SIZE_PTR, heap s)"
  | (moved) q t where "pending s @ data \<noteq> []" "length t = length data" "new_ptr s data q"
      "krealloc K (heap s) (work_ptr s) n = Some (q, (heap s)(work_ptr s := None, q \<mapsto> pending s @ t))"
proof -
  obtain q h' where r: "krealloc K (heap s) (work_ptr s) n = Some (q, h')"
    and post: "krealloc_post (heap s) (work_ptr s) n q h'"
    by (rule krealloc_ok [OF K inv_heap [OF inv] work_ptr_valid [OF inv]])
  consider "q = 0" | "q \<noteq> 0" "n = 0" | "q \<noteq> 0" "0 < n" by blast
  then show thesis
  proof cases
    case 1
    with post r show thesis by (intro fails) (auto simp: krealloc_post_def)
  next
    case 2
    with n have "size (dev_entry (dev s)) = 0" "pending s @ data = []"
      using length_pending [OF inv] by (auto simp: unat_eq_0)
    then have "heap s (work_ptr s) = None"
      using inv_work [OF inv] inv_heap [OF inv] by (auto simp: work_ok_def heap_ok_def)
    with 2 post r n show thesis
      by (intro empty) (auto simp: krealloc_post_def fun_upd_None_absorb)
  next
    case 3
    have le: "length (block (heap s) (work_ptr s)) \<le> n" using n by (simp add: pending_def)
    obtain t where "h' = (heap s)(work_ptr s := None, q \<mapsto> pending s @ t)"
      "length (pending s @ t) = n" "\<not> zero_or_null q" "q = work_ptr s \<or> heap s q = None"
      unfolding pending_def by (rule krealloc_grow [OF post 3(1) le 3(2)])
    with 3 r n show thesis by (intro moved [of t q]) (auto simp: new_ptr_def)
  qed
qed

lemma aesd_write_cases:
  assumes K: "kernel_api_ok K" and inv: "dev_inv s"
    and fits: "length (pending s @ data) < 2 ^ 64"
  obtains (interrupted) "interrupted c" "aesd_write K c data s filp = Some (Inl ERESTARTSYS, s, filp)"
  | (nomem) "\<not> interrupted c" "aesd_write K c data s filp = Some (Inl ENOMEM, s, filp)"
  | (fault) "\<not> interrupted c" "uncopied c \<noteq> 0"
      "aesd_write K c data s filp = Some (Inl EFAULT, dropped s, filp)"
  | (copied) q where "\<not> interrupted c" "uncopied c = 0" "new_ptr s data q"
      "aesd_write K c data s filp =
         map_option (\<lambda>s'. (Inr (word_of_nat (length data)), s',
                          filp\<lparr>f_pos := f_pos filp + word_of_nat (length data)\<rparr>))
           (write_result s data q)"
proof (cases "interrupted c")
  case True
  then show thesis by (intro interrupted) (simp_all add: aesd_write_def)
next
  case False
  define u where "u = uncopied c"
  have cur: "unat (size (dev_entry (dev s))) = length (pending s)"
    by (simp add: length_pending [OF inv])
  have new: "size (dev_entry (dev s)) + word_of_nat (length data) =
      word_of_nat (length (pending s @ data))"
    by (simp flip: cur)
  have n: "unat (word_of_nat (length (pending s @ data)) :: size_t) = length (pending s @ data)"
    using fits by (rule unat_size_of_nat)
  have free: "mutex_unlock s = s" by (simp add: inv_free [OF inv])
  note unfolds = aesd_write_def Let_def new n cur False
  show thesis
  proof (rule krealloc_pending [OF K inv refl, of data])
    assume "krealloc K (heap s) (work_ptr s) (length (pending s @ data)) = Some (0, heap s)"
    with False free show thesis by (intro nomem) (simp_all add: unfolds del: length_append)
  next
    assume *: "pending s @ data = []"
      "krealloc K (heap s) (work_ptr s) (length (pending s @ data)) = Some (ZERO_SIZE_PTR, heap s)"
    then have sz: "size (dev_entry (dev s)) = 0" using cur by (simp add: unat_eq_0)
    then have e: "(dev_entry (dev s))\<lparr>buffptr := p\<rparr> = \<lparr>buffptr = p, size = 0\<rparr>" for p
      by (intro entry_eqI) simp_all
    have wp: "zero_or_null (work_ptr s)" using inv_work [OF inv] sz
      by (auto simp: work_ok_def)
    show thesis
    proof (cases "uncopied c = 0")
      case True
      with False * cur show thesis
        by (intro copied [of ZERO_SIZE_PTR])
          (simp_all add: unfolds new_ptr_def write_result_def store_def memchr_def load_def
            grown_def grown_heap_def grown_entry_def unlocked_entry_upd [OF inv_free [OF inv]] e sz)
    next
      case u: False
      with False * wp show thesis
        using kfree_null [OF K inv_heap [OF inv], of ZERO_SIZE_PTR]
        by (intro fault) (simp_all add: unfolds store_def dropped_def inv_free [OF inv])
    qed
  next
    fix q t
    assume *: "pending s @ data \<noteq> []" "length t = length data" "new_ptr s data q"
      "krealloc K (heap s) (work_ptr s) (length (pending s @ data)) =
         Some (q, (heap s)(work_ptr s := None, q \<mapsto> pending s @ t))"
    let ?h = "\<lambda>bs. (heap s)(work_ptr s := None, q \<mapsto> bs)"
    let ?bs = "\<lambda>k. take k data @ drop k t"
    have q: "q \<noteq> 0" "\<not> zero_or_null q" using * by (auto simp: new_ptr_def)
    have st: "store (?h (pending s @ t)) q (length (pending s)) (take k data) =
        Some (?h (pending s @ ?bs k))" if "k \<le> length data" for k
      using that *(2) by (cases "take k data = []") (auto simp: store_def)
    show thesis
    proof (cases "uncopied c = 0")
      case True
      have "memchr (?h (pending s @ data)) q newline (length (pending s @ data)) =
          Some (newline \<in> set data)"
        using newline_notin_pending [OF inv]
          memchr_block [of "?h (pending s @ data)" q "pending s @ data" newline] by simp
      moreover have "grown_heap s data q = ?h (pending s @ data)"
        using *(1) by (simp only: grown_heap_def if_False)
      moreover have "store (?h (pending s @ t)) q (length (pending s)) data = Some (?h (pending s @ data))"
        using st [of "length data"] *(2) by simp
      ultimately show thesis using True False * q
        by (intro copied [of q]; cases "aesd_circular_buffer_add_entry (buffer (dev s)) (grown_entry s data q)")
          (simp_all add: unfolds write_result_def grown_def committed_def grown_entry_def entry_upd
            unlocked_entry_upd [OF inv_free [OF inv]] del: length_append)
    next
      case u: False
      let ?k = "length data - uncopied c"
      define h1 where "h1 = ?h (pending s @ t)"
      define h2 where "h2 = ?h (pending s @ ?bs ?k)"
      define h3 where "h3 = heap (dropped s)"
      have "heap_ok h2" unfolding h2_def
        using inv_heap [OF inv] q by (intro heap_ok_upd heap_ok_free)
      then have "kfree K h2 q = Some (h2(q := None))"
        by (rule kfree_block [OF K, where b = "pending s @ ?bs ?k"]) (simp add: h2_def)
      moreover have "h2(q := None) = h3"
        using * inv_heap [OF inv]
        by (auto simp: h2_def h3_def dropped_def new_ptr_def heap_ok_def fun_eq_iff)
      moreover have "store h1 q (length (pending s)) (take ?k data) = Some h2"
        unfolding h1_def h2_def by (rule st) simp
      moreover have "dropped s = s\<lparr>heap := h3, dev := (dev s)\<lparr>dev_entry := null_entry\<rparr>\<rparr>"
        by (simp add: h3_def dropped_def)
      ultimately show thesis
        using False u q *(4) [folded h1_def]
        by (intro fault) (simp_all add: unfolds unlocked_entry_upd [OF inv_free [OF inv]] del: length_append)
    qed
  qed
qed

section \<open>Each outcome keeps the invariant\<close>

lemma add_entry_slots:
  assumes "ring_wf b" "slots_ok b" "aesd_circular_buffer_add_entry b e = Some b'"
  shows "slots_ok b'"
proof (cases "full b")
  case True
  with assms show ?thesis
    by (auto simp: aesd_circular_buffer_add_entry_def Let_def slots_ok_def split: if_splits)
next
  case False
  define k where "k = unat (in_offs b)"
  have k: "k < 10" "out_offs b = 0" using assms(1) False by (auto simp: ring_wf_def k_def)
  have "\<forall>i<10. k \<le> i \<longrightarrow> entry b ! i = null_entry"
    using assms(2) False by (simp add: slots_ok_def k_def)
  with assms(1,3) False k show ?thesis
    by (auto simp: aesd_circular_buffer_add_entry_def Let_def slots_ok_def next_offs_0_iff
        nth_list_update simp flip: k_def split: if_splits)
qed

lemma heap_ok_grown: "dev_inv s \<Longrightarrow> new_ptr s data q \<Longrightarrow> heap_ok (grown_heap s data q)"
  using inv_heap [of s]
  by (auto simp: grown_heap_def new_ptr_def heap_ok_def split: if_splits)

lemma heap_ok_dropped: "dev_inv s \<Longrightarrow> heap_ok (heap (dropped s))"
  using inv_heap [of s] by (auto simp: dropped_def heap_ok_def)

lemma grown_heap_new:
  "dev_inv s \<Longrightarrow> new_ptr s data q \<Longrightarrow> block (grown_heap s data q) q = pending s @ data"
  using inv_heap [of s] by (auto simp: grown_heap_def new_ptr_def heap_ok_def block_def)

text \<open>The commands already in the buffer are not touched.\<close>

lemma grown_heap_ring:
  assumes inv: "dev_inv s" and q: "new_ptr s data q" and p: "p \<in> set (ring_ptrs s)"
  shows "p \<noteq> q" "grown_heap s data q p = heap s p"
proof -
  from ring_ptr_live [OF inv p] obtain b where "heap s p = Some b" "\<not> zero_or_null p" .
  moreover have "p \<noteq> work_ptr s" using inv_sep [OF inv] p by metis
  ultimately show "p \<noteq> q" "grown_heap s data q p = heap s p"
    using q by (auto simp: new_ptr_def grown_heap_def split: if_splits)
qed

lemma dropped_heap_ring:
  assumes "dev_inv s" "p \<in> set (ring_ptrs s)"
  shows "heap (dropped s) p = heap s p"
proof -
  have "p \<noteq> work_ptr s" using inv_sep [OF assms(1)] assms(2) by metis
  then show ?thesis by (simp add: dropped_def)
qed

text \<open>The blocks neither of the old commands nor of the new bytes are those lost before.\<close>

lemma dom_grown_lost:
  assumes inv: "dev_inv s" and q: "new_ptr s data q"
  shows "dom (grown_heap s data q) - (set (ring_ptrs s) \<union> (if pending s @ data = [] then {} else {q}))
    = lost s"
proof (cases "pending s @ data = []")
  case True
  then have "zero_or_null (work_ptr s)"
    using inv_work [OF inv] length_pending [OF inv] by (auto simp: work_ok_def)
  with True show ?thesis by (simp add: grown_heap_def lost_def owned_def)
next
  case False
  have "zero_or_null (work_ptr s) \<Longrightarrow> work_ptr s \<notin> dom (heap s)"
    using inv_heap [OF inv] by (auto simp: heap_ok_def)
  moreover have "q = work_ptr s \<or> q \<notin> dom (heap s)"
    using q False by (auto simp: new_ptr_def)
  moreover have "dom (grown_heap s data q) = insert q (dom (heap s) - {work_ptr s})"
    using False by (simp only: grown_heap_def if_False dom_fun_upd) simp
  ultimately show ?thesis using False by (auto simp: lost_def owned_def)
qed

lemma cmds_cong:
  assumes "\<forall>p\<in>set (map buffptr es). h' p = h p"
  shows "(\<forall>e\<in>set es. cmd_ok h' e) \<longleftrightarrow> (\<forall>e\<in>set es. cmd_ok h e)"
    "map (block h') (map buffptr es) = map (block h) (map buffptr es)"
  using assms by (auto simp: cmd_ok_def block_def)

lemma size_grown_entry:
  "length (pending s @ data) < 2 ^ 64 \<Longrightarrow>
     unat (size (grown_entry s data q)) = length (pending s @ data)"
  unfolding grown_entry_def using unat_size_of_nat [of "length (pending s @ data)"] by simp

lemma dropped_ok:
  assumes inv: "dev_inv s"
  shows "dev_inv (dropped s)" "commands (dropped s) = commands s" "pending (dropped s) = []"
    "lost (dropped s) = lost s"
proof -
  have same: "\<forall>p\<in>set (ring_ptrs s). heap (dropped s) p = heap s p"
    using dropped_heap_ring [OF inv] by blast
  have sel: "buffer (dev (dropped s)) = buffer (dev s)" "dev_entry (dev (dropped s)) = null_entry"
    "mutex (dev (dropped s)) = mutex (dev s)"
    by (simp_all add: dropped_def)
  have nz: "0 \<notin> set (ring_ptrs s)" using ring_ptr_live [OF inv, of 0] by auto
  show "dev_inv (dropped s)"
    using inv_cmds [OF inv] cmds_cong(1) [OF same] nz
    by (simp add: dev_inv_def sel heap_ok_dropped [OF inv] inv_wf [OF inv] inv_slots [OF inv]
        inv_distinct [OF inv] inv_free [OF inv] work_ok_def null_entry_def)
  show "commands (dropped s) = commands s"
    using cmds_cong(2) [OF same] by (simp add: commands_def sel)
  show "pending (dropped s) = []"
    using heap_ok_dropped [OF inv] by (simp add: pending_def sel null_entry_def block_def heap_ok_def)
  show "lost (dropped s) = lost s"
    using inv_sep [OF inv] by (auto simp: lost_def owned_def sel null_entry_def dropped_def)
qed

lemma grown_ok:
  assumes inv: "dev_inv s" and q: "new_ptr s data q" and nl: "newline \<notin> set data"
    and fits: "length (pending s @ data) < 2 ^ 64"
  shows "dev_inv (grown s data q)" "commands (grown s data q) = commands s"
    "pending (grown s data q) = pending s @ data" "lost (grown s data q) = lost s"
proof -
  have same: "\<forall>p\<in>set (ring_ptrs s). grown_heap s data q p = heap s p"
    using grown_heap_ring(2) [OF inv q] by blast
  have sel: "buffer (dev (grown s data q)) = buffer (dev s)"
    "dev_entry (dev (grown s data q)) = grown_entry s data q"
    "mutex (dev (grown s data q)) = mutex (dev s)" "heap (grown s data q) = grown_heap s data q"
    "buffptr (grown_entry s data q) = q"
    by (simp_all add: grown_def grown_entry_def)
  have work: "work_ok (grown_heap s data q) (grown_entry s data q)"
  proof (cases "pending s @ data = []")
    case True
    then show ?thesis using q by (simp add: work_ok_def new_ptr_def grown_entry_def)
  next
    case False
    then have "grown_heap s data q q = Some (pending s @ data)"
      by (simp only: grown_heap_def if_False fun_upd_same)
    then show ?thesis
      using False nl newline_notin_pending [OF inv] size_grown_entry [OF fits]
      by (simp add: work_ok_def sel)
  qed
  show "dev_inv (grown s data q)"
    using inv_cmds [OF inv] cmds_cong(1) [OF same] work grown_heap_ring(1) [OF inv q]
    by (auto simp: dev_inv_def sel heap_ok_grown [OF inv q] inv_wf [OF inv] inv_slots [OF inv]
        inv_distinct [OF inv] inv_free [OF inv])
  show "commands (grown s data q) = commands s"
    using cmds_cong(2) [OF same] by (simp add: commands_def sel)
  show "pending (grown s data q) = pending s @ data"
    by (simp add: pending_def [of "grown s data q"] sel grown_heap_new [OF inv q])
  show "lost (grown s data q) = lost s"
  proof -
    have "\<not> zero_or_null q \<longleftrightarrow> pending s @ data \<noteq> []"
      using q by (cases "pending s @ data = []") (simp_all add: new_ptr_def)
    then have "(if zero_or_null q then {} else {q}) = (if pending s @ data = [] then {} else {q})"
      by (cases "pending s @ data = []") (auto simp del: append_is_Nil_conv)
    then have "owned (grown s data q) =
        set (ring_ptrs s) \<union> (if pending s @ data = [] then {} else {q})"
      by (simp only: owned_def sel)
    then show ?thesis using dom_grown_lost [OF inv q] by (simp only: lost_def sel)
  qed
qed

lemma committed_ok:
  assumes inv: "dev_inv s" and q: "new_ptr s data q" and nl: "newline \<in> set data"
    and fits: "length (pending s @ data) < 2 ^ 64"
  obtains b where
    "aesd_circular_buffer_add_entry (buffer (dev s)) (grown_entry s data q) = Some b"
    "dev_inv (committed s data q b)"
    "commands (committed s data q b) = last_n 10 (commands s @ [pending s @ data])"
    "pending (committed s data q b) = []"
    "lost (committed s data q b) =
       lost s \<union> (if full (buffer (dev s)) then {hd (ring_ptrs s)} else {})"
proof -
  let ?e = "grown_entry s data q" and ?h = "grown_heap s data q"
  let ?V = "ring_view (buffer (dev s))"
  obtain b where b: "aesd_circular_buffer_add_entry (buffer (dev s)) ?e = Some b" "ring_wf b"
    "ring_view b = last_n 10 (?V @ [?e])"
    using add_entry_ok [OF inv_wf [OF inv], of ?e] by blast
  have ne: "pending s @ data \<noteq> []" using nl by auto
  then have hq: "?h q = Some (pending s @ data)"
    by (simp only: grown_heap_def if_False fun_upd_same)
  have nz: "\<not> zero_or_null q" using q ne by (auto simp: new_ptr_def split: if_splits)
  have eq: "buffptr ?e = q" by (simp add: grown_entry_def)
  have same: "\<forall>p\<in>set (ring_ptrs s). ?h p = heap s p"
    using grown_heap_ring(2) [OF inv q] by blast
  have ok: "\<forall>e\<in>set (?V @ [?e]). cmd_ok ?h e"
    using inv_cmds [OF inv] cmds_cong(1) [OF same] hq nl size_grown_entry [OF fits]
    by (simp add: cmd_ok_def eq)
  have dist: "distinct (map buffptr (?V @ [?e]))"
    using inv_distinct [OF inv] grown_heap_ring(1) [OF inv q] by (auto simp: eq)
  have sub: "set (ring_view b) \<subseteq> set (?V @ [?e])"
    unfolding b(3) last_n_def by (rule set_drop_subset)
  have sel: "buffer (dev (committed s data q b)) = b"
    "dev_entry (dev (committed s data q b)) = null_entry"
    "mutex (dev (committed s data q b)) = mutex (dev s)" "heap (committed s data q b) = ?h"
    by (simp_all add: committed_def)
  have ptrs: "map buffptr (ring_view b) = last_n 10 (ring_ptrs s @ [q])"
    by (simp add: b(3) map_last_n eq)
  have "0 \<notin> set (ring_ptrs s @ [q])" using ring_ptr_live [OF inv, of 0] nz by auto
  then have z: "0 \<notin> set (map buffptr (ring_view b))"
    unfolding ptrs last_n_def by (meson in_set_dropD)
  have dist': "distinct (map buffptr (ring_view b))"
    using dist unfolding b(3) last_n_def drop_map [symmetric] by (rule distinct_drop)
  have ok': "\<forall>e\<in>set (ring_view b). cmd_ok ?h e" using ok sub by blast
  have work': "work_ok ?h null_entry" "buffptr null_entry = 0" by (simp_all add: work_ok_def null_entry_def)
  have inv': "dev_inv (committed s data q b)"
    unfolding dev_inv_def sel work'(2)
    using heap_ok_grown [OF inv q] b(2) add_entry_slots [OF inv_wf [OF inv] inv_slots [OF inv] b(1)]
      ok' dist' inv_free [OF inv] z work'(1) by blast
  have cmds: "commands (committed s data q b) = last_n 10 (commands s @ [pending s @ data])"
    by (simp only: commands_def sel ptrs map_last_n map_append list.map cmds_cong(2) [OF same]
        grown_heap_new [OF inv q])
  have pend: "pending (committed s data q b) = []"
    using heap_ok_grown [OF inv q] by (simp add: pending_def sel null_entry_def block_def heap_ok_def)
  have own: "owned (committed s data q b) = set (last_n 10 (ring_ptrs s @ [q]))"
    by (simp add: owned_def sel null_entry_def ptrs [symmetric])
  have lost0: "dom ?h - (set (ring_ptrs s) \<union> {q}) = lost s"
    using dom_grown_lost [OF inv q] by (simp only: ne if_False)
  have "lost (committed s data q b) =
      lost s \<union> (if full (buffer (dev s)) then {hd (ring_ptrs s)} else {})"
  proof (cases "full (buffer (dev s))")
    case True
    then have len: "length (ring_ptrs s) = 10" by (simp add: entry_count_def)
    then obtain p ps where ps: "ring_ptrs s = p # ps" by (cases "ring_ptrs s") auto
    have "p \<notin> set ps" using inv_distinct [OF inv] ps by (metis distinct.simps(2))
    moreover have "p \<noteq> q" "?h p = heap s p" using grown_heap_ring [OF inv q, of p] ps by simp_all
    moreover have "heap s p \<noteq> None" using ring_ptr_live [OF inv, of p] ps by auto
    moreover have "set (last_n 10 (ring_ptrs s @ [q])) = insert q (set ps)"
      using last_n_snoc_full [OF len, of q] by (simp add: ps)
    ultimately show ?thesis using True lost0 by (auto simp: lost_def own sel ps)
  next
    case False
    then have "length (ring_ptrs s @ [q]) \<le> 10"
      using inv_wf [OF inv] by (simp add: ring_wf_def entry_count_def)
    then have "set (last_n 10 (ring_ptrs s @ [q])) = set (ring_ptrs s) \<union> {q}" by simp
    with False lost0 show ?thesis by (simp add: lost_def own sel)
  qed
  with b(1) inv' cmds pend show thesis by (rule that)
qed

end
