(* ===== verification/Driver_Spec.thy ===== *)
theory Driver_Spec
  imports Driver_Write
begin

text \<open>
  The specification of the character device, as a list of complete commands and the bytes of
  a command still being written, and the refinement: each file operation of the driver takes
  the device from one meaning to the one the specification gives.
\<close>

section \<open>The abstract device\<close>

type_synonym device = "char list list \<times> char list"

definition device_of :: "kstate \<Rightarrow> device" where
  "device_of s = (commands s, pending s)"

fun write_spec :: "device \<Rightarrow> char list \<Rightarrow> device" where
  "write_spec (cmds, pend) data =
     (if newline \<in> set data then (last_n 10 (cmds @ [pend @ data]), [])
      else (cmds, pend @ data))"

definition seekto_spec :: "char list list \<Rightarrow> nat \<Rightarrow> nat \<Rightarrow> nat option" where
  "seekto_spec cmds cmd off =
     (if cmd < length cmds \<and> off < length (cmds ! cmd)
      then Some (length (concat (take cmd cmds)) + off) else None)"

definition seek_spec :: "nat \<Rightarrow> int \<Rightarrow> int \<Rightarrow> int \<Rightarrow> int option" where
  "seek_spec len pos off whence =
     (let target = (if whence = 0 then Some off else if whence = 1 then Some (pos + off)
                    else if whence = 2 then Some (int len + off) else None)
      in case target of None \<Rightarrow> None | Some t \<Rightarrow> if 0 \<le> t \<and> t < 2 ^ 63 then Some t else None)"

text \<open>The complete commands of the specification form a bounded log.\<close>

interpretation device: bounded_log "([], [])" "\<lambda>d data. Some (write_spec d data)" fst
    "\<lambda>d. snd d = []" "\<lambda>data. newline \<in> set data" 10
proof unfold_locales
  fix d :: device and data :: "char list"
  assume "snd d = []" "newline \<in> set data"
  then show "\<exists>d'. Some (write_spec d data) = Some d' \<and> snd d' = [] \<and>
      fst d' = last_n 10 (fst d @ [data])"
    by (cases d) simp
qed simp_all

section \<open>write\<close>

lemma aesd_write_refines:
  assumes K: "kernel_api_ok K" and inv: "dev_inv s"
    and fits: "length (pending s @ data) < 2 ^ 64"
    and r: "aesd_write K c data s filp = Some (r, s', filp')"
  shows "dev_inv s'"
    "\<And>n. r = Inr n \<Longrightarrow> n = word_of_nat (length data) \<and>
        filp' = filp\<lparr>f_pos := f_pos filp + word_of_nat (length data)\<rparr> \<and>
        device_of s' = write_spec (device_of s) data \<and>
        lost s' = lost s \<union> (if newline \<in> set data \<and> full (buffer (dev s)) then {hd (ring_ptrs s)} else {})"
    "\<And>e. r = Inl e \<Longrightarrow> filp' = filp \<and> commands s' = commands s \<and> lost s' = lost s \<and>
        (e = ERESTARTSYS \<and> interrupted c \<and> s' = s \<or> e = ENOMEM \<and> s' = s \<or>
         e = EFAULT \<and> uncopied c \<noteq> 0 \<and> pending s' = [])"
proof -
  have "dev_inv s' \<and>
    (case r of
      Inr n \<Rightarrow> n = word_of_nat (length data) \<and>
        filp' = filp\<lparr>f_pos := f_pos filp + word_of_nat (length data)\<rparr> \<and>
        device_of s' = write_spec (device_of s) data \<and>
        lost s' = lost s \<union> (if newline \<in> set data \<and> full (buffer (dev s)) then {hd (ring_ptrs s)} else {})
    | Inl e \<Rightarrow> filp' = filp \<and> commands s' = commands s \<and> lost s' = lost s \<and>
        (e = ERESTARTSYS \<and> interrupted c \<and> s' = s \<or> e = ENOMEM \<and> s' = s \<or>
         e = EFAULT \<and> uncopied c \<noteq> 0 \<and> pending s' = []))"
    using K inv fits
  proof (cases rule: aesd_write_cases [where c = c and filp = filp])
    case interrupted
    with r inv show ?thesis by auto
  next
    case nomem
    with r inv show ?thesis by auto
  next
    case fault
    with r dropped_ok [OF inv] show ?thesis by auto
  next
    case (copied q)
    show ?thesis
    proof (cases "newline \<in> set data")
      case True
      obtain b where
        "aesd_circular_buffer_add_entry (buffer (dev s)) (grown_entry s data q) = Some b"
        "dev_inv (committed s data q b)"
        "commands (committed s data q b) = last_n 10 (commands s @ [pending s @ data])"
        "pending (committed s data q b) = []"
        "lost (committed s data q b) =
           lost s \<union> (if full (buffer (dev s)) then {hd (ring_ptrs s)} else {})"
        by (rule committed_ok [OF inv \<open>new_ptr s data q\<close> True fits])
      with copied r True show ?thesis by (auto simp: write_result_def device_of_def)
    next
      case False
      from grown_ok [OF inv \<open>new_ptr s data q\<close> False fits] copied r False show ?thesis
        by (auto simp: write_result_def device_of_def)
    qed
  qed
  then show "dev_inv s'"
    "\<And>n. r = Inr n \<Longrightarrow> n = word_of_nat (length data) \<and>
        filp' = filp\<lparr>f_pos := f_pos filp + word_of_nat (length data)\<rparr> \<and>
        device_of s' = write_spec (device_of s) data \<and>
        lost s' = lost s \<union> (if newline \<in> set data \<and> full (buffer (dev s)) then {hd (ring_ptrs s)} else {})"
    "\<And>e. r = Inl e \<Longrightarrow> filp' = filp \<and> commands s' = commands s \<and> lost s' = lost s \<and>
        (e = ERESTARTSYS \<and> interrupted c \<and> s' = s \<or> e = ENOMEM \<and> s' = s \<or>
         e = EFAULT \<and> uncopied c \<noteq> 0 \<and> pending s' = [])"
    by auto
qed

text \<open>A write never leaves the blocks the driver owns: it always returns.\<close>

lemma aesd_write_returns:
  assumes K: "kernel_api_ok K" and inv: "dev_inv s"
    and fits: "length (pending s @ data) < 2 ^ 64"
  shows "\<exists>r s' filp'. aesd_write K c data s filp = Some (r, s', filp')"
  using K inv fits
proof (cases rule: aesd_write_cases [where c = c and filp = filp])
  case (copied q)
  have "newline \<in> set data \<Longrightarrow>
      \<exists>b. aesd_circular_buffer_add_entry (buffer (dev s)) (grown_entry s data q) = Some b"
    using committed_ok [OF inv \<open>new_ptr s data q\<close> _ fits] by blast
  with copied show ?thesis by (auto simp: write_result_def)
qed auto

section \<open>seek and ioctl\<close>

lemma content_fits:
  assumes inv: "dev_inv s" and fits: "length (content s) < 2 ^ 63"
  shows "unat (aesd_circular_buffer_calculate_size (buffer (dev s))) = length (content s)"
  using calculate_size_unat [of "buffer (dev s)"] fits sum_ring_sizes [OF inv] by simp

lemma cmd_offset_loop_sum:
  "index \<le> unat w \<Longrightarrow> unat w \<le> entry_count b \<Longrightarrow>
     cmd_offset_loop b w index t = t + sum_list (map size (drop index (take (unat w) (ring_view b))))"
proof (induction b w index t rule: cmd_offset_loop.induct)
  case (1 b w i t)
  show ?case
  proof (cases "i < unat w")
    case True
    then have "drop i (take (unat w) (ring_view b)) =
        entry b ! entry_pos b i # drop (Suc i) (take (unat w) (ring_view b))"
      using "1.prems" by (subst Cons_nth_drop_Suc [symmetric]) (simp_all add: nth_ring_view)
    with True "1.IH" "1.prems" show ?thesis
      by (simp add: cmd_offset_loop.simps [of b w i] add.assoc)
  next
    case False
    with "1.prems" show ?thesis by (simp add: cmd_offset_loop.simps [of b w "unat w"])
  qed
qed

lemma unat_cmd_offset:
  assumes inv: "dev_inv s" and fits: "length (content s) < 2 ^ 63"
    and w: "unat w \<le> length (commands s)"
  shows "unat (cmd_offset_loop (buffer (dev s)) w 0 0) = length (concat (take (unat w) (commands s)))"
proof -
  let ?ns = "take (unat w) (ring_sizes (buffer (dev s)))"
  have "sum_list ?ns \<le> length (content s)"
    using sum_list_take_le [of "unat w" "ring_sizes (buffer (dev s))"] sum_ring_sizes [OF inv] by simp
  then have "unat (sum_list (map size (take (unat w) (ring_view (buffer (dev s)))))) = sum_list ?ns"
    using fits by (subst unat_sum_list) (simp_all add: take_map comp_def)
  with w show ?thesis
    by (simp add: cmd_offset_loop_sum ring_sizes_commands [OF inv] length_concat take_map)
qed

lemma aesd_adjust_file_offset_ok:
  assumes inv: "dev_inv s" and fits: "length (content s) < 2 ^ 63" and c: "\<not> interrupted c"
  shows "aesd_adjust_file_offset c wc off s filp =
     (case seekto_spec (commands s) (unat wc) (unat off) of
        None \<Rightarrow> (Inl EINVAL, s, filp)
      | Some p \<Rightarrow> (Inr (), s, filp\<lparr>f_pos := word_of_nat p\<rparr>))"
proof -
  let ?b = "buffer (dev s)"
  have same: "mutex_unlock s = s" by (simp add: inv_free [OF inv])
  show ?thesis
  proof (cases "unat wc < entry_count ?b")
    case False
    then show ?thesis
      using c same by (simp add: aesd_adjust_file_offset_def seekto_spec_def Let_def)
  next
    case True
    then have len: "length (commands s ! unat wc) = unat (size (entry ?b ! entry_pos ?b (unat wc)))"
      using ring_sizes_commands [OF inv] nth_ring_view [OF True]
      by (metis (no_types, lifting) length_commands length_ring_view nth_map)
    have pos: "cmd_offset_loop ?b wc 0 0 = word_of_nat (length (concat (take (unat wc) (commands s))))"
      using unat_cmd_offset [OF inv fits, of wc] True by (intro word_eq_of_unat) simp
    show ?thesis
      using c same True len pos
      by (auto simp: aesd_adjust_file_offset_def seekto_spec_def Let_def word_le_nat_alt)
  qed
qed

lemma aesd_ioctl_ok:
  assumes "dev_inv s" "length (content s) < 2 ^ 63" "\<not> interrupted c" "uncopied c = 0"
  shows "aesd_ioctl c cmd arg s filp =
     (if cmd \<noteq> AESDCHAR_IOCSEEKTO then (Inl ENOTTY, s, filp)
      else case seekto_spec (commands s) (unat (write_cmd arg)) (unat (write_cmd_offset arg)) of
        None \<Rightarrow> (Inl EINVAL, s, filp)
      | Some p \<Rightarrow> (Inr (), s, filp\<lparr>f_pos := word_of_nat p\<rparr>))"
  using aesd_adjust_file_offset_ok [OF assms(1-3)] assms(4) by (simp add: aesd_ioctl_def)

lemma aesd_seek_ok:
  assumes inv: "dev_inv s" and fits: "length (content s) < 2 ^ 63" and c: "\<not> interrupted c"
    and pos: "0 \<le> sint (f_pos filp)"
  shows "aesd_seek c off whence s filp =
     (case seek_spec (length (content s)) (sint (f_pos filp)) (sint off) whence of
        None \<Rightarrow> (Inl EINVAL, s, filp)
      | Some p \<Rightarrow> (Inr (word_of_int p), s, filp\<lparr>f_pos := word_of_int p\<rparr>))"
proof -
  let ?b = "buffer (dev s)"
  have same: "mutex_unlock s = s" by (simp add: inv_free [OF inv])
  have off: "- (2 ^ 63) \<le> sint off" "sint off < 2 ^ 63"
    using sint_ge [of off] sint_lt [of off] by simp_all
  have fp: "sint (f_pos filp) < 2 ^ 63" using sint_lt [of "f_pos filp"] by simp
  have set: "sint off < 0 \<longleftrightarrow> \<not> (0 \<le> sint off \<and> sint off < 2 ^ 63)" using off by linarith
  have size: "aesd_circular_buffer_calculate_size ?b = word_of_nat (length (content s))"
    by (rule word_eq_of_unat [OF content_fits [OF inv fits]])
  have len: "int (length (content s)) < 2 ^ 63"
    using fits by (metis of_nat_less_iff of_nat_numeral of_nat_power)
  have ov1: "sint (f_pos filp + off) < 0 \<longleftrightarrow>
      \<not> (0 \<le> sint (f_pos filp) + sint off \<and> sint (f_pos filp) + sint off < 2 ^ 63)"
    using sint_sum_neg_iff [OF pos fp off] by simp
  have ov2: "sint (word_of_nat (length (content s)) + off) < 0 \<longleftrightarrow>
      \<not> (0 \<le> int (length (content s)) + sint off \<and> int (length (content s)) + sint off < 2 ^ 63)"
    using sint_sum_neg_iff [OF of_nat_0_le_iff len off] by simp
  consider "whence = 0" | "whence = 1" | "whence = 2" | "whence \<notin> {0, 1, 2}" by blast
  then show ?thesis
    by cases (simp_all add: aesd_seek_def seek_spec_def Let_def c same set ov1 ov2 size)
qed

end
