(* ===== verification/Driver_Module.thy ===== *)
theory Driver_Module
  imports Driver_Spec
begin

text \<open>
  Loading and unloading the driver (\<^verbatim>\<open>aesd_init_module\<close>, \<^verbatim>\<open>aesd_cleanup_module\<close>), and
  the life of the device between the two: which kernel blocks are still allocated after the
  module is gone.
\<close>

section \<open>State and functions\<close>

text \<open>What the module has registered with the kernel, and the device.\<close>

record module_state =
  aesd_major :: nat
  region_registered :: bool
  cdev_added :: bool
  mutex_ready :: bool
  kst :: kstate

definition zero_dev :: aesd_dev where
  "zero_dev = \<lparr>buffer = aesd_circular_buffer_init, dev_entry = null_entry, mutex = False\<rparr>"

text \<open>\<open>err\<close> is what \<open>cdev_add\<close> returns.\<close>

definition aesd_setup_cdev :: "int \<Rightarrow> module_state \<Rightarrow> int \<times> module_state" where
  "aesd_setup_cdev err m = (err, m\<lparr>cdev_added := (err = 0)\<rparr>)"

text \<open>\<open>result\<close> and \<open>major\<close> are what \<open>alloc_chrdev_region\<close> returns.\<close>

definition aesd_init_module :: "int \<Rightarrow> nat \<Rightarrow> int \<Rightarrow> module_state \<Rightarrow> int \<times> module_state" where
  "aesd_init_module result major err m =
     (let m = m\<lparr>aesd_major := major\<rparr>
      in if result < 0 then (result, m)
         else
           let m = m\<lparr>region_registered := True, kst := (kst m)\<lparr>dev := zero_dev\<rparr>, mutex_ready := True\<rparr>;
               (result, m) = aesd_setup_cdev err m
           in if result \<noteq> 0
              then (result, m\<lparr>mutex_ready := False, region_registered := False\<rparr>)
              else (result, m))"

definition free_entry :: "kernel_api \<Rightarrow> kheap \<Rightarrow> aesd_buffer_entry \<Rightarrow> kheap option" where
  "free_entry K h e = kfree K h (buffptr e)"

definition cleanup_heap :: "kernel_api \<Rightarrow> kstate \<Rightarrow> kheap option" where
  "cleanup_heap K s =
     do {
       h \<leftarrow> kfree K (heap s) (buffptr (dev_entry (dev s)));
       AESD_CIRCULAR_BUFFER_FOREACH (free_entry K) (buffer (dev s)) h
     }"

definition aesd_cleanup_module :: "kernel_api \<Rightarrow> module_state \<Rightarrow> module_state option" where
  "aesd_cleanup_module K m =
     (let m = m\<lparr>cdev_added := False, mutex_ready := False\<rparr>
      in do {
        h \<leftarrow> cleanup_heap K (kst m);
        Some (m\<lparr>kst := (kst m)\<lparr>heap := h\<rparr>, region_registered := False\<rparr>)
      })"

section \<open>Loading\<close>

lemma slots_ok_init: "slots_ok aesd_circular_buffer_init"
  by (simp add: slots_ok_def aesd_circular_buffer_init_def nth_replicate del: replicate_Suc)

lemma dev_inv_loaded:
  assumes "heap_ok (heap s)"
  shows "dev_inv (s\<lparr>dev := zero_dev\<rparr>)" "device_of (s\<lparr>dev := zero_dev\<rparr>) = ([], [])"
    "lost (s\<lparr>dev := zero_dev\<rparr>) = dom (heap s)"
  using assms ring_wf_init ring_view_init slots_ok_init
  by (simp_all add: dev_inv_def zero_dev_def work_ok_def null_entry_def device_of_def
      commands_def pending_def block_def heap_ok_def lost_def owned_def)

lemma init_module_ok:
  assumes m: "\<not> region_registered m" "\<not> cdev_added m" "\<not> mutex_ready m" and h: "heap_ok (heap (kst m))"
  shows "case aesd_init_module result major err m of (r, m') \<Rightarrow>
     (r = 0 \<longrightarrow> region_registered m' \<and> cdev_added m' \<and> mutex_ready m' \<and>
        dev_inv (kst m') \<and> device_of (kst m') = ([], [])) \<and>
     (r \<noteq> 0 \<longrightarrow> \<not> region_registered m' \<and> \<not> cdev_added m' \<and> \<not> mutex_ready m')"
  using m dev_inv_loaded [OF h]
  by (auto simp: aesd_init_module_def aesd_setup_cdev_def Let_def)

section \<open>Unloading\<close>

definition real_ptr :: "nat \<Rightarrow> bool" where
  "real_ptr p \<longleftrightarrow> \<not> zero_or_null p"

lemma free_entries:
  assumes K: "kernel_api_ok K"
  shows "heap_ok h \<Longrightarrow> \<forall>e\<in>set es. real_ptr (buffptr e) \<longrightarrow> h (buffptr e) \<noteq> None \<Longrightarrow>
     distinct (filter real_ptr (map buffptr es)) \<Longrightarrow>
     run_adds (free_entry K) h es = Some (h |` (- set (map buffptr es)))"
proof (induction es arbitrary: h)
  case Nil
  then show ?case by simp
next
  case (Cons e es)
  let ?p = "buffptr e" and ?R = "- set (map buffptr es)"
  show ?case
  proof (cases "zero_or_null ?p")
    case True
    then have "h ?p = None" "\<not> real_ptr ?p"
      using Cons.prems(1) by (auto simp: heap_ok_def real_ptr_def)
    then have "h |` ?R = h |` (- set (map buffptr (e # es)))"
      by (auto simp: restrict_map_def fun_eq_iff)
    moreover have "run_adds (free_entry K) h es = Some (h |` ?R)"
      using Cons.prems \<open>\<not> real_ptr ?p\<close> by (intro Cons.IH) auto
    ultimately show ?thesis
      using kfree_null [OF K Cons.prems(1) True] by (simp add: free_entry_def [of K h e])
  next
    case False
    then have "real_ptr ?p" by (simp add: real_ptr_def)
    then obtain b where b: "h ?p = Some b" using Cons.prems(2) by auto
    have "?p \<notin> set (map buffptr es)" using Cons.prems(3) \<open>real_ptr ?p\<close> by auto
    then have "\<forall>e\<in>set es. buffptr e \<noteq> ?p" by (metis imageI list.set_map)
    then have "run_adds (free_entry K) (h(?p := None)) es = Some ((h(?p := None)) |` ?R)"
      using Cons.prems \<open>real_ptr ?p\<close>
      by (intro Cons.IH [OF heap_ok_free [OF Cons.prems(1)]]) simp_all
    moreover have "(h(?p := None)) |` ?R = h |` (- set (map buffptr (e # es)))"
      by (auto simp: restrict_map_def fun_eq_iff)
    ultimately show ?thesis
      using kfree_block [OF K Cons.prems(1) b] by (simp add: free_entry_def [of K h e])
  qed
qed

text \<open>
  The ten slots hold the entries of the view, rotated, or the view and zero entries after it.
\<close>

lemma ring_view_rotate: "ring_wf b \<Longrightarrow> full b \<Longrightarrow> ring_view b = rotate (unat (out_offs b)) (entry b)"
  by (intro nth_equalityI)
    (auto simp: ring_wf_def entry_count_def nth_ring_view nth_rotate entry_pos_def)

lemma slots_not_full:
  assumes "ring_wf b" "slots_ok b" "\<not> full b"
  shows "entry b = ring_view b @ replicate (10 - entry_count b) null_entry"
proof (rule nth_equalityI)
  show "length (entry b) = length (ring_view b @ replicate (10 - entry_count b) null_entry)"
    using assms by (simp add: ring_wf_def entry_count_def)
  fix i assume "i < length (entry b)"
  with assms show "entry b ! i = (ring_view b @ replicate (10 - entry_count b) null_entry) ! i"
    by (auto simp: ring_wf_def nth_append nth_ring_view entry_pos_def entry_count_def slots_ok_def)
qed

lemma slots_ptrs:
  assumes inv: "dev_inv s"
  shows "{p \<in> buffptr ` set (entry (buffer (dev s))). real_ptr p} = set (ring_ptrs s)"
    "distinct (filter real_ptr (map buffptr (entry (buffer (dev s)))))"
proof -
  let ?b = "buffer (dev s)"
  have live: "\<forall>p\<in>set (ring_ptrs s). real_ptr p"
    using ring_ptr_live [OF inv] unfolding real_ptr_def by blast
  have "{p \<in> buffptr ` set (entry ?b). real_ptr p} = set (ring_ptrs s) \<and>
    distinct (filter real_ptr (map buffptr (entry ?b)))"
  proof (cases "full ?b")
    case True
    note rot = ring_view_rotate [OF inv_wf [OF inv] True]
    have "distinct (map buffptr (entry ?b))"
      using inv_distinct [OF inv] by (simp add: rot flip: rotate_map)
    moreover have "set (ring_ptrs s) = buffptr ` set (entry ?b)" by (simp add: rot)
    ultimately show ?thesis using live by (auto intro: distinct_filter)
  next
    case False
    note eq = slots_not_full [OF inv_wf [OF inv] inv_slots [OF inv] False]
    have null: "filter real_ptr (replicate k (buffptr null_entry)) = []" for k
      by (simp add: null_entry_def real_ptr_def)
    have "filter real_ptr (map buffptr (entry ?b)) = ring_ptrs s"
      unfolding eq map_append filter_append map_replicate null
      using live by (simp only: append_Nil2 filter_True)
    then show ?thesis using inv_distinct [OF inv] by (metis list.set_map set_filter)
  qed
  then show "{p \<in> buffptr ` set (entry ?b). real_ptr p} = set (ring_ptrs s)"
    "distinct (filter real_ptr (map buffptr (entry ?b)))"
    by blast+
qed

text \<open>Unloading frees every block the driver still refers to, once each, and no other.\<close>

lemma cleanup_heap_ok:
  assumes K: "kernel_api_ok K" and inv: "dev_inv s"
  shows "cleanup_heap K s = Some (heap s |` lost s)"
proof -
  let ?es = "entry (buffer (dev s))" and ?w = "work_ptr s"
  define h where "h = (if zero_or_null ?w then heap s else (heap s)(?w := None))"
  have free: "kfree K (heap s) ?w = Some h"
    using kfree_null [OF K inv_heap [OF inv]] kfree_block [OF K inv_heap [OF inv]] work_ptr_valid [OF inv]
    by (auto simp: h_def valid_ptr_def)
  have hok: "heap_ok h" using inv_heap [OF inv] by (auto simp: h_def heap_ok_def)
  have eqp: "p \<in> buffptr ` set ?es \<and> real_ptr p \<longleftrightarrow> p \<in> set (ring_ptrs s)" for p
    using slots_ptrs(1) [OF inv] by blast
  have sep: "work_ptr s \<notin> set (ring_ptrs s)" by (rule inv_sep [OF inv])
  have live: "h p \<noteq> None" if p: "p \<in> set (ring_ptrs s)" for p
  proof -
    have "p \<noteq> ?w" using p sep by metis
    then show ?thesis using ring_ptr_live [OF inv p] by (auto simp: h_def)
  qed
  have "run_adds (free_entry K) h ?es = Some (h |` (- set (map buffptr ?es)))"
  proof (rule free_entries [OF K hok _ slots_ptrs(2) [OF inv]])
    show "\<forall>e\<in>set ?es. real_ptr (buffptr e) \<longrightarrow> h (buffptr e) \<noteq> None"
      using live eqp by blast
  qed
  moreover have "h |` (- set (map buffptr ?es)) = heap s |` lost s"
  proof
    fix p
    have all: "p \<in> set (map buffptr ?es) \<longleftrightarrow> p \<in> set (ring_ptrs s)" if "real_ptr p"
      using eqp [of p] that by simp
    show "(h |` (- set (map buffptr ?es))) p = (heap s |` lost s) p"
    proof (cases "real_ptr p")
      case True
      then have "p \<in> owned s \<longleftrightarrow> p \<in> set (ring_ptrs s) \<or> p = ?w"
        unfolding owned_def real_ptr_def by auto
      then show ?thesis
        using all [OF True] True by (auto simp: restrict_map_def h_def lost_def real_ptr_def simp del: set_map)
    next
      case False
      then have "h p = None" "heap s p = None"
        using hok inv_heap [OF inv] by (auto simp: heap_ok_def real_ptr_def)
      then show ?thesis by (simp add: restrict_map_def)
    qed
  qed
  moreover have "take 10 ?es = ?es" using inv_wf [OF inv] by (simp add: ring_wf_def)
  ultimately show ?thesis
    by (simp add: cleanup_heap_def AESD_CIRCULAR_BUFFER_FOREACH_def free)
qed

section \<open>The life of the device\<close>

text \<open>A sequence of calls of \<open>aesd_write\<close>, all of which succeed.\<close>

fun run_writes :: "kernel_api \<Rightarrow> char list list \<Rightarrow> kstate \<Rightarrow> file_struct \<Rightarrow>
    (kstate \<times> file_struct) option" where
  "run_writes K [] s filp = Some (s, filp)"
| "run_writes K (data # ds) s filp =
     (case aesd_write K \<lparr>interrupted = False, uncopied = 0\<rparr> data s filp of
        Some (Inr n, s', filp') \<Rightarrow> run_writes K ds s' filp'
      | _ \<Rightarrow> None)"

definition fits_write :: "char list \<Rightarrow> bool" where
  "fits_write data \<longleftrightarrow> length data < 2 ^ 64"

lemma run_writes_ConsD:
  assumes "run_writes K (data # ds) s filp = Some r"
  obtains n s1 filp1 where
    "aesd_write K \<lparr>interrupted = False, uncopied = 0\<rparr> data s filp = Some (Inr n, s1, filp1)"
    "run_writes K ds s1 filp1 = Some r"
  using assms by (auto split: option.splits sum.splits prod.splits)

text \<open>Complete commands go through the abstract device one by one.\<close>

lemma run_writes_refines:
  "kernel_api_ok K \<Longrightarrow> dev_inv s \<Longrightarrow> pending s = [] \<Longrightarrow>
   \<forall>d\<in>set ds. newline \<in> set d \<and> fits_write d \<Longrightarrow>
   run_writes K ds s filp = Some (s', filp') \<Longrightarrow>
   dev_inv s' \<and>
   run_adds (\<lambda>d data. Some (write_spec d data)) (device_of s) ds = Some (device_of s')"
proof (induction ds arbitrary: s filp)
  case Nil
  then show ?case by simp
next
  case (Cons d ds)
  from Cons.prems(5) obtain n s1 filp1 where
    w: "aesd_write K \<lparr>interrupted = False, uncopied = 0\<rparr> d s filp = Some (Inr n, s1, filp1)"
    and r: "run_writes K ds s1 filp1 = Some (s', filp')"
    by (rule run_writes_ConsD)
  have fits: "length (pending s @ d) < 2 ^ 64" using Cons.prems(3,4) by (simp add: fits_write_def)
  note ref = aesd_write_refines [OF Cons.prems(1,2) fits w]
  have dev: "device_of s1 = write_spec (device_of s) d" using ref(2) by blast
  then have "pending s1 = []" using Cons.prems(4) by (auto simp: device_of_def)
  with Cons.IH [OF Cons.prems(1) ref(1) _ _ r] Cons.prems(4) dev show ?case by simp
qed

text \<open>Every complete command adds one to the entries in use or to the lost blocks.\<close>

lemma run_writes_lost:
  "kernel_api_ok K \<Longrightarrow> dev_inv s \<Longrightarrow> pending s = [] \<Longrightarrow> finite (lost s) \<Longrightarrow>
   \<forall>d\<in>set ds. newline \<in> set d \<and> fits_write d \<Longrightarrow>
   run_writes K ds s filp = Some (s', filp') \<Longrightarrow>
   finite (lost s') \<and>
   card (lost s') + length (commands s') = card (lost s) + length (commands s) + length ds"
proof (induction ds arbitrary: s filp)
  case Nil
  then show ?case by simp
next
  case (Cons d ds)
  from Cons.prems(6) obtain n s1 filp1 where
    w: "aesd_write K \<lparr>interrupted = False, uncopied = 0\<rparr> d s filp = Some (Inr n, s1, filp1)"
    and r: "run_writes K ds s1 filp1 = Some (s', filp')"
    by (rule run_writes_ConsD)
  have fits: "length (pending s @ d) < 2 ^ 64" using Cons.prems(3,5) by (simp add: fits_write_def)
  note ref = aesd_write_refines [OF Cons.prems(1,2) fits w]
  have "device_of s1 = write_spec (device_of s) d" using ref(2) by blast
  then have p1: "pending s1 = []" and c1: "length (commands s1) = min (Suc (length (commands s))) 10"
    using Cons.prems(5) by (auto simp: device_of_def simp flip: length_commands)
  have lost1: "lost s1 = lost s \<union> (if full (buffer (dev s)) then {hd (ring_ptrs s)} else {})"
    using ref(2) Cons.prems(5) by auto
  have "card (lost s1) + length (commands s1) = Suc (card (lost s) + length (commands s))"
  proof (cases "full (buffer (dev s))")
    case True
    then have "hd (ring_ptrs s) \<in> set (ring_ptrs s)"
      by (intro hd_in_set) (auto simp: entry_count_def simp flip: length_0_conv)
    then have "hd (ring_ptrs s) \<notin> lost s" by (auto simp: lost_def owned_def simp del: set_map)
    with True lost1 Cons.prems(4) c1 show ?thesis by (simp add: entry_count_def)
  next
    case False
    with lost1 c1 inv_wf [OF Cons.prems(2)] show ?thesis by (simp add: entry_count_def ring_wf_def)
  qed
  moreover have "finite (lost s1)" using lost1 Cons.prems(4) by simp
  ultimately show ?case
    using Cons.IH [OF Cons.prems(1) ref(1) p1 _ _ r] Cons.prems(5) by simp
qed

end
