(* ===== verification/Driver_Calls.thy ===== *)
theory Driver_Calls
  imports Driver_Module
begin

text \<open>
  The driver as its users see it: the table \<open>aesd_fops\<close> of \<^verbatim>\<open>aesd-char-driver/main.c\<close> as one
  function on the device and the open files, and what any sequence of calls through it keeps.
\<close>

section \<open>The table of operations\<close>

text \<open>A call on an open file, named by a number, with what its lock and its copy meet.\<close>

datatype file_call =
    Open_call nat
  | Release_call nat
  | Read_call nat kcall size_t
  | Write_call nat kcall "char list"
  | Seek_call nat kcall loff_t int
  | Ioctl_call nat kcall uint32 aesd_seekto

type_synonym files = "nat \<Rightarrow> file_struct"

fun driver_call :: "kernel_api \<Rightarrow> kstate \<times> files \<Rightarrow> file_call \<Rightarrow> (kstate \<times> files) option" where
  "driver_call K (s, fs) (Open_call i) =
     (case aesd_open 0 0 \<lparr>f_pos = 0, private_data = 0\<rparr> of (r, f) \<Rightarrow> Some (s, fs(i := f)))"
| "driver_call K (s, fs) (Release_call i) =
     (case aesd_release (fs i) of (r, f) \<Rightarrow> Some (s, fs(i := f)))"
| "driver_call K (s, fs) (Read_call i c count) =
     map_option (\<lambda>(r, s, f). (s, fs(i := f))) (aesd_read c count s (fs i))"
| "driver_call K (s, fs) (Write_call i c data) =
     map_option (\<lambda>(r, s, f). (s, fs(i := f))) (aesd_write K c data s (fs i))"
| "driver_call K (s, fs) (Seek_call i c off whence) =
     (case aesd_seek c off whence s (fs i) of (r, s, f) \<Rightarrow> Some (s, fs(i := f)))"
| "driver_call K (s, fs) (Ioctl_call i c cmd arg) =
     (case aesd_ioctl c cmd arg s (fs i) of (r, s, f) \<Rightarrow> Some (s, fs(i := f)))"

section \<open>Calls that only look\<close>

lemma aesd_read_any:
  assumes inv: "dev_inv s"
  shows "\<exists>r filp'. aesd_read c count s filp = Some (r, s, filp') \<and>
     (r = Inl ERESTARTSYS \<longleftrightarrow> interrupted c) \<and>
     (r = Inl EFAULT \<longleftrightarrow> \<not> interrupted c \<and> uncopied c \<noteq> 0 \<and> unat (f_pos filp) < length (content s)) \<and>
     (\<forall>e. r = Inl e \<longrightarrow> filp' = filp)"
proof -
  have same: "mutex_unlock s = s" by (simp add: inv_free [OF inv])
  consider "interrupted c" | "\<not> interrupted c" "uncopied c = 0" | "\<not> interrupted c" "uncopied c \<noteq> 0" by blast
  then show ?thesis
  proof cases
    case 1
    then show ?thesis by (simp add: aesd_read_def)
  next
    case 2
    with aesd_read_ok [OF inv 2, of count filp] show ?thesis by simp
  next
    case 3
    show ?thesis
    proof (cases "aesd_circular_buffer_find_entry_offset_for_fpos (buffer (dev s)) (f_pos filp)")
      case None
      then have "length (content s) \<le> unat (f_pos filp)"
        using inv by (simp add: find_entry_None_iff sum_ring_sizes)
      with 3 None same show ?thesis by (simp add: aesd_read_def Let_def)
    next
      case (Some so)
      obtain slot off where so: "so = (slot, off)" by (cases so)
      have lt: "unat (f_pos filp) < length (content s)"
        using Some find_entry_None_iff [of "buffer (dev s)" "f_pos filp"] sum_ring_sizes [OF inv] by force
      have "aesd_read \<lparr>interrupted = False, uncopied = 0\<rparr> count s filp \<noteq> None"
        using aesd_read_ok [OF inv, of "\<lparr>interrupted = False, uncopied = 0\<rparr>" count filp] by simp
      then show ?thesis
        using 3 Some so same lt
        by (cases "count \<le> size (entry (buffer (dev s)) ! slot) - off")
          (auto simp: aesd_read_def Let_def split: bind_splits)
    qed
  qed
qed

lemma aesd_seek_keeps: "dev_inv s \<Longrightarrow> \<exists>r f. aesd_seek c off whence s filp = (r, s, f)"
  by (auto simp: aesd_seek_def Let_def mutex_lock_unlock inv_free split: option.split)

lemma aesd_ioctl_keeps: "dev_inv s \<Longrightarrow> \<exists>r f. aesd_ioctl c cmd arg s filp = (r, s, f)"
  by (auto simp: aesd_ioctl_def aesd_adjust_file_offset_def Let_def mutex_lock_unlock inv_free)

section \<open>Any sequence of calls\<close>

definition held_bytes :: "kstate \<Rightarrow> nat" where
  "held_bytes s = length (content s) + length (pending s)"

fun call_bytes :: "file_call \<Rightarrow> nat" where
  "call_bytes (Write_call i c data) = length data"
| "call_bytes _ = 0"

definition written_bytes :: "file_call list \<Rightarrow> nat" where
  "written_bytes cs = sum_list (map call_bytes cs)"

lemma commands_newline: "dev_inv s \<Longrightarrow> \<forall>c\<in>set (commands s). newline \<in> set c"
  by (fastforce simp: commands_def block_def cmd_ok_def dest!: inv_cmds)

lemma write_held:
  assumes K: "kernel_api_ok K" and inv: "dev_inv s" and fits: "held_bytes s + length data < 2 ^ 63"
  shows "\<exists>r s' f. aesd_write K c data s filp = Some (r, s', f) \<and> dev_inv s' \<and>
     held_bytes s' \<le> held_bytes s + length data"
proof -
  have fits': "length (pending s @ data) < 2 ^ 64" using fits by (simp add: held_bytes_def)
  obtain r s' f where r: "aesd_write K c data s filp = Some (r, s', f)"
    using aesd_write_returns [OF K inv fits'] by blast
  note ref = aesd_write_refines [OF K inv fits' r]
  have "held_bytes s' \<le> held_bytes s + length data"
  proof (cases r)
    case (Inl e)
    with ref(3) [OF Inl] show ?thesis by (auto simp: held_bytes_def content_def)
  next
    case (Inr n)
    then have d: "device_of s' = write_spec (commands s, pending s) data"
      using ref(2) by (simp add: device_of_def)
    show ?thesis
    proof (cases "newline \<in> set data")
      case True
      have "length (concat (last_n 10 (commands s @ [pending s @ data]))) \<le>
          length (concat (commands s @ [pending s @ data]))"
        by (rule length_concat_last_n)
      with d True show ?thesis by (simp add: device_of_def held_bytes_def content_def)
    next
      case False
      with d show ?thesis by (simp add: device_of_def held_bytes_def content_def)
    qed
  qed
  with r ref(1) show ?thesis by blast
qed

lemma driver_call_ok:
  assumes K: "kernel_api_ok K" and inv: "dev_inv s" and fits: "held_bytes s + call_bytes c < 2 ^ 63"
  shows "\<exists>s' fs'. driver_call K (s, fs) c = Some (s', fs') \<and> dev_inv s' \<and>
     held_bytes s' \<le> held_bytes s + call_bytes c"
proof (cases c)
  case (Write_call i k data)
  with write_held [OF K inv, of data k "fs i"] fits show ?thesis by auto
next
  case (Read_call i k count)
  with aesd_read_any [OF inv, of k count "fs i"] inv show ?thesis by auto
next
  case (Seek_call i k off whence)
  with aesd_seek_keeps [OF inv, of k off whence "fs i"] inv show ?thesis by auto
next
  case (Ioctl_call i k cmd arg)
  with aesd_ioctl_keeps [OF inv, of k cmd arg "fs i"] inv show ?thesis by auto
qed (use inv in \<open>auto split: prod.split\<close>)

lemma run_calls_ok:
  "kernel_api_ok K \<Longrightarrow> dev_inv s \<Longrightarrow> held_bytes s + written_bytes cs < 2 ^ 63 \<Longrightarrow>
     \<exists>s' fs'. run_adds (driver_call K) (s, fs) cs = Some (s', fs') \<and> dev_inv s' \<and>
       held_bytes s' \<le> held_bytes s + written_bytes cs"
proof (induction cs arbitrary: s fs)
  case Nil
  then show ?case by (simp add: written_bytes_def)
next
  case (Cons c cs)
  have w: "written_bytes (c # cs) = call_bytes c + written_bytes cs" by (simp add: written_bytes_def)
  from driver_call_ok [OF Cons.prems(1,2), of c fs] Cons.prems(3) w obtain s1 fs1 where
    1: "driver_call K (s, fs) c = Some (s1, fs1)" "dev_inv s1" "held_bytes s1 \<le> held_bytes s + call_bytes c"
    by auto
  have "held_bytes s1 + written_bytes cs < 2 ^ 63" using 1(3) Cons.prems(3) w by simp
  from Cons.IH [OF Cons.prems(1) 1(2) this, of fs1] 1 w show ?case by fastforce
qed

end
