(* ===== verification/Driver_Properties.thy ===== *)
theory Driver_Properties
  imports Driver_Calls
begin

text \<open>
  What the character driver promises the processes that use it, as theorems on its file
  operations and its module functions, each with a run on a concrete device.
\<close>

section \<open>A concrete device\<close>

text \<open>Two complete commands and a partial one, in blocks of the first-fit allocator.\<close>

definition sample :: kstate where
  "sample = \<lparr>heap = [17 \<mapsto> ''ab'' @ [newline], 18 \<mapsto> ''cde'' @ [newline], 19 \<mapsto> ''x''],
     dev = \<lparr>buffer = \<lparr>entry = \<lparr>buffptr = 17, size = 3\<rparr> # \<lparr>buffptr = 18, size = 4\<rparr> # replicate 8 null_entry,
              in_offs = 2, out_offs = 0, full = False\<rparr>,
            dev_entry = \<lparr>buffptr = 19, size = 1\<rparr>, mutex = False\<rparr>\<rparr>"

abbreviation quiet :: kcall where "quiet \<equiv> \<lparr>interrupted = False, uncopied = 0\<rparr>"

abbreviation at_pos :: "loff_t \<Rightarrow> file_struct" where "at_pos p \<equiv> \<lparr>f_pos = p, private_data = 0\<rparr>"

lemma sample_view:
  "ring_view (buffer (dev sample)) = [\<lparr>buffptr = 17, size = 3\<rparr>, \<lparr>buffptr = 18, size = 4\<rparr>]"
  unfolding sample_def by code_simp

lemma sample_slots: "slots_ok (buffer (dev sample))"
proof -
  have "entry (buffer (dev sample)) ! i = null_entry" if "2 \<le> i" "i < 10" for i
  proof -
    from that have "i = Suc (Suc (i - 2))" by simp
    then obtain j where "i = Suc (Suc j)" by blast
    with that show ?thesis by (simp add: sample_def nth_replicate del: replicate_Suc)
  qed
  then show ?thesis by (simp add: slots_ok_def sample_def)
qed

lemma sample_inv: "dev_inv sample"
proof -
  have "ring_wf (buffer (dev sample))" by (simp add: sample_def ring_wf_def)
  then show ?thesis
    using sample_slots
    by (simp add: dev_inv_def sample_view) (simp add: sample_def heap_ok_def cmd_ok_def work_ok_def)
qed

lemma sample_commands: "commands sample = [''ab'' @ [newline], ''cde'' @ [newline]]"
  by (simp add: commands_def sample_view) (simp add: sample_def block_def)

lemma sample_pending: "pending sample = ''x''"
  by (simp add: pending_def sample_def block_def)

section \<open>Writing\<close>

text \<open>
  C5: a write to a device in order leaves it in order whatever happens in the call, and its
  effect is that of the specification.  When it succeeds it reports all bytes as written and
  moves the position by them; bytes with a newline complete the pending command, which becomes the newest of at
  most ten, and bytes without one extend it.  When it fails the commands and the position
  are untouched: an interrupted lock and a failed allocation change nothing at all, and a
  fault while copying discards the pending bytes.
\<close>

theorem write_refines_spec:
  assumes "kernel_api_ok K" "dev_inv s" "length (pending s @ data) < 2 ^ 64"
    and "aesd_write K c data s filp = Some (r, s', filp')"
  shows "dev_inv s' \<and>
    (case r of
       Inr n \<Rightarrow> n = word_of_nat (length data) \<and>
         filp' = filp\<lparr>f_pos := f_pos filp + word_of_nat (length data)\<rparr> \<and>
         device_of s' = write_spec (device_of s) data
     | Inl e \<Rightarrow> filp' = filp \<and> commands s' = commands s \<and>
         (e = ERESTARTSYS \<and> interrupted c \<and> s' = s \<or> e = ENOMEM \<and> s' = s \<or>
          e = EFAULT \<and> uncopied c \<noteq> 0 \<and> pending s' = []))"
  using aesd_write_refines [OF assms] by (cases r) auto

lemma sample_write:
  "\<exists>n s' filp'. aesd_write first_fit quiet [newline] sample (at_pos 8) = Some (Inr n, s', filp')"
  by (simp add: aesd_write_def sample_def first_fit_def first_fit_krealloc_def Let_def
      store_def memchr_def load_def block_def aesd_circular_buffer_add_entry_def upt_rec)

theorem write_refines_spec_witness:
  "\<exists>s' filp'. aesd_write first_fit quiet [newline] sample (at_pos 8) = Some (Inr 1, s', filp') \<and>
     dev_inv s' \<and>
     commands s' = [''ab'' @ [newline], ''cde'' @ [newline], ''x'' @ [newline]] \<and> f_pos filp' = 9"
proof -
  obtain n s' filp' where w: "aesd_write first_fit quiet [newline] sample (at_pos 8) = Some (Inr n, s', filp')"
    using sample_write by blast
  then show ?thesis
    using write_refines_spec [OF first_fit_ok sample_inv _ w]
    by (simp add: device_of_def sample_commands sample_pending)
qed

text \<open>
  A write to a device in order always returns: no byte it stores or searches and no slot it fills
  lies outside a block or the array the driver owns.
\<close>

theorem write_stays_in_bounds:
  assumes "kernel_api_ok K" "dev_inv s" "length (pending s @ data) < 2 ^ 64"
  shows "aesd_write K c data s filp \<noteq> None"
  using aesd_write_returns [OF assms] by auto

theorem write_stays_in_bounds_witness:
  "aesd_write first_fit \<lparr>interrupted = False, uncopied = 2\<rparr> ''yz'' sample (at_pos 0) \<noteq> None"
  by (rule write_stays_in_bounds [OF first_fit_ok sample_inv]) (simp add: sample_pending)

text \<open>
  C37: how a client cuts a command into writes does not matter: bytes without a newline followed by more bytes
  leave the same device as both in one write.
\<close>

theorem write_chunking:
  assumes K: "kernel_api_ok K" and inv: "dev_inv s"
    and nl: "newline \<notin> set a" and fits: "length (pending s @ a @ b) < 2 ^ 64"
    and w1: "aesd_write K c1 a s f1 = Some (Inr n1, s1, g1)"
    and w2: "aesd_write K c2 b s1 f2 = Some (Inr n2, s2, g2)"
    and w: "aesd_write K c (a @ b) s f = Some (Inr n, s3, g)"
  shows "device_of s2 = device_of s3"
proof -
  note r1 = aesd_write_refines [OF K inv _ w1]
  have d1: "device_of s1 = (commands s, pending s @ a)" "dev_inv s1"
    using r1(1,2) fits nl by (auto simp: device_of_def)
  then have "device_of s2 = write_spec (commands s, pending s @ a) b"
    using aesd_write_refines(2) [OF K d1(2) _ w2] fits by (auto simp: device_of_def)
  also have "\<dots> = write_spec (device_of s) (a @ b)" using nl by (simp add: device_of_def)
  also have "\<dots> = device_of s3" using aesd_write_refines(2) [OF K inv _ w] fits by simp
  finally show ?thesis .
qed

definition loaded :: kstate where "loaded = \<lparr>heap = Map.empty, dev = zero_dev\<rparr>"

lemma loaded_ok: "dev_inv loaded" "device_of loaded = ([], [])" "lost loaded = {}"
  using dev_inv_loaded [of loaded] by (simp_all add: loaded_def heap_ok_def)

lemma loaded_pending: "pending loaded = []" "commands loaded = []"
  using loaded_ok(2) by (simp_all add: device_of_def)

theorem write_chunking_witness:
  "\<exists>n1 s1 g1 n2 s2 g2 n s3 g.
     aesd_write first_fit quiet ''ab'' loaded (at_pos 0) = Some (Inr n1, s1, g1) \<and>
     aesd_write first_fit quiet (''c'' @ [newline]) s1 g1 = Some (Inr n2, s2, g2) \<and>
     aesd_write first_fit quiet (''ab'' @ ''c'' @ [newline]) loaded (at_pos 0) = Some (Inr n, s3, g) \<and>
     device_of s2 = device_of s3"
proof -
  have "\<not> Option.is_none (run_writes first_fit [''ab'', ''c'' @ [newline]] loaded (at_pos 0))"
    by code_simp
  then obtain s2 g2 where "run_writes first_fit [''ab'', ''c'' @ [newline]] loaded (at_pos 0) = Some (s2, g2)"
    by (auto simp: Option.is_none_def)
  then obtain n1 s1 g1 n2 where
    w1: "aesd_write first_fit quiet ''ab'' loaded (at_pos 0) = Some (Inr n1, s1, g1)" and
    w2: "aesd_write first_fit quiet (''c'' @ [newline]) s1 g1 = Some (Inr n2, s2, g2)"
    by (elim run_writes_ConsD) auto
  have "\<not> Option.is_none (run_writes first_fit [''ab'' @ ''c'' @ [newline]] loaded (at_pos 0))"
    by code_simp
  then obtain s3 g where "run_writes first_fit [''ab'' @ ''c'' @ [newline]] loaded (at_pos 0) = Some (s3, g)"
    by (auto simp: Option.is_none_def)
  then obtain n where
    w: "aesd_write first_fit quiet (''ab'' @ ''c'' @ [newline]) loaded (at_pos 0) = Some (Inr n, s3, g)"
    by (elim run_writes_ConsD) auto
  have "device_of s2 = device_of s3"
    by (rule write_chunking [OF first_fit_ok loaded_ok(1) _ _ w1 w2 w]) (simp_all add: loaded_pending)
  with w1 w2 w show ?thesis by blast
qed

text \<open>
  C2: a device that was just loaded and has then been given any sequence of complete commands,
  each in one successful write, holds exactly the last ten of them, in the order they were
  written, and nothing else.
\<close>

theorem device_keeps_last_ten:
  assumes "kernel_api_ok K" "heap_ok h"
    and "\<forall>d\<in>set ds. newline \<in> set d \<and> fits_write d"
    and "run_writes K ds \<lparr>heap = h, dev = zero_dev\<rparr> filp = Some (s', filp')"
  shows "dev_inv s' \<and> commands s' = last_n 10 ds \<and> pending s' = []"
proof -
  let ?s = "\<lparr>heap = h, dev = zero_dev\<rparr>"
  have l: "dev_inv ?s" "device_of ?s = ([], [])"
    using dev_inv_loaded [of ?s] assms(2) by simp_all
  then have "pending ?s = []" by (simp add: device_of_def)
  from run_writes_refines [OF assms(1) l(1) this assms(3,4)] l(2)
  have "dev_inv s'" "run_adds (\<lambda>d data. Some (write_spec d data)) ([], []) ds = Some (device_of s')"
    by simp_all
  then show ?thesis
    using device.history_from_start [of ds] assms(3) by (auto simp: device_of_def)
qed

lemma eleven_writes:
  "\<exists>s filp. run_writes first_fit (replicate 11 [newline]) loaded (at_pos 0) = Some (s, filp)"
proof -
  have "\<not> Option.is_none (run_writes first_fit (replicate 11 [newline]) loaded (at_pos 0))"
    by code_simp
  then show ?thesis by (auto simp: Option.is_none_def)
qed

theorem device_keeps_last_ten_witness:
  "\<exists>s' filp'. run_writes first_fit (replicate 11 [newline]) loaded (at_pos 0) = Some (s', filp') \<and>
     commands s' = replicate 10 [newline]"
proof -
  obtain s' filp' where w: "run_writes first_fit (replicate 11 [newline]) loaded (at_pos 0) = Some (s', filp')"
    using eleven_writes by blast
  have "commands s' = last_n 10 (replicate 11 [newline])"
    using device_keeps_last_ten [OF first_fit_ok _ _ w [unfolded loaded_def]]
    by (simp add: heap_ok_def fits_write_def)
  with w show ?thesis by (auto simp: last_n_def)
qed

section \<open>Reading and moving the position\<close>

text \<open>
  C8: a read returns bytes of the device's contents from the position on, at most as many as
  asked for and never past the end of the command the position is in; it returns none exactly
  when none are asked for or the position is at the end; it moves the position by what it
  returned and leaves the device alone.
\<close>

theorem read_returns_content:
  fixes count :: size_t
  assumes "dev_inv s" "\<not> interrupted c" "uncopied c = 0"
  shows "\<exists>bs rest. aesd_read c count s filp =
       Some (Inr bs, s, filp\<lparr>f_pos := f_pos filp + word_of_nat (length bs)\<rparr>) \<and>
     drop (unat (f_pos filp)) (content s) = bs @ rest \<and> length bs \<le> unat count \<and>
     (bs = [] \<longleftrightarrow> count = 0 \<or> length (content s) \<le> unat (f_pos filp)) \<and>
     (bs \<noteq> [] \<longrightarrow> (\<exists>i off. locate (map length (commands s)) (unat (f_pos filp)) = Some (i, off) \<and>
        bs = take (unat count) (drop off (commands s ! i))))"
proof -
  let ?bs = "read_spec (commands s) (unat (f_pos filp)) (unat count)"
  from read_spec_prefix obtain rest where "drop (unat (f_pos filp)) (concat (commands s)) = ?bs @ rest"
    by blast
  moreover have "?bs \<noteq> [] \<longrightarrow> (\<exists>i off. locate (map length (commands s)) (unat (f_pos filp)) = Some (i, off) \<and>
        ?bs = take (unat count) (drop off (commands s ! i)))"
    by (auto simp: read_spec_def split: option.splits)
  ultimately show ?thesis
    using aesd_read_ok [OF assms, of count filp] length_read_spec
      read_spec_Nil_iff [of "commands s" "unat (f_pos filp)" "unat count"]
    by (auto simp: content_def unat_eq_0)
qed

theorem read_returns_content_witness:
  "\<exists>bs. aesd_read quiet 10 sample (at_pos 1) = Some (Inr bs, sample, at_pos (1 + word_of_nat (length bs))) \<and>
     bs = ''b'' @ [newline]"
proof -
  obtain bs where "aesd_read quiet 10 sample (at_pos 1) =
      Some (Inr bs, sample, at_pos (1 + word_of_nat (length bs)))"
    "bs \<noteq> []" "bs \<noteq> [] \<longrightarrow> (\<exists>i off. locate (map length (commands sample)) 1 = Some (i, off) \<and>
        bs = take 10 (drop off (commands sample ! i)))"
    using read_returns_content [OF sample_inv, of quiet 10 "at_pos 1"]
    by (auto simp: content_def sample_commands)
  then show ?thesis by (auto simp: sample_commands)
qed

text \<open>
  C39: a read that fails changes neither the device nor the position, and releases the mutex if it took it:
  it fails with ERESTARTSYS exactly when the lock is interrupted, and with EFAULT exactly when the
  user's buffer cannot take the bytes there are.
\<close>

theorem read_errors:
  assumes inv: "dev_inv s"
  shows "\<exists>r filp'. aesd_read c count s filp = Some (r, s, filp') \<and>
     (r = Inl ERESTARTSYS \<longleftrightarrow> interrupted c) \<and>
     (r = Inl EFAULT \<longleftrightarrow> \<not> interrupted c \<and> uncopied c \<noteq> 0 \<and> unat (f_pos filp) < length (content s)) \<and>
     (\<forall>e. r = Inl e \<longrightarrow> filp' = filp)"
  by (rule aesd_read_any [OF inv])

theorem read_errors_witness:
  "\<exists>filp'. aesd_read \<lparr>interrupted = False, uncopied = 3\<rparr> 3 sample (at_pos 0) = Some (Inl EFAULT, sample, filp') \<and>
     filp' = at_pos 0"
  using read_errors [OF sample_inv, of "\<lparr>interrupted = False, uncopied = 3\<rparr>" 3 "at_pos 0"]
  by (auto simp: content_def sample_commands)

text \<open>
  C30: \<open>aesd_seek\<close> computes the position the three modes stand for over the integers
  (from the start, from the current position, from the end of the contents); it fails with
  EINVAL, keeping the position, exactly for an unknown mode, a negative position or one beyond
  the range of \<open>loff_t\<close>.
\<close>

theorem seek_exact:
  assumes "dev_inv s" "length (content s) < 2 ^ 63" "\<not> interrupted c" "0 \<le> sint (f_pos filp)"
  shows "aesd_seek c off whence s filp =
     (case seek_spec (length (content s)) (sint (f_pos filp)) (sint off) whence of
        None \<Rightarrow> (Inl EINVAL, s, filp)
      | Some p \<Rightarrow> (Inr (word_of_int p), s, filp\<lparr>f_pos := word_of_int p\<rparr>))"
  by (rule aesd_seek_ok [OF assms])

theorem seek_exact_witness:
  "aesd_seek quiet (- 2) 2 sample (at_pos 4) = (Inr 5, sample, at_pos 5) \<and>
   aesd_seek quiet (- 5) 1 sample (at_pos 4) = (Inl EINVAL, sample, at_pos 4)"
  using seek_exact [OF sample_inv, of quiet "at_pos 4" "- 2" 2]
    seek_exact [OF sample_inv, of quiet "at_pos 4" "- 5" 1]
  by (simp add: content_def sample_commands seek_spec_def)

text \<open>
  C23: the seek ioctl moves the position to byte \<open>write_cmd_offset\<close> of the \<open>write_cmd\<close>-th oldest
  command and fails with EINVAL, keeping the position, exactly when there is no such command or no such
  byte in it; any other command number gives ENOTTY; the device is untouched.
\<close>

theorem ioctl_exact:
  assumes "dev_inv s" "length (content s) < 2 ^ 63" "\<not> interrupted c" "uncopied c = 0"
  shows "aesd_ioctl c cmd arg s filp =
     (if cmd \<noteq> AESDCHAR_IOCSEEKTO then (Inl ENOTTY, s, filp)
      else case seekto_spec (commands s) (unat (write_cmd arg)) (unat (write_cmd_offset arg)) of
        None \<Rightarrow> (Inl EINVAL, s, filp)
      | Some p \<Rightarrow> (Inr (), s, filp\<lparr>f_pos := word_of_nat p\<rparr>))"
  by (rule aesd_ioctl_ok [OF assms])

theorem ioctl_exact_witness:
  "aesd_ioctl quiet AESDCHAR_IOCSEEKTO \<lparr>write_cmd = 1, write_cmd_offset = 2\<rparr> sample (at_pos 0) =
     (Inr (), sample, at_pos 5) \<and>
   aesd_ioctl quiet AESDCHAR_IOCSEEKTO \<lparr>write_cmd = 1, write_cmd_offset = 4\<rparr> sample (at_pos 0) =
     (Inl EINVAL, sample, at_pos 0)"
  using ioctl_exact [OF sample_inv, of quiet AESDCHAR_IOCSEEKTO
      "\<lparr>write_cmd = 1, write_cmd_offset = 2\<rparr>" "at_pos 0"]
    ioctl_exact [OF sample_inv, of quiet AESDCHAR_IOCSEEKTO
      "\<lparr>write_cmd = 1, write_cmd_offset = 4\<rparr>" "at_pos 0"]
  by (simp add: content_def sample_commands seekto_spec_def)

text \<open>
  C24: after a successful seek ioctl the next read returns bytes of the command asked for,
  from the offset asked for to the end of that command at most.
\<close>

theorem ioctl_then_read:
  assumes inv: "dev_inv s" and fits: "length (content s) < 2 ^ 63"
    and c: "\<not> interrupted c" "uncopied c = 0"
    and ok: "aesd_ioctl c AESDCHAR_IOCSEEKTO arg s filp = (Inr (), s', filp')"
  shows "\<exists>filp2. aesd_read c count s' filp' =
     Some (Inr (take (unat count)
       (drop (unat (write_cmd_offset arg)) (commands s ! unat (write_cmd arg)))), s, filp2)"
proof -
  let ?i = "unat (write_cmd arg)" and ?o = "unat (write_cmd_offset arg)"
  from ok aesd_ioctl_ok [OF inv fits c, of AESDCHAR_IOCSEEKTO arg filp]
  have valid: "?i < length (commands s)" "?o < length (commands s ! ?i)"
    and eq: "s' = s" "f_pos filp' = word_of_nat (length (concat (take ?i (commands s))) + ?o)"
    by (auto simp: seekto_spec_def split: if_splits)
  let ?n = "sum_list (take ?i (map length (commands s))) + ?o"
  have loc: "locate (map length (commands s)) ?n = Some (?i, ?o)"
    using locate_at [of ?i "map length (commands s)" ?o] valid by simp
  then have "?n < length (content s)"
    using locate_None_iff [of "map length (commands s)" ?n]
    by (auto simp: content_def length_concat)
  then have "unat (f_pos filp') = ?n"
    using eq(2) fits unat_size_of_nat [of ?n] by (simp add: length_concat take_map)
  with loc aesd_read_ok [OF inv c, of count filp'] eq(1) show ?thesis
    by (auto simp: read_spec_def)
qed

theorem ioctl_then_read_witness:
  "\<exists>s' filp' filp2. aesd_ioctl quiet AESDCHAR_IOCSEEKTO \<lparr>write_cmd = 1, write_cmd_offset = 2\<rparr> sample (at_pos 0)
       = (Inr (), s', filp') \<and>
     aesd_read quiet 100 s' filp' = Some (Inr (''e'' @ [newline]), sample, filp2)"
proof -
  have io: "aesd_ioctl quiet AESDCHAR_IOCSEEKTO \<lparr>write_cmd = 1, write_cmd_offset = 2\<rparr> sample (at_pos 0) =
      (Inr (), sample, at_pos 5)"
    by (subst aesd_ioctl_ok [OF sample_inv])
      (simp_all add: content_def sample_commands seekto_spec_def)
  with ioctl_then_read [OF sample_inv _ _ _ io, of 100] show ?thesis
    by (auto simp: content_def sample_commands)
qed

section \<open>Loading, unloading and the blocks that stay behind\<close>

text \<open>
  C38: loading is all or nothing: the init function either returns 0 with the device numbers
  registered, the device added, its mutex ready and an empty device in order, or returns an
  error and leaves none of them behind.
\<close>

theorem init_all_or_nothing:
  assumes "\<not> region_registered m" "\<not> cdev_added m" "\<not> mutex_ready m" "heap_ok (heap (kst m))"
  shows "case aesd_init_module result major err m of (r, m') \<Rightarrow>
     (r = 0 \<longrightarrow> region_registered m' \<and> cdev_added m' \<and> mutex_ready m' \<and>
        dev_inv (kst m') \<and> device_of (kst m') = ([], [])) \<and>
     (r \<noteq> 0 \<longrightarrow> \<not> region_registered m' \<and> \<not> cdev_added m' \<and> \<not> mutex_ready m')"
  by (rule init_module_ok [OF assms])

definition unloaded :: module_state where
  "unloaded = \<lparr>aesd_major = 0, region_registered = False, cdev_added = False, mutex_ready = False,
     kst = \<lparr>heap = Map.empty, dev = zero_dev\<rparr>\<rparr>"

theorem init_all_or_nothing_witness:
  "(\<exists>m'. aesd_init_module 0 240 0 unloaded = (0, m') \<and> region_registered m' \<and> dev_inv (kst m')) \<and>
   (\<exists>m'. aesd_init_module 0 240 (- 12) unloaded = (- 12, m') \<and> \<not> region_registered m')"
  using init_all_or_nothing [of unloaded 0 240 0] init_all_or_nothing [of unloaded 0 240 "- 12"]
  by (auto simp: unloaded_def heap_ok_def aesd_init_module_def aesd_setup_cdev_def Let_def)

text \<open>
  C20: unloading a device in order frees every block the device still owns, each exactly once,
  and touches no other block; the registrations are gone.  What remains allocated is exactly the blocks
  the device had lost.
\<close>

theorem cleanup_frees_owned:
  assumes "kernel_api_ok K" "dev_inv (kst m)"
  shows "\<exists>m'. aesd_cleanup_module K m = Some m' \<and> heap (kst m') = heap (kst m) |` (- owned (kst m)) \<and>
     \<not> region_registered m' \<and> \<not> cdev_added m' \<and> \<not> mutex_ready m'"
proof -
  have "heap (kst m) |` lost (kst m) = heap (kst m) |` (- owned (kst m))"
    by (auto simp: lost_def restrict_map_def fun_eq_iff)
  then show ?thesis
    using cleanup_heap_ok [OF assms] by (simp add: aesd_cleanup_module_def Let_def)
qed

theorem cleanup_frees_owned_witness:
  "\<exists>m'. aesd_cleanup_module first_fit (unloaded\<lparr>region_registered := True, kst := sample\<rparr>) = Some m' \<and>
     heap (kst m') = Map.empty \<and> \<not> region_registered m'"
proof -
  have "heap sample |` (- owned sample) = Map.empty"
    unfolding owned_def sample_view by (auto simp: sample_def restrict_map_def fun_eq_iff)
  then show ?thesis
    using cleanup_frees_owned [OF first_fit_ok, of "unloaded\<lparr>region_registered := True, kst := sample\<rparr>"]
      sample_inv by auto
qed

text \<open>
  C21: overwriting the oldest command leaks its block: after \<open>n\<close> complete commands and an
  unload, exactly \<open>n - 10\<close> blocks (none for \<open>n \<le> 10\<close>) allocated by the driver are still there.
\<close>

theorem overwritten_commands_leak:
  assumes K: "kernel_api_ok K" and ds: "\<forall>d\<in>set ds. newline \<in> set d \<and> fits_write d"
    and w: "run_writes K ds \<lparr>heap = Map.empty, dev = zero_dev\<rparr> filp = Some (s', filp')"
  shows "\<exists>m'. aesd_cleanup_module K (m\<lparr>kst := s'\<rparr>) = Some m' \<and>
     finite (dom (heap (kst m'))) \<and> card (dom (heap (kst m'))) = length ds - 10"
proof -
  note w = w [folded loaded_def]
  from run_writes_lost [OF K loaded_ok(1) loaded_pending(1) _ ds w]
  have lost: "finite (lost s')" "card (lost s') + length (commands s') = length ds"
    by (simp_all add: loaded_ok loaded_pending flip: length_0_conv length_commands)
  have inv: "dev_inv s'" "run_adds (\<lambda>d data. Some (write_spec d data)) ([], []) ds = Some (device_of s')"
    using run_writes_refines [OF K loaded_ok(1) loaded_pending(1) ds w] by (simp_all add: loaded_ok)
  then have "commands s' = last_n 10 ds"
    using device.history_from_start [of ds] ds by (auto simp: device_of_def)
  then have "length (commands s') = min (length ds) 10" by (metis length_last_n)
  with lost have "card (lost s') = length ds - 10" by simp
  moreover have "dom (heap s' |` lost s') = lost s'"
    by (auto simp: lost_def restrict_map_def split: if_splits)
  ultimately show ?thesis
    using cleanup_heap_ok [OF K inv(1)] lost(1)
    by (simp add: aesd_cleanup_module_def Let_def)
qed

theorem overwritten_commands_leak_witness:
  "\<exists>s' filp' m'. run_writes first_fit (replicate 11 [newline]) \<lparr>heap = Map.empty, dev = zero_dev\<rparr> (at_pos 0)
       = Some (s', filp') \<and>
     aesd_cleanup_module first_fit (unloaded\<lparr>kst := s'\<rparr>) = Some m' \<and> card (dom (heap (kst m'))) = 1"
proof -
  obtain s' filp' where w: "run_writes first_fit (replicate 11 [newline])
      \<lparr>heap = Map.empty, dev = zero_dev\<rparr> (at_pos 0) = Some (s', filp')"
    using eleven_writes unfolding loaded_def by blast
  from overwritten_commands_leak [OF first_fit_ok _ w, of unloaded]
  obtain m' where "aesd_cleanup_module first_fit (unloaded\<lparr>kst := s'\<rparr>) = Some m'"
    "card (dom (heap (kst m'))) = 1"
    by (auto simp: fits_write_def)
  with w show ?thesis by blast
qed

section \<open>Any use of the device\<close>

text \<open>
  C12: from loading on, whatever programs with any number of open files call, in whatever order and with
  whatever result of the locks, the copies and the allocator, no call is undefined and the
  device stays well-formed: unlocked, at most ten commands, each with a newline and in a block of its
  own, the bytes after them without one, and never more bytes than were written.
\<close>

theorem device_stays_well_formed:
  assumes "kernel_api_ok K" "heap_ok h" "written_bytes cs < 2 ^ 63"
  shows "\<exists>s fs'. run_adds (driver_call K) (\<lparr>heap = h, dev = zero_dev\<rparr>, fs) cs = Some (s, fs') \<and> dev_inv s \<and>
     \<not> mutex (dev s) \<and> length (commands s) \<le> 10 \<and> (\<forall>c\<in>set (commands s). newline \<in> set c) \<and>
     newline \<notin> set (pending s) \<and> length (content s) + length (pending s) \<le> written_bytes cs"
proof -
  let ?s = "\<lparr>heap = h, dev = zero_dev\<rparr>"
  have l: "dev_inv ?s" "device_of ?s = ([], [])"
    using dev_inv_loaded [of ?s] assms(2) by simp_all
  then have d: "held_bytes ?s = 0" by (simp add: held_bytes_def content_def device_of_def)
  from run_calls_ok [OF assms(1) l(1), of cs fs] d assms(3) obtain s fs' where
    r: "run_adds (driver_call K) (?s, fs) cs = Some (s, fs')" "dev_inv s" "held_bytes s \<le> written_bytes cs"
    by auto
  with inv_free [OF r(2)] entry_count_le [OF inv_wf [OF r(2)]] commands_newline [OF r(2)]
    newline_notin_pending [OF r(2)] show ?thesis
    by (intro exI [of _ s] exI [of _ fs']) (simp add: held_bytes_def)
qed

theorem device_stays_well_formed_witness:
  "\<exists>s fs'. run_adds (driver_call first_fit) (\<lparr>heap = Map.empty, dev = zero_dev\<rparr>, \<lambda>_. at_pos 0)
      [Open_call 3, Write_call 3 quiet ''ab'', Write_call 4 \<lparr>interrupted = False, uncopied = 1\<rparr> ''c'',
       Write_call 4 quiet [newline], Ioctl_call 3 quiet AESDCHAR_IOCSEEKTO \<lparr>write_cmd = 0, write_cmd_offset = 0\<rparr>,
       Read_call 3 quiet 9, Seek_call 3 quiet 1 2, Release_call 3] = Some (s, fs') \<and>
     dev_inv s \<and> length (content s) + length (pending s) \<le> 4"
  using device_stays_well_formed [OF first_fit_ok, of Map.empty
      "[Open_call 3, Write_call 3 quiet ''ab'', Write_call 4 \<lparr>interrupted = False, uncopied = 1\<rparr> ''c'',
       Write_call 4 quiet [newline], Ioctl_call 3 quiet AESDCHAR_IOCSEEKTO \<lparr>write_cmd = 0, write_cmd_offset = 0\<rparr>,
       Read_call 3 quiet 9, Seek_call 3 quiet 1 2, Release_call 3]" "\<lambda>_. at_pos 0"]
  by (auto simp: heap_ok_def written_bytes_def)

end
