(* ===== verification/C_Strings.thy ===== *)
theory C_Strings
  imports Prelude
begin

text \<open>
  What the server uses of \<^verbatim>\<open>string.h\<close> and \<^verbatim>\<open>stdio.h\<close>: the string in a buffer, \<open>strchr\<close>,
  and the one \<open>sscanf\<close> of \<^verbatim>\<open>server/aesdsocket.c\<close>, written as scanners that take the
  input and return the value and the rest, as \<open>Some\<close>, or \<open>None\<close> on a matching
  failure.
\<close>

section \<open>Strings in buffers\<close>

text \<open>The string a buffer holds; \<open>None\<close> when no NUL ends it inside the buffer.\<close>

definition c_string :: "char list \<Rightarrow> char list option" where
  "c_string buf = (if NUL \<in> set buf then Some (takeWhile (\<lambda>c. c \<noteq> NUL) buf) else None)"

text \<open>\<open>strchr\<close> on a string: the index of the first occurrence.\<close>

fun strchr :: "char list \<Rightarrow> char \<Rightarrow> nat option" where
  "strchr [] c = None"
| "strchr (x # xs) c = (if x = c then Some 0 else map_option Suc (strchr xs c))"

lemma strchr_None_iff: "strchr s c = None \<longleftrightarrow> c \<notin> set s"
  by (induction s) auto

lemma strchr_append: "c \<notin> set xs \<Longrightarrow> strchr (xs @ c # ys) c = Some (length xs)"
  by (induction xs) auto

lemma strchr_Some_iff:
  "strchr s c = Some n \<longleftrightarrow> n < length s \<and> s ! n = c \<and> c \<notin> set (take n s)"
proof (induction s arbitrary: n)
  case Nil
  then show ?case by simp
next
  case (Cons x xs)
  then show ?case by (cases n) auto
qed

lemma strchr_take: "strchr s c = Some n \<Longrightarrow> take (Suc n) s = take n s @ [c]"
  by (simp add: strchr_Some_iff take_Suc_conv_app_nth)

lemma c_string_prefix:
  "NUL \<notin> set s \<Longrightarrow> c_string (s @ NUL # rest) = Some s"
  by (auto simp: c_string_def takeWhile_append)

section \<open>The scanners of sscanf\<close>

definition is_space :: "char \<Rightarrow> bool" where
  "is_space c \<longleftrightarrow> c \<in> {CHR '' '', CHR 0x09, CHR 0x0A, CHR 0x0B, CHR 0x0C, CHR 0x0D}"

definition digit_value :: "char \<Rightarrow> nat" where
  "digit_value c = of_char c - 48"

definition is_digit :: "char \<Rightarrow> bool" where
  "is_digit c \<longleftrightarrow> 48 \<le> (of_char c :: nat) \<and> (of_char c :: nat) \<le> 57"

text \<open>The directive \<^verbatim>\<open>%<width>[^<stop>]\<close>: at least one and at most \<open>width\<close> characters.\<close>

definition scan_not :: "nat \<Rightarrow> char \<Rightarrow> char list \<Rightarrow> (char list \<times> char list) option" where
  "scan_not width stop s =
     (let w = takeWhile (\<lambda>c. c \<noteq> stop) (take width s)
      in if w = [] then None else Some (w, drop (length w) s))"

text \<open>A character of the format that is neither a directive nor white space.\<close>

definition scan_char :: "char \<Rightarrow> char list \<Rightarrow> char list option" where
  "scan_char c s = (case s of [] \<Rightarrow> None | x # xs \<Rightarrow> if x = c then Some xs else None)"

definition decimal :: "char list \<Rightarrow> nat" where
  "decimal ds = foldl (\<lambda>n d. 10 * n + digit_value d) 0 ds"

text \<open>
  The value \<open>%u\<close> stores, as the C library for 64-bit Linux computes it: the digits are read
  as \<open>strtoul\<close> reads them (saturating at the largest \<open>unsigned long\<close>, negated for a
  minus sign) and the result is stored in 32 bits.
\<close>

definition strtoul_u32 :: "bool \<Rightarrow> nat \<Rightarrow> uint32" where
  "strtoul_u32 negative n =
     (if 2 ^ 64 \<le> n then word_of_nat (2 ^ 64 - 1)
      else if negative then - word_of_nat n else word_of_nat n)"

text \<open>The directive \<^verbatim>\<open>%u\<close>.\<close>

definition scan_u :: "char list \<Rightarrow> (uint32 \<times> char list) option" where
  "scan_u s =
     (let s = dropWhile is_space s;
          negative = (s \<noteq> [] \<and> hd s = CHR ''-'');
          s = (if s \<noteq> [] \<and> (hd s = CHR ''-'' \<or> hd s = CHR ''+'') then tl s else s);
          ds = takeWhile is_digit s
      in if ds = [] then None
         else Some (strtoul_u32 negative (decimal ds), drop (length ds) s))"

text \<open>
  \<^verbatim>\<open>sscanf(buf, "%21[^:]:%u,%u", ...) == 3\<close>: the three assigned values when all of the
  format matched.
\<close>

definition sscanf_seekto :: "char list \<Rightarrow> (char list \<times> uint32 \<times> uint32) option" where
  "sscanf_seekto s =
     do {
       (command, s) \<leftarrow> scan_not 21 (CHR '':'') s;
       s \<leftarrow> scan_char (CHR '':'') s;
       (wc, s) \<leftarrow> scan_u s;
       s \<leftarrow> scan_char (CHR '','') s;
       (off, s) \<leftarrow> scan_u s;
       Some (command, wc, off)
     }"

section \<open>Printing a number in decimal, and reading it back\<close>

text \<open>What a client prints for \<open>%u\<close>.\<close>

fun print_u :: "nat \<Rightarrow> char list" where
  "print_u n = (if n < 10 then [char_of (48 + n)] else print_u (n div 10) @ [char_of (48 + n mod 10)])"

declare print_u.simps [simp del]

lemma of_char_digit: "d < 10 \<Longrightarrow> (of_char (char_of (48 + d) :: char) :: nat) = 48 + d"
  by simp

lemma digit_char:
  assumes "d < 10"
  shows "is_digit (char_of (48 + d))" "digit_value (char_of (48 + d)) = d"
  using assms of_char_digit [OF assms] by (simp_all add: is_digit_def digit_value_def)

lemma decimal_snoc: "decimal (ds @ [d]) = 10 * decimal ds + digit_value d"
  by (simp add: decimal_def)

lemma print_u_digits: "\<forall>c\<in>set (print_u n). is_digit c"
proof (induction n rule: print_u.induct)
  case (1 n)
  then show ?case by (subst print_u.simps) (auto simp: digit_char)
qed

lemma print_u_nonempty: "print_u n \<noteq> []"
  by (subst print_u.simps) simp

lemma decimal_print_u: "decimal (print_u n) = n"
proof (induction n rule: print_u.induct)
  case (1 n)
  show ?case
  proof (cases "n < 10")
    case True
    then show ?thesis by (subst print_u.simps) (simp add: decimal_def digit_char)
  next
    case False
    with "1.IH" have "decimal (print_u (n div 10)) = n div 10" by simp
    with False show ?thesis by (subst print_u.simps) (simp add: decimal_snoc digit_char)
  qed
qed

lemma digit_facts:
  assumes "is_digit c"
  shows "\<not> is_space c" "c \<noteq> CHR ''-''" "c \<noteq> CHR ''+''"
  using assms by (auto simp: is_digit_def is_space_def)

lemma strtoul_u32_small: "n < 2 ^ 32 \<Longrightarrow> strtoul_u32 False n = word_of_nat n"
  by (simp add: strtoul_u32_def)

lemma scan_u_print_u:
  assumes "n < 2 ^ 32" and rest: "rest = [] \<or> \<not> is_digit (hd rest)"
  shows "scan_u (print_u n @ rest) = Some (word_of_nat n, rest)"
proof -
  obtain c cs where c: "print_u n = c # cs" using print_u_nonempty [of n] by (cases "print_u n") auto
  then have "is_digit c" using print_u_digits [of n] by simp
  note c_facts = digit_facts [OF this]
  have skip: "dropWhile is_space (print_u n @ rest) = print_u n @ rest" using c c_facts by simp
  have tw: "takeWhile is_digit (print_u n @ rest) = print_u n"
    using print_u_digits [of n] rest by (cases rest) (auto simp: takeWhile_append)
  show ?thesis
    unfolding scan_u_def Let_def skip
    using c c_facts tw assms(1) print_u_nonempty [of n] decimal_print_u [of n]
    by (simp add: strtoul_u32_small)
qed

lemma scan_not_stop:
  assumes "stop \<notin> set w" "w \<noteq> []" "length w \<le> width"
  shows "scan_not width stop (w @ stop # rest) = Some (w, stop # rest)"
proof -
  have "takeWhile (\<lambda>c. c \<noteq> stop) (take width (w @ stop # rest)) = w"
    using assms by (cases "width - length w") (auto simp: takeWhile_append)
  then show ?thesis using assms(2) by (simp add: scan_not_def Let_def)
qed

text \<open>The seek request of a client.\<close>

definition seekto_request :: "nat \<Rightarrow> nat \<Rightarrow> char list" where
  "seekto_request wc off =
     ''AESDCHAR_IOCSEEKTO'' @ CHR '':'' # print_u wc @ CHR '','' # print_u off @ [newline]"

lemma sscanf_seekto_request:
  assumes "wc < 2 ^ 32" "off < 2 ^ 32"
  shows "sscanf_seekto (seekto_request wc off @ extra) =
     Some (''AESDCHAR_IOCSEEKTO'', word_of_nat wc, word_of_nat off)"
proof -
  have 1: "scan_u (print_u wc @ CHR '','' # print_u off @ newline # extra) =
      Some (word_of_nat wc, CHR '','' # print_u off @ newline # extra)"
    using assms(1) by (intro scan_u_print_u) (simp_all add: is_digit_def)
  have 2: "scan_u (print_u off @ newline # extra) = Some (word_of_nat off, newline # extra)"
    using assms(2) by (intro scan_u_print_u) (simp_all add: is_digit_def)
  have eq: "seekto_request wc off @ extra =
      ''AESDCHAR_IOCSEEKTO'' @ CHR '':'' # print_u wc @ CHR '','' # print_u off @ newline # extra"
    by (simp add: seekto_request_def)
  have 0: "scan_not 21 (CHR '':'') (seekto_request wc off @ extra) =
      Some (''AESDCHAR_IOCSEEKTO'', CHR '':'' # print_u wc @ CHR '','' # print_u off @ newline # extra)"
    unfolding eq by (rule scan_not_stop) simp_all
  show ?thesis by (simp add: sscanf_seekto_def 0 1 2 scan_char_def)
qed

lemma seekto_request_chars:
  "NUL \<notin> set (seekto_request wc off)"
  "\<exists>s. seekto_request wc off = s @ [newline] \<and> newline \<notin> set s"
proof -
  have d: "\<And>n c. c \<in> set (print_u n) \<Longrightarrow> is_digit c" using print_u_digits by blast
  have "\<not> is_digit NUL" "\<not> is_digit newline" by (simp_all add: is_digit_def)
  then have n: "NUL \<notin> set (print_u n)" "newline \<notin> set (print_u n)" for n using d by blast+
  show "NUL \<notin> set (seekto_request wc off)" by (simp add: seekto_request_def n)
  show "\<exists>s. seekto_request wc off = s @ [newline] \<and> newline \<notin> set s"
    by (rule exI [of _ "''AESDCHAR_IOCSEEKTO'' @ CHR '':'' # print_u wc @ CHR '','' # print_u off"])
      (simp add: seekto_request_def n)
qed

lemma length_print_u: "n < 10 ^ Suc k \<Longrightarrow> length (print_u n) \<le> Suc k"
proof (induction k arbitrary: n)
  case 0
  then show ?case by (subst print_u.simps) simp
next
  case (Suc k)
  show ?case
  proof (cases "n < 10")
    case True
    then show ?thesis by (subst print_u.simps) simp
  next
    case False
    have "n div 10 < 10 ^ Suc k" using Suc.prems by (simp add: less_mult_imp_div_less mult.commute)
    with Suc.IH False show ?thesis by (subst print_u.simps) simp
  qed
qed

lemma seekto_request_short:
  assumes "wc < 2 ^ 32" "off < 2 ^ 32"
  shows "length (seekto_request wc off) \<le> 41"
proof -
  have "n < 10 ^ Suc 9" if "n < 2 ^ 32" for n :: nat using that by simp
  then have "length (print_u wc) \<le> 10" "length (print_u off) \<le> 10"
    using length_print_u [of wc 9] length_print_u [of off 9] assms by simp_all
  then show ?thesis by (simp add: seekto_request_def)
qed

text \<open>A packet is a seek request when \<open>sscanf\<close> assigns all three and the name matches.\<close>

definition is_seekto :: "char list \<Rightarrow> bool" where
  "is_seekto s \<longleftrightarrow> (\<exists>wc off. sscanf_seekto s = Some (''AESDCHAR_IOCSEEKTO'', wc, off))"

lemma is_seekto_prefix:
  assumes "is_seekto s"
  shows "take 19 s = ''AESDCHAR_IOCSEEKTO:''"
proof -
  define name where "name = ''AESDCHAR_IOCSEEKTO''"
  define w where "w = takeWhile (\<lambda>c. c \<noteq> CHR '':'') (take 21 s)"
  have len: "length name = 18" by (simp add: name_def)
  from assms obtain wc off where "sscanf_seekto s = Some (name, wc, off)"
    unfolding is_seekto_def name_def by blast
  then obtain r r2 where r: "scan_not 21 (CHR '':'') s = Some (name, r)"
    "scan_char (CHR '':'') r = Some r2"
    unfolding sscanf_seekto_def by (auto simp: bind_eq_Some_conv)
  then have w: "w = name" "r = drop 18 s"
    by (auto simp: scan_not_def Let_def len simp flip: w_def split: if_splits)
  have "take 18 (take 21 s) = name"
    using takeWhile_eq_take [of "\<lambda>c. c \<noteq> CHR '':''" "take 21 s"] w len by (metis w_def)
  then have "take 18 s = name" by (simp add: min_def)
  moreover have "drop 18 s = CHR '':'' # r2"
    using r(2) w(2) by (auto simp: scan_char_def split: list.splits if_splits)
  ultimately have "s = name @ CHR '':'' # r2" by (metis append_take_drop_id)
  then show ?thesis by (simp add: name_def)
qed

text \<open>A line that does not start like a seek request is none, whatever follows it.\<close>

lemma line_not_seekto:
  assumes "newline \<notin> set line" "NUL \<notin> set line" "take 19 line \<noteq> ''AESDCHAR_IOCSEEKTO:''"
  shows "\<not> is_seekto (takeWhile (\<lambda>c. c \<noteq> NUL) (line @ newline # extra))"
proof
  have s: "takeWhile (\<lambda>c. c \<noteq> NUL) (line @ newline # extra) =
      line @ newline # takeWhile (\<lambda>c. c \<noteq> NUL) extra"
    using assms(2) by (subst takeWhile_append2) auto
  assume "is_seekto (takeWhile (\<lambda>c. c \<noteq> NUL) (line @ newline # extra))"
  from is_seekto_prefix [OF this [unfolded s]]
  have t: "take 19 line @ take (19 - length line) (newline # takeWhile (\<lambda>c. c \<noteq> NUL) extra) =
      ''AESDCHAR_IOCSEEKTO:''" by simp
  show False
  proof (cases "19 \<le> length line")
    case True
    with t assms(3) show False by simp
  next
    case False
    then have "newline \<in> set (take (19 - length line) (newline # takeWhile (\<lambda>c. c \<noteq> NUL) extra))"
      by (simp add: take_Cons')
    then have "newline \<in> set ''AESDCHAR_IOCSEEKTO:''" by (metis Un_iff set_append t)
    then show False by simp
  qed
qed

end
