(* ===== verification/Client_Session.thy ===== *)
theory Client_Session
  imports C_Strings Char_Driver
begin

text \<open>
  One client of \<^verbatim>\<open>server/aesdsocket.c\<close>: receiving a packet and writing it to the device,
  sending the device's contents back, and the thread function around the two.

  The calls the code makes into the C library and the kernel are parameters (\<open>os\<close>),
  functions on the state \<open>'w\<close> of everything outside the thread; other threads, signals and
  the peer act inside these calls.  A call that fails with \<open>-1\<close> returns \<open>None\<close> (or
  a negative number where the code tests the sign).  What the thread itself must keep in order
  is explicit in \<open>thread_st\<close>: whether it holds each mutex, how many blocks of its own it
  has allocated, which descriptors it has open and the completion flag of its
  \<open>thread_data\<close>.  Undefined behaviour of C is an outcome of its own.  A loop takes fuel,
  one unit for each iteration; \<open>None\<close> is that the fuel ran out.
\<close>

section \<open>The calls and the state of the thread\<close>

record 'w os =
  os_active :: "'w \<Rightarrow> bool \<times> 'w"
  os_lock_file :: "'w \<Rightarrow> 'w"
  os_lock_list :: "'w \<Rightarrow> 'w"
  os_malloc :: "nat \<Rightarrow> 'w \<Rightarrow> char list option \<times> 'w"
  os_realloc :: "char list \<Rightarrow> nat \<Rightarrow> 'w \<Rightarrow> char list option \<times> 'w"
  os_recv :: "int \<Rightarrow> nat \<Rightarrow> 'w \<Rightarrow> char list option \<times> 'w"
  os_send :: "int \<Rightarrow> char list \<Rightarrow> 'w \<Rightarrow> nat option \<times> 'w"
  os_open :: "'w \<Rightarrow> int \<times> 'w"
  os_read :: "int \<Rightarrow> nat \<Rightarrow> 'w \<Rightarrow> char list option \<times> 'w"
  os_write :: "int \<Rightarrow> char list \<Rightarrow> 'w \<Rightarrow> nat option \<times> 'w"
  os_lseek :: "int \<Rightarrow> int \<Rightarrow> int \<Rightarrow> 'w \<Rightarrow> int \<times> 'w"
  os_ioctl :: "int \<Rightarrow> uint32 \<Rightarrow> aesd_seekto \<Rightarrow> 'w \<Rightarrow> int \<times> 'w"
  os_close :: "int \<Rightarrow> 'w \<Rightarrow> 'w"

record 'w thread_st =
  env :: 'w
  file_held :: bool
  list_held :: bool
  bufs :: nat
  open_fds :: "int list"
  thread_complete :: int

datatype ub = Out_of_bounds | Uninitialised | Int_overflow

datatype ('a, 'w) outcome = Undefined ub | Ret 'a "'w thread_st"

definition INT_MAX :: nat where "INT_MAX = 2147483647"

definition lock_file :: "'w os \<Rightarrow> 'w thread_st \<Rightarrow> 'w thread_st" where
  "lock_file os st = st\<lparr>env := os_lock_file os (env st), file_held := True\<rparr>"

definition unlock_file :: "'w thread_st \<Rightarrow> 'w thread_st" where
  "unlock_file st = st\<lparr>file_held := False\<rparr>"

definition free_buf :: "'w thread_st \<Rightarrow> 'w thread_st" where
  "free_buf st = st\<lparr>bufs := bufs st - 1\<rparr>"

definition close_fd :: "'w os \<Rightarrow> int \<Rightarrow> 'w thread_st \<Rightarrow> 'w thread_st" where
  "close_fd os fd st = st\<lparr>env := os_close os fd (env st), open_fds := remove1 fd (open_fds st)\<rparr>"

text \<open>A copy into a buffer; \<open>None\<close> when it would pass the end.\<close>

definition put :: "char list \<Rightarrow> nat \<Rightarrow> char list \<Rightarrow> char list option" where
  "put buf off bs =
     (if off + length bs \<le> length buf
      then Some (take off buf @ bs @ drop (off + length bs) buf) else None)"

text \<open>The \<open>n\<close> bytes from \<open>off\<close> on; \<open>None\<close> is a read outside the buffer.\<close>

definition get_bytes :: "char list \<Rightarrow> nat \<Rightarrow> nat \<Rightarrow> char list option" where
  "get_bytes buf off n = (if off + n \<le> length buf then Some (take n (drop off buf)) else None)"

section \<open>receive\_data\<close>

text \<open>
  The inner loop that writes the packet to the file; \<open>False\<close> is the error return, after
  the mutex is released and the buffer freed.  \<open>write\<close> reads as many bytes of the buffer as it is told.
\<close>

fun write_loop :: "nat \<Rightarrow> 'w os \<Rightarrow> int \<Rightarrow> char list \<Rightarrow> nat \<Rightarrow> nat \<Rightarrow> 'w thread_st \<Rightarrow>
    (bool, 'w) outcome option" where
  "write_loop 0 os file_fd buf bytes_written packet_length st = None"
| "write_loop (Suc k) os file_fd buf bytes_written packet_length st =
     (if bytes_written < packet_length
      then case get_bytes buf bytes_written (packet_length - bytes_written) of
             None \<Rightarrow> Some (Undefined Out_of_bounds)
           | Some bs \<Rightarrow>
               (case os_write os file_fd bs (env st) of
                  (None, w) \<Rightarrow> Some (Ret False (free_buf (unlock_file (st\<lparr>env := w\<rparr>))))
                | (Some result, w) \<Rightarrow>
                    write_loop k os file_fd buf (bytes_written + result) packet_length (st\<lparr>env := w\<rparr>))
      else Some (Ret True st))"

datatype packet_result = Packet_failed | Packet_written | Packet_seek

text \<open>What the code does with a buffer that holds a complete packet.\<close>

definition handle_packet :: "nat \<Rightarrow> 'w os \<Rightarrow> int \<Rightarrow> char list \<Rightarrow> char list \<Rightarrow> nat \<Rightarrow> 'w thread_st \<Rightarrow>
    (packet_result, 'w) outcome option" where
  "handle_packet fuel os file_fd buf s packet_length st =
     (let write = (\<lambda>st. case write_loop fuel os file_fd buf 0 packet_length (lock_file os st) of
            None \<Rightarrow> None
          | Some (Undefined u) \<Rightarrow> Some (Undefined u)
          | Some (Ret False st) \<Rightarrow> Some (Ret Packet_failed st)
          | Some (Ret True st) \<Rightarrow> Some (Ret Packet_written (unlock_file st)))
      in case sscanf_seekto s of
           None \<Rightarrow> write st
         | Some (command, cmd, off) \<Rightarrow>
             if command = ''AESDCHAR_IOCSEEKTO''
             then let st = lock_file os st;
                      (r, w) = os_ioctl os file_fd AESDCHAR_IOCSEEKTO
                                 \<lparr>write_cmd = cmd, write_cmd_offset = off\<rparr> (env st);
                      st = unlock_file (st\<lparr>env := w\<rparr>)
                  in if r < 0 then Some (Ret Packet_failed (free_buf st))
                     else Some (Ret Packet_seek st)
             else write st)"

text \<open>
  How the receive loop ends: with the error return of its body, or at the code after the loop
  with the last value of \<open>bytes_received\<close> (\<open>None\<close> when it was never assigned) and the
  seek flag.
\<close>

datatype loop_exit = Loop_failed | Loop_left "int option" bool

fun recv_loop :: "nat \<Rightarrow> 'w os \<Rightarrow> int \<Rightarrow> int \<Rightarrow> char list \<Rightarrow> nat \<Rightarrow> nat \<Rightarrow> int option \<Rightarrow> 'w thread_st \<Rightarrow>
    (loop_exit, 'w) outcome option" where
  "recv_loop 0 os client_fd file_fd buf buf_size packet_size bytes_received st = None"
| "recv_loop (Suc k) os client_fd file_fd buf buf_size packet_size bytes_received st =
     (let (active, w) = os_active os (env st); st = st\<lparr>env := w\<rparr>
      in if \<not> active then Some (Ret (Loop_left bytes_received False) st)
         else case os_recv os client_fd (buf_size - packet_size - 1) (env st) of
           (None, w) \<Rightarrow> Some (Ret (Loop_left (Some (- 1)) False) (st\<lparr>env := w\<rparr>))
         | (Some [], w) \<Rightarrow> Some (Ret (Loop_left (Some 0) False) (st\<lparr>env := w\<rparr>))
         | (Some bs, w) \<Rightarrow>
             let st = st\<lparr>env := w\<rparr> in
             (case put buf packet_size bs of
               None \<Rightarrow> Some (Undefined Out_of_bounds)
             | Some buf \<Rightarrow>
                 let packet_size = packet_size + length bs;
                     bytes_received = Some (int (length bs)) in
                 (case put buf packet_size [NUL] of
                   None \<Rightarrow> Some (Undefined Out_of_bounds)
                 | Some buf \<Rightarrow>
                     (case c_string buf of
                       None \<Rightarrow> Some (Undefined Out_of_bounds)
                     | Some s \<Rightarrow>
                         (case strchr s newline of
                           Some newline_pos \<Rightarrow>
                             (case handle_packet k os file_fd buf s (newline_pos + 1) st of
                               None \<Rightarrow> None
                             | Some (Undefined u) \<Rightarrow> Some (Undefined u)
                             | Some (Ret r st) \<Rightarrow>
                                 Some (Ret (case r of Packet_failed \<Rightarrow> Loop_failed
                                            | Packet_written \<Rightarrow> Loop_left bytes_received False
                                            | Packet_seek \<Rightarrow> Loop_left bytes_received True) st))
                         | None \<Rightarrow>
                             if packet_size \<ge> buf_size - 1
                             then if INT_MAX < buf_size * 2 then Some (Undefined Int_overflow)
                                  else (case os_realloc os buf (buf_size * 2) (env st) of
                                    (None, w) \<Rightarrow> Some (Ret Loop_failed (free_buf (st\<lparr>env := w\<rparr>)))
                                  | (Some temp, w) \<Rightarrow>
                                      recv_loop k os client_fd file_fd temp (buf_size * 2) packet_size
                                        bytes_received (st\<lparr>env := w\<rparr>))
                             else recv_loop k os client_fd file_fd buf buf_size packet_size
                                    bytes_received st)))))"

definition receive_data :: "nat \<Rightarrow> 'w os \<Rightarrow> int \<Rightarrow> int \<Rightarrow> 'w thread_st \<Rightarrow> (int, 'w) outcome option" where
  "receive_data fuel os client_fd file_fd st =
     (case os_malloc os 1024 (env st) of
        (None, w) \<Rightarrow> Some (Ret (- 1) (st\<lparr>env := w\<rparr>))
      | (Some buf, w) \<Rightarrow>
          (case recv_loop fuel os client_fd file_fd buf 1024 0 None
                  (st\<lparr>env := w, bufs := bufs st + 1\<rparr>) of
             None \<Rightarrow> None
           | Some (Undefined u) \<Rightarrow> Some (Undefined u)
           | Some (Ret Loop_failed st) \<Rightarrow> Some (Ret (- 1) st)
           | Some (Ret (Loop_left None ioctl_seekto_received) st) \<Rightarrow> Some (Undefined Uninitialised)
           | Some (Ret (Loop_left (Some bytes_received) ioctl_seekto_received) st) \<Rightarrow>
               if bytes_received = - 1 then Some (Ret (- 1) (free_buf st))
               else if \<not> ioctl_seekto_received
               then let (r, w) = os_lseek os file_fd 0 0 (env st); st = free_buf (st\<lparr>env := w\<rparr>)
                    in Some (Ret (if r = - 1 then - 1 else 0) st)
               else Some (Ret 0 (free_buf st))))"

section \<open>send\_data\<close>

text \<open>The inner loop; \<open>False\<close> is its error return, after free and unlock.\<close>

fun send_loop :: "nat \<Rightarrow> 'w os \<Rightarrow> int \<Rightarrow> char list \<Rightarrow> nat \<Rightarrow> 'w thread_st \<Rightarrow> (bool, 'w) outcome option" where
  "send_loop 0 os client_fd bs total_sent st = None"
| "send_loop (Suc k) os client_fd bs total_sent st =
     (if total_sent < length bs
      then case os_send os client_fd (drop total_sent bs) (env st) of
             (None, w) \<Rightarrow> Some (Ret False (unlock_file (free_buf (st\<lparr>env := w\<rparr>))))
           | (Some sent, w) \<Rightarrow> send_loop k os client_fd bs (total_sent + sent) (st\<lparr>env := w\<rparr>)
      else Some (Ret True st))"

text \<open>
  The outer loop: \<open>None\<close> inside \<open>Ret\<close> is the error return of the inner loop, otherwise
  whether the last \<open>read\<close> succeeded.
\<close>

fun read_loop :: "nat \<Rightarrow> 'w os \<Rightarrow> int \<Rightarrow> int \<Rightarrow> nat \<Rightarrow> 'w thread_st \<Rightarrow> (bool option, 'w) outcome option" where
  "read_loop 0 os client_fd file_fd buf_size st = None"
| "read_loop (Suc k) os client_fd file_fd buf_size st =
     (case os_read os file_fd buf_size (env st) of
        (None, w) \<Rightarrow> Some (Ret (Some False) (st\<lparr>env := w\<rparr>))
      | (Some [], w) \<Rightarrow> Some (Ret (Some True) (st\<lparr>env := w\<rparr>))
      | (Some bs, w) \<Rightarrow>
          (case send_loop k os client_fd bs 0 (st\<lparr>env := w\<rparr>) of
             None \<Rightarrow> None
           | Some (Undefined u) \<Rightarrow> Some (Undefined u)
           | Some (Ret False st) \<Rightarrow> Some (Ret None st)
           | Some (Ret True st) \<Rightarrow> read_loop k os client_fd file_fd buf_size st))"

definition send_data :: "nat \<Rightarrow> 'w os \<Rightarrow> int \<Rightarrow> int \<Rightarrow> 'w thread_st \<Rightarrow> (int, 'w) outcome option" where
  "send_data fuel os client_fd file_fd st =
     (case os_malloc os 1024 (env st) of
        (None, w) \<Rightarrow> Some (Ret (- 1) (st\<lparr>env := w\<rparr>))
      | (Some buf, w) \<Rightarrow>
          (case read_loop fuel os client_fd file_fd 1024
                  (lock_file os (st\<lparr>env := w, bufs := bufs st + 1\<rparr>)) of
             None \<Rightarrow> None
           | Some (Undefined u) \<Rightarrow> Some (Undefined u)
           | Some (Ret None st) \<Rightarrow> Some (Ret (- 1) st)
           | Some (Ret (Some ok) st) \<Rightarrow>
               Some (Ret (if ok then 0 else - 1) (free_buf (unlock_file st)))))"

section \<open>client\_handler\<close>

definition mark_complete :: "'w os \<Rightarrow> 'w thread_st \<Rightarrow> 'w thread_st" where
  "mark_complete os st =
     (let st = st\<lparr>env := os_lock_list os (env st), list_held := True\<rparr>;
          st = st\<lparr>thread_complete := 1\<rparr>
      in st\<lparr>list_held := False\<rparr>)"

definition client_handler :: "nat \<Rightarrow> 'w os \<Rightarrow> int \<Rightarrow> 'w thread_st \<Rightarrow> (unit, 'w) outcome option" where
  "client_handler fuel os client_fd st =
     (let (file_fd, w) = os_open os (env st); st = st\<lparr>env := w\<rparr>
      in if file_fd = - 1 then Some (Ret () (mark_complete os (close_fd os client_fd st)))
         else
           let finish = (\<lambda>st. Some (Ret () (mark_complete os (close_fd os client_fd (close_fd os file_fd st)))))
           in case receive_data fuel os client_fd file_fd (st\<lparr>open_fds := file_fd # open_fds st\<rparr>) of
                None \<Rightarrow> None
              | Some (Undefined u) \<Rightarrow> Some (Undefined u)
              | Some (Ret r st) \<Rightarrow>
                  if r = - 1 then finish st
                  else (case send_data fuel os client_fd file_fd st of
                          None \<Rightarrow> None
                        | Some (Undefined u) \<Rightarrow> Some (Undefined u)
                        | Some (Ret r st) \<Rightarrow> finish st))"

end
