(* ===== verification/Session_Safety.thy ===== *)
theory Session_Safety
  imports Client_Session
begin

text \<open>
  What holds of a client session whatever the calls it makes return: the thread's own state is
  restored on every return path, and with a C library and a kernel that respect the sizes they
  are given no access leaves the receive buffer.
\<close>

section \<open>Frames: mutexes, blocks and descriptors on every path\<close>

lemma thread_st_simps [srv_simps]:
  "file_held (lock_file os st) = True" "file_held (unlock_file st) = False"
  "file_held (free_buf st) = file_held st" "bufs (lock_file os st) = bufs st"
  "bufs (unlock_file st) = bufs st" "bufs (free_buf st) = bufs st - 1"
  by (simp_all add: lock_file_def unlock_file_def free_buf_def)

text \<open>The fields none of the calls of a session touches.\<close>

definition same_rest :: "'w thread_st \<Rightarrow> 'w thread_st \<Rightarrow> bool" where
  "same_rest st st' \<longleftrightarrow> list_held st' = list_held st \<and> open_fds st' = open_fds st \<and>
     thread_complete st' = thread_complete st"

lemma same_rest_refl [simp]: "same_rest st st"
  by (simp add: same_rest_def)

lemma same_rest_prims [simp]:
  "same_rest (st\<lparr>env := w\<rparr>) st' = same_rest st st'"
  "same_rest st (st'\<lparr>env := w\<rparr>) = same_rest st st'"
  "same_rest (lock_file os st) st' = same_rest st st'"
  "same_rest st (unlock_file st') = same_rest st st'"
  "same_rest st (free_buf st') = same_rest st st'"
  "same_rest (st\<lparr>bufs := n\<rparr>) st' = same_rest st st'"
  by (simp_all add: same_rest_def lock_file_def unlock_file_def free_buf_def)

text \<open>The rest of a packet that lies in the buffer can be read.\<close>

lemma get_rest:
  assumes "n \<le> pl" "pl \<le> length buf"
  shows "get_bytes buf n (pl - n) = Some (take (pl - n) (drop n buf))"
  using assms by (simp add: get_bytes_def)

lemma get_packet:
  assumes "take (length p) buf = p" "n \<le> length p"
  shows "get_bytes buf n (length p - n) = Some (drop n p)"
proof -
  have "length p \<le> length buf" using assms(1) by (metis length_take min.cobounded2 nle_le order_trans min_def)
  from get_rest [OF assms(2) this] assms(1) show ?thesis by (metis drop_take)
qed

lemma write_loop_frame:
  "write_loop fuel os fd buf bw pl st = Some r \<Longrightarrow>
     (r = Undefined Out_of_bounds \<and> length buf < pl) \<or>
     (\<exists>ok st'. r = Ret ok st' \<and> same_rest st st' \<and>
       (if ok then file_held st' = file_held st \<and> bufs st' = bufs st
        else \<not> file_held st' \<and> bufs st' = bufs st - 1))"
proof (induction fuel arbitrary: bw st)
  case 0
  then show ?case by simp
next
  case (Suc fuel)
  show ?case
  proof (cases "bw < pl")
    case False
    with Suc.prems have "r = Ret True st" by simp
    then show ?thesis by (intro disjI2 exI [of _ True] exI [of _ st]) simp
  next
    case True
    show ?thesis
    proof (cases "get_bytes buf bw (pl - bw)")
      case None
      with Suc.prems True show ?thesis by (auto simp: get_bytes_def split: if_splits)
    next
      case (Some bs)
      note bs = this
      obtain res w where w: "os_write os fd bs (env st) = (res, w)" by fastforce
      show ?thesis
      proof (cases res)
        case None
        with Suc.prems True bs w have "r = Ret False (free_buf (unlock_file (st\<lparr>env := w\<rparr>)))" by simp
        then show ?thesis by (intro disjI2 exI [of _ False]) (simp add: srv_simps)
      next
        case (Some n)
        with Suc.prems True bs w
        have "write_loop fuel os fd buf (bw + n) pl (st\<lparr>env := w\<rparr>) = Some r" by simp
        moreover have "file_held (st\<lparr>env := w\<rparr>) = file_held st" "bufs (st\<lparr>env := w\<rparr>) = bufs st" by simp_all
        ultimately show ?thesis using Suc.IH by (metis same_rest_prims(1))
      qed
    qed
  qed
qed

text \<open>The state a packet leaves behind: mutex free, the buffer freed only on failure.\<close>

definition packet_frame :: "packet_result \<Rightarrow> 'w thread_st \<Rightarrow> 'w thread_st \<Rightarrow> bool" where
  "packet_frame r st st' \<longleftrightarrow> same_rest st st' \<and> \<not> file_held st' \<and>
     bufs st' = (if r = Packet_failed then bufs st - 1 else bufs st)"

lemma handle_packet_frame:
  assumes "handle_packet fuel os fd buf s pl st = Some r"
  obtains (handled) p st' where "r = Ret p st'" "packet_frame p st st'"
  | (outside) "r = Undefined Out_of_bounds" "length buf < pl"
proof -
  define wr where "wr = (\<lambda>st. case write_loop fuel os fd buf 0 pl (lock_file os st) of
            None \<Rightarrow> None
          | Some (Undefined u) \<Rightarrow> Some (Undefined u)
          | Some (Ret False st) \<Rightarrow> Some (Ret Packet_failed st)
          | Some (Ret True st) \<Rightarrow> Some (Ret Packet_written (unlock_file st)))"
  let ?ok = "\<lambda>x. (\<exists>p st'. x = Ret p st' \<and> packet_frame p st st') \<or> (x = Undefined Out_of_bounds \<and> length buf < pl)"
  have wr: "?ok x" if "wr st = Some x" for x
  proof -
    from that obtain y where y: "write_loop fuel os fd buf 0 pl (lock_file os st) = Some y"
      by (auto simp: wr_def split: option.splits)
    from write_loop_frame [OF y] show ?thesis
    proof
      assume "y = Undefined Out_of_bounds \<and> length buf < pl"
      with y that show ?thesis by (simp add: wr_def)
    next
      assume "\<exists>ok st'. y = Ret ok st' \<and> same_rest (lock_file os st) st' \<and>
        (if ok then file_held st' = file_held (lock_file os st) \<and> bufs st' = bufs (lock_file os st)
         else \<not> file_held st' \<and> bufs st' = bufs (lock_file os st) - 1)"
      then obtain ok st' where ok: "y = Ret ok st'"
        "same_rest st st'" "if ok then bufs st' = bufs st else \<not> file_held st' \<and> bufs st' = bufs st - 1"
        by (auto simp: srv_simps split: if_splits)
      with y that show ?thesis
        by (cases ok) (auto simp: wr_def packet_frame_def srv_simps)
    qed
  qed
  have "?ok r"
  proof (cases "\<exists>cmd off. sscanf_seekto s = Some (''AESDCHAR_IOCSEEKTO'', cmd, off)")
    case True
    then obtain cmd off where c: "sscanf_seekto s = Some (''AESDCHAR_IOCSEEKTO'', cmd, off)" by blast
    obtain n w where "os_ioctl os fd AESDCHAR_IOCSEEKTO
        \<lparr>write_cmd = cmd, write_cmd_offset = off\<rparr> (env (lock_file os st)) = (n, w)" by fastforce
    with assms c show ?thesis
      by (auto simp: handle_packet_def Let_def packet_frame_def srv_simps same_rest_def
          lock_file_def unlock_file_def free_buf_def split: if_splits)
  next
    case False
    then have "wr st = Some r"
      using assms by (auto simp: handle_packet_def Let_def wr_def split: option.splits if_splits)
    then show ?thesis by (rule wr)
  qed
  then show thesis using that by blast
qed

definition loop_frame :: "loop_exit \<Rightarrow> 'w thread_st \<Rightarrow> 'w thread_st \<Rightarrow> bool" where
  "loop_frame x st st' \<longleftrightarrow> same_rest st st' \<and> \<not> file_held st' \<and>
     bufs st' = (if x = Loop_failed then bufs st - 1 else bufs st)"

text \<open>One iteration of the receive loop, with its exits spelled out.\<close>

lemma recv_loop_step:
  assumes r: "recv_loop (Suc k) os cfd ffd buf bsz psz br st = Some r"
    and free: "\<not> file_held st"
  obtains (left) w br' where "r = Ret (Loop_left br' False) (st\<lparr>env := w\<rparr>)"
      "br' = br \<or> br' = Some 0 \<or> br' = Some (- 1)" "br' = br \<Longrightarrow> \<not> fst (os_active os (env st)) \<or> br \<noteq> None"
  | (undef) u where "r = Undefined u" "u \<noteq> Uninitialised"
  | (packet) p x st' n where "r = Ret x st'" "packet_frame p st st'"
      "x = (case p of Packet_failed \<Rightarrow> Loop_failed | Packet_written \<Rightarrow> Loop_left (Some n) False
            | Packet_seek \<Rightarrow> Loop_left (Some n) True)"
  | (nomem) w where "r = Ret Loop_failed (free_buf (st\<lparr>env := w\<rparr>))"
  | (again) w buf' bsz' psz' n where
      "recv_loop k os cfd ffd buf' bsz' psz' (Some n) (st\<lparr>env := w\<rparr>) = Some r"
proof -
  obtain act w0 where act: "os_active os (env st) = (act, w0)" by fastforce
  obtain res w1 where res: "os_recv os cfd (bsz - psz - 1) w0 = (res, w1)" by fastforce
  show thesis
  proof (cases "act \<and> res \<noteq> None \<and> res \<noteq> Some []")
    case False
    then show thesis
    proof (cases act)
      case False
      with r act show thesis by (intro left [of br w0]) (auto simp: Let_def)
    next
      case True
      with False r act res show thesis
        by (cases res) (auto simp: Let_def intro: left [of "Some (- 1)" w1] left [of "Some 0" w1])
    qed
  next
    case True
    then obtain b bs' where b: "res = Some (b # bs')" by (cases res) (auto simp: neq_Nil_conv)
    let ?bs = "b # bs'" and ?st = "st\<lparr>env := w1\<rparr>"
    let ?psz = "psz + length ?bs"
    show thesis
    proof (cases "put buf psz ?bs")
      case None
      with r act res b True show thesis by (intro undef [of Out_of_bounds]) (auto simp: Let_def)
    next
      case (Some buf1)
      note buf1 = this
      show thesis
      proof (cases "put buf1 ?psz [NUL]")
        case None
        with r act res b True buf1 show thesis by (intro undef [of Out_of_bounds]) (auto simp: Let_def)
      next
        case (Some buf2)
        note buf2 = this
        show thesis
        proof (cases "c_string buf2")
          case None
          with r act res b True buf1 buf2 show thesis
            by (intro undef [of Out_of_bounds]) (auto simp: Let_def)
        next
          case (Some s)
          show thesis
          proof (cases "strchr s newline")
            case None
            with r act res b True buf1 buf2 Some show thesis
              by (auto simp: Let_def split: if_splits prod.splits option.splits
                  intro: undef [of Int_overflow] nomem again)
          next
            case nl: (Some pos)
            obtain y where y: "handle_packet k os ffd buf2 s (pos + 1) ?st = Some y"
              using r act res b True buf1 buf2 Some nl by (auto simp: Let_def split: option.splits)
            show thesis
            proof (cases rule: handle_packet_frame [OF y])
              case (1 p st')
              moreover have "packet_frame p st st'" using 1(2) by (simp add: packet_frame_def)
              ultimately show thesis
                using r act res b True buf1 buf2 Some nl y
                by (intro packet [of _ st' p "int (length ?bs)"])
                  (auto simp: Let_def split: packet_result.split)
            next
              case 2
              with r act res b True buf1 buf2 Some nl y show thesis
                by (intro undef [of Out_of_bounds]) (auto simp: Let_def)
            qed
          qed
        qed
      qed
    qed
  qed
qed

lemma packet_frame_loop:
  "packet_frame p st st' \<Longrightarrow>
   x = (case p of Packet_failed \<Rightarrow> Loop_failed | Packet_written \<Rightarrow> Loop_left n False
        | Packet_seek \<Rightarrow> Loop_left n True) \<Longrightarrow> loop_frame x st st'"
  by (cases p) (auto simp: packet_frame_def loop_frame_def)

lemma recv_loop_frame:
  "recv_loop fuel os cfd ffd buf bsz psz br st = Some (Ret x st') \<Longrightarrow> \<not> file_held st \<Longrightarrow>
     loop_frame x st st'"
proof (induction fuel arbitrary: buf bsz psz br st)
  case 0
  then show ?case by simp
next
  case (Suc k)
  from Suc.prems show ?case
  proof (cases rule: recv_loop_step)
    case (packet p y st2 n)
    with packet_frame_loop [OF packet(2,3)] show ?thesis by simp
  next
    case (again w buf' bsz' psz' n)
    from Suc.IH [OF again] Suc.prems(2) show ?thesis by (auto simp: loop_frame_def)
  qed (use Suc.prems(2) in \<open>auto simp: loop_frame_def srv_simps\<close>)
qed

text \<open>An uninitialised \<open>bytes_received\<close> leaves the loop only when it is never entered.\<close>

lemma recv_loop_uninitialised:
  "recv_loop fuel os cfd ffd buf bsz psz br st = Some (Ret (Loop_left None f) st') \<Longrightarrow>
   \<not> file_held st \<Longrightarrow> br = None \<and> \<not> fst (os_active os (env st)) \<and> f = False"
proof (induction fuel arbitrary: buf bsz psz br st)
  case 0
  then show ?case by simp
next
  case (Suc k)
  from Suc.prems show ?case
  proof (cases rule: recv_loop_step)
    case (packet p x st2 n)
    then show ?thesis by (cases p) auto
  next
    case (again w buf' bsz' psz' n)
    from Suc.IH [OF again] Suc.prems(2) show ?thesis by simp
  qed auto
qed

lemma recv_loop_undefined:
  "recv_loop fuel os cfd ffd buf bsz psz br st = Some (Undefined u) \<Longrightarrow>
   \<not> file_held st \<Longrightarrow> u \<noteq> Uninitialised"
proof (induction fuel arbitrary: buf bsz psz br st)
  case 0
  then show ?case by simp
next
  case (Suc k)
  from Suc.prems show ?case
  proof (cases rule: recv_loop_step)
    case (again w buf' bsz' psz' n)
    from Suc.IH [OF again] Suc.prems(2) show ?thesis by simp
  qed auto
qed

text \<open>
  \<open>receive_data\<close> on every path: what it allocated is freed, the file mutex is free again, and
  the only undefined reading of \<open>bytes_received\<close> is that of a loop never entered.
\<close>

lemma receive_data_frame:
  assumes r: "receive_data fuel os cfd ffd st = Some (Ret r st')" and free: "\<not> file_held st"
  shows "same_rest st st' \<and> \<not> file_held st' \<and> bufs st' = bufs st \<and> (r = 0 \<or> r = - 1)"
proof -
  obtain m w where m: "os_malloc os 1024 (env st) = (m, w)" by fastforce
  show ?thesis
  proof (cases m)
    case None
    with r m free show ?thesis by (auto simp: receive_data_def)
  next
    case (Some buf)
    define st0 where "st0 = st\<lparr>env := w, bufs := bufs st + 1\<rparr>"
    have s0: "same_rest st0 st2 = same_rest st st2" "\<not> file_held st0" "bufs st0 = bufs st + 1" for st2
      using free by (simp_all add: st0_def)
    from r m Some obtain y where y: "recv_loop fuel os cfd ffd buf 1024 0 None st0 = Some y"
      by (auto simp: receive_data_def st0_def split: option.splits)
    show ?thesis
    proof (cases y)
      case (Undefined u)
      with r m Some y show ?thesis by (simp add: receive_data_def st0_def)
    next
      case (Ret x st1)
      with y have "recv_loop fuel os cfd ffd buf 1024 0 None st0 = Some (Ret x st1)" by simp
      from recv_loop_frame [OF this s0(2)] have f: "loop_frame x st0 st1" .
      have eq: "receive_data fuel os cfd ffd st = (case x of
          Loop_failed \<Rightarrow> Some (Ret (- 1) st1)
        | Loop_left None g \<Rightarrow> Some (Undefined Uninitialised)
        | Loop_left (Some br) g \<Rightarrow>
            if br = - 1 then Some (Ret (- 1) (free_buf st1))
            else if \<not> g
            then let (r, w) = os_lseek os ffd 0 0 (env st1); st = free_buf (st1\<lparr>env := w\<rparr>)
                 in Some (Ret (if r = - 1 then - 1 else 0) st)
            else Some (Ret 0 (free_buf st1)))"
        using m Some y Ret by (simp add: receive_data_def st0_def split: loop_exit.split option.split)
      obtain n w2 where l: "os_lseek os ffd 0 0 (env st1) = (n, w2)" by fastforce
      show ?thesis
      proof (cases x)
        case Loop_failed
        with r [unfolded eq] f s0 show ?thesis by (simp add: loop_frame_def)
      next
        case (Loop_left br g)
        with f s0 have f': "same_rest st st1" "\<not> file_held st1" "bufs st1 = bufs st + 1"
          by (simp_all add: loop_frame_def)
        from Loop_left r [unfolded eq] obtain n where n: "br = Some n" by (cases br) simp_all
        consider "n = - 1" | "n \<noteq> - 1" "g" | "n \<noteq> - 1" "\<not> g" by blast
        then show ?thesis
          using r [unfolded eq Loop_left n] f' l by cases (auto simp: srv_simps)
      qed
    qed
  qed
qed

lemma receive_data_uninitialised:
  assumes r: "receive_data fuel os cfd ffd st = Some (Undefined Uninitialised)"
    and free: "\<not> file_held st"
  shows "\<exists>buf w. os_malloc os 1024 (env st) = (Some buf, w) \<and> \<not> fst (os_active os w)"
proof -
  obtain m w where m: "os_malloc os 1024 (env st) = (m, w)" by fastforce
  with r obtain buf where buf: "m = Some buf" by (cases m) (auto simp: receive_data_def)
  let ?st = "st\<lparr>env := w, bufs := bufs st + 1\<rparr>"
  from r m buf obtain y where y: "recv_loop fuel os cfd ffd buf 1024 0 None ?st = Some y"
    by (auto simp: receive_data_def split: option.splits)
  have free': "\<not> file_held ?st" using free by simp
  show ?thesis
  proof (cases y)
    case (Undefined u)
    with r m buf y recv_loop_undefined [OF _ free', of fuel os cfd ffd buf 1024 0 None u]
    show ?thesis by (auto simp: receive_data_def)
  next
    case (Ret x st1)
    with r m buf y obtain g where "x = Loop_left None g"
      by (auto simp: receive_data_def Let_def split: loop_exit.splits option.splits if_splits prod.splits)
    with recv_loop_uninitialised [OF _ free', of fuel os cfd ffd buf 1024 0 None g st1] y Ret m buf
    show ?thesis by auto
  qed
qed

section \<open>Sending\<close>

lemma send_loop_frame:
  "send_loop fuel os cfd bs n st = Some r \<Longrightarrow>
     \<exists>ok st'. r = Ret ok st' \<and> same_rest st st' \<and>
       (if ok then file_held st' = file_held st \<and> bufs st' = bufs st
        else \<not> file_held st' \<and> bufs st' = bufs st - 1)"
proof (induction fuel arbitrary: n st)
  case 0
  then show ?case by simp
next
  case (Suc fuel)
  obtain res w where w: "os_send os cfd (drop n bs) (env st) = (res, w)" by fastforce
  consider "\<not> n < length bs" | "n < length bs" "res = None" | k where "n < length bs" "res = Some k"
    by (cases res) auto
  then show ?case
  proof cases
    case 1
    with Suc.prems show ?thesis by (intro exI [of _ True] exI [of _ st]) simp
  next
    case 2
    with Suc.prems w show ?thesis
      by (intro exI [of _ False] exI [of _ "unlock_file (free_buf (st\<lparr>env := w\<rparr>))"])
        (simp add: srv_simps)
  next
    case 3
    with Suc.prems w have "send_loop fuel os cfd bs (n + k) (st\<lparr>env := w\<rparr>) = Some r" by simp
    from Suc.IH [OF this] obtain ok st' where "r = Ret ok st'" "same_rest st st'"
      "if ok then file_held st' = file_held st \<and> bufs st' = bufs st
       else \<not> file_held st' \<and> bufs st' = bufs st - 1" by auto
    then show ?thesis by blast
  qed
qed

lemma read_loop_frame:
  "read_loop fuel os cfd ffd sz st = Some r \<Longrightarrow> file_held st \<Longrightarrow>
     \<exists>x st'. r = Ret x st' \<and> same_rest st st' \<and>
       (if x = None then \<not> file_held st' \<and> bufs st' = bufs st - 1
        else file_held st' \<and> bufs st' = bufs st)"
proof (induction fuel arbitrary: st)
  case 0
  then show ?case by simp
next
  case (Suc k)
  obtain res w where w: "os_read os ffd sz (env st) = (res, w)" by fastforce
  have "res = None \<or> res = Some [] \<or> (\<exists>b bs. res = Some (b # bs))"
    by (cases res) (simp_all add: neq_Nil_conv [symmetric])
  then consider "res = None" | "res = Some []" | b bs where "res = Some (b # bs)" by blast
  then show ?case
  proof cases
    case 3
    let ?st = "st\<lparr>env := w\<rparr>"
    from Suc.prems w 3 obtain y where y: "send_loop k os cfd (b # bs) 0 ?st = Some y"
      by (auto split: option.splits)
    from send_loop_frame [OF y] obtain ok st1 where ok: "y = Ret ok st1" "same_rest st st1"
      "if ok then file_held st1 = file_held st \<and> bufs st1 = bufs st
       else \<not> file_held st1 \<and> bufs st1 = bufs st - 1" by auto
    show ?thesis
    proof (cases ok)
      case True
      with Suc.prems w 3 y ok have "read_loop k os cfd ffd sz st1 = Some r" by simp
      from Suc.IH [OF this] Suc.prems(2) ok True obtain x st2 where
        "r = Ret x st2" "same_rest st1 st2"
        "if x = None then \<not> file_held st2 \<and> bufs st2 = bufs st1 - 1
         else file_held st2 \<and> bufs st2 = bufs st1" by auto
      with ok True show ?thesis by (intro exI [of _ x] exI [of _ st2]) (simp add: same_rest_def)
    next
      case False
      with Suc.prems w 3 y ok show ?thesis by (intro exI [of _ None] exI [of _ st1]) simp
    qed
  next
    case 1
    with Suc.prems w show ?thesis
      by (intro exI [of _ "Some False"] exI [of _ "st\<lparr>env := w\<rparr>"]) simp
  next
    case 2
    with Suc.prems w show ?thesis
      by (intro exI [of _ "Some True"] exI [of _ "st\<lparr>env := w\<rparr>"]) simp
  qed
qed

lemma send_data_frame:
  assumes r: "send_data fuel os cfd ffd st = Some y" and free: "\<not> file_held st"
  shows "\<exists>r st'. y = Ret r st' \<and> same_rest st st' \<and> \<not> file_held st' \<and> bufs st' = bufs st \<and>
     (r = 0 \<or> r = - 1)"
proof -
  obtain m w where m: "os_malloc os 1024 (env st) = (m, w)" by fastforce
  show ?thesis
  proof (cases m)
    case None
    with r m free show ?thesis by (auto simp: send_data_def)
  next
    case (Some buf)
    let ?st = "lock_file os (st\<lparr>env := w, bufs := bufs st + 1\<rparr>)"
    from r m Some obtain z where z: "read_loop fuel os cfd ffd 1024 ?st = Some z"
      by (auto simp: send_data_def split: option.splits)
    have "file_held ?st" by (simp add: srv_simps)
    from read_loop_frame [OF z this] obtain x st' where x: "z = Ret x st'" "same_rest st st'"
      "if x = None then \<not> file_held st' \<and> bufs st' = bufs st
       else file_held st' \<and> bufs st' = bufs st + 1"
      by (auto simp: srv_simps split: if_splits)
    with r m Some z show ?thesis
      by (cases x) (auto simp: send_data_def srv_simps)
  qed
qed

section \<open>The thread function\<close>

definition session_clean :: "int \<Rightarrow> 'w thread_st \<Rightarrow> 'w thread_st \<Rightarrow> bool" where
  "session_clean cfd st st' \<longleftrightarrow> thread_complete st' = 1 \<and> \<not> file_held st' \<and> \<not> list_held st' \<and>
     bufs st' = bufs st \<and> open_fds st' = remove1 cfd (open_fds st)"

lemma mark_complete_sel:
  "thread_complete (mark_complete os st) = 1" "list_held (mark_complete os st) = False"
  "file_held (mark_complete os st) = file_held st" "bufs (mark_complete os st) = bufs st"
  "open_fds (mark_complete os st) = open_fds st"
  by (simp_all add: mark_complete_def Let_def)

lemma close_fd_sel:
  "file_held (close_fd os fd st) = file_held st" "bufs (close_fd os fd st) = bufs st"
  "open_fds (close_fd os fd st) = remove1 fd (open_fds st)"
  by (simp_all add: close_fd_def)

text \<open>Whatever the calls return, a session that ends has cleaned up after itself.\<close>

lemma client_handler_clean:
  assumes r: "client_handler fuel os cfd st = Some (Ret u st')" and free: "\<not> file_held st"
  shows "session_clean cfd st st'"
proof -
  obtain fd w where o: "os_open os (env st) = (fd, w)" by fastforce
  show ?thesis
  proof (cases "fd = - 1")
    case True
    with r o free show ?thesis
      by (auto simp: client_handler_def session_clean_def mark_complete_sel close_fd_sel)
  next
    case False
    let ?st = "st\<lparr>env := w, open_fds := fd # open_fds st\<rparr>"
    have free': "\<not> file_held ?st" using free by simp
    define finish where "finish = (\<lambda>st. Some (Ret () (mark_complete os (close_fd os cfd (close_fd os fd st)))))"
    have r': "(case receive_data fuel os cfd fd ?st of
                None \<Rightarrow> None
              | Some (Undefined u) \<Rightarrow> Some (Undefined u)
              | Some (Ret r st) \<Rightarrow>
                  if r = - 1 then finish st
                  else (case send_data fuel os cfd fd st of
                          None \<Rightarrow> None
                        | Some (Undefined u) \<Rightarrow> Some (Undefined u)
                        | Some (Ret r st) \<Rightarrow> finish st)) = Some (Ret u st')"
      using r o False unfolding client_handler_def Let_def finish_def by simp
    have fin: "session_clean cfd st st'"
      if "finish st2 = Some (Ret u st')" "same_rest ?st st2" "\<not> file_held st2" "bufs st2 = bufs st" for st2
      using that by (auto simp: finish_def session_clean_def mark_complete_sel close_fd_sel same_rest_def)
    obtain n st1 where 1: "receive_data fuel os cfd fd ?st = Some (Ret n st1)"
      using r' by (auto split: option.splits outcome.splits)
    from receive_data_frame [OF 1 free'] have f1: "same_rest ?st st1" "\<not> file_held st1" "bufs st1 = bufs st"
      by simp_all
    show ?thesis
    proof (cases "n = - 1")
      case True
      with r' 1 f1 fin show ?thesis by simp
    next
      case False
      with r' 1 obtain y where y: "send_data fuel os cfd fd st1 = Some y"
        by (auto split: option.splits)
      from send_data_frame [OF y f1(2)] obtain k st2 where 2: "y = Ret k st2" "same_rest st1 st2"
        "\<not> file_held st2" "bufs st2 = bufs st1" by blast
      from f1 2 have "same_rest ?st st2" by (simp add: same_rest_def)
      with r' 1 False y 2 f1 fin show ?thesis by simp
    qed
  qed
qed

end
