(* ===== verification/Session_Buffer.thy ===== *)
theory Session_Buffer
  imports Session_Safety
begin

text \<open>
  The receive buffer of a client session.  Under the promises the C library and the kernel make
  about sizes (\<open>os_sized\<close>) the receive loop never stores or reads outside its buffer, never asks
  \<open>recv\<close> for zero bytes, and can only go wrong where \<open>buf_size\<close> overflows an \<open>int\<close>.
\<close>

section \<open>What the calls promise about sizes\<close>

definition os_sized :: "'w os \<Rightarrow> bool" where
  "os_sized os \<longleftrightarrow>
     (\<forall>n w b w'. os_malloc os n w = (Some b, w') \<longrightarrow> length b = n) \<and>
     (\<forall>buf n w b w'. os_realloc os buf n w = (Some b, w') \<longrightarrow> length b = n) \<and>
     (\<forall>fd n w bs w'. os_recv os fd n w = (Some bs, w') \<longrightarrow> length bs \<le> n)"

lemma os_sizedD:
  assumes "os_sized os"
  shows os_malloc_size: "os_malloc os n w = (Some b, w') \<Longrightarrow> length b = n"
    and os_realloc_size: "os_realloc os buf n w = (Some b, w') \<Longrightarrow> length b = n"
    and os_recv_size: "os_recv os fd n w = (Some bs, w') \<Longrightarrow> length bs \<le> n"
  using assms unfolding os_sized_def by blast+

section \<open>Storing into the buffer\<close>

lemma put_Some_iff: "put buf off bs = Some buf' \<longleftrightarrow>
    off + length bs \<le> length buf \<and> buf' = take off buf @ bs @ drop (off + length bs) buf"
  by (auto simp: put_def)

lemma put_length: "put buf off bs = Some buf' \<Longrightarrow> length buf' = length buf"
  by (auto simp: put_Some_iff)

text \<open>Bytes received after those already there, and the NUL that ends them.\<close>

lemma put_received:
  assumes "take psz buf = got" "psz \<le> length buf" "psz + length bs + 1 \<le> length buf"
  obtains buf1 buf2 where "put buf psz bs = Some buf1" "put buf1 (psz + length bs) [NUL] = Some buf2"
    "length buf2 = length buf" "take (psz + length bs) buf2 = got @ bs"
    "c_string buf2 = Some (takeWhile (\<lambda>c. c \<noteq> NUL) (got @ bs))"
proof -
  let ?buf1 = "got @ bs @ drop (psz + length bs) buf"
  let ?buf2 = "(got @ bs) @ NUL # drop (psz + length bs + 1) buf"
  have len: "length got = psz" using assms(1,2) by auto
  have 1: "put buf psz bs = Some ?buf1" using assms by (simp add: put_Some_iff)
  have 2: "put ?buf1 (psz + length bs) [NUL] = Some ?buf2"
    using assms len by (simp add: put_Some_iff add.commute)
  have "takeWhile (\<lambda>c. c \<noteq> NUL) ?buf2 = takeWhile (\<lambda>c. c \<noteq> NUL) (got @ bs)"
    by (rule takeWhile_tail) simp
  then have "c_string ?buf2 = Some (takeWhile (\<lambda>c. c \<noteq> NUL) (got @ bs))"
    by (simp add: c_string_def)
  with 1 2 assms len show thesis by (intro that [of ?buf1 ?buf2]) simp_all
qed

section \<open>The loop stays inside the buffer\<close>

text \<open>The sizes at the head of the loop.\<close>

definition buf_inv :: "char list \<Rightarrow> nat \<Rightarrow> nat \<Rightarrow> bool" where
  "buf_inv buf buf_size packet_size \<longleftrightarrow> length buf = buf_size \<and> packet_size + 1 < buf_size"

lemma buf_inv_recv: "buf_inv buf bsz psz \<Longrightarrow> 0 < bsz - psz - 1"
  by (simp add: buf_inv_def)

text \<open>How the loop ends once a packet has been handled.\<close>

definition packet_exit :: "nat \<Rightarrow> (packet_result, 'w) outcome option \<Rightarrow> (loop_exit, 'w) outcome option" where
  "packet_exit n x =
     (case x of
        None \<Rightarrow> None
      | Some (Undefined u) \<Rightarrow> Some (Undefined u)
      | Some (Ret r st) \<Rightarrow>
          Some (Ret (case r of Packet_failed \<Rightarrow> Loop_failed
                     | Packet_written \<Rightarrow> Loop_left (Some (int n)) False
                     | Packet_seek \<Rightarrow> Loop_left (Some (int n)) True) st))"

text \<open>
  The rest of an iteration that has received \<open>n\<close> bytes, with the string \<open>s\<close> in the
  buffer: handle the packet, or go round, after doubling a full buffer.
\<close>

definition after_recv :: "nat \<Rightarrow> 'w os \<Rightarrow> int \<Rightarrow> int \<Rightarrow> char list \<Rightarrow> nat \<Rightarrow> nat \<Rightarrow> nat \<Rightarrow> char list \<Rightarrow>
    'w thread_st \<Rightarrow> (loop_exit, 'w) outcome option" where
  "after_recv k os cfd ffd buf bsz psz n s st =
     (case strchr s newline of
        Some pos \<Rightarrow>
          packet_exit n (handle_packet k os ffd buf s (pos + 1) st)
      | None \<Rightarrow>
          if psz \<ge> bsz - 1
          then if INT_MAX < bsz * 2 then Some (Undefined Int_overflow)
               else (case os_realloc os buf (bsz * 2) (env st) of
                       (None, w) \<Rightarrow> Some (Ret Loop_failed (free_buf (st\<lparr>env := w\<rparr>)))
                     | (Some temp, w) \<Rightarrow>
                         recv_loop k os cfd ffd temp (bsz * 2) psz (Some (int n)) (st\<lparr>env := w\<rparr>))
          else recv_loop k os cfd ffd buf bsz psz (Some (int n)) st)"

lemma recv_loop_received:
  assumes inv: "buf_inv buf bsz psz"
    and act: "os_active os (env st) = (True, w0)"
    and rcv: "os_recv os cfd (bsz - psz - 1) w0 = (Some bs, w1)"
    and bs: "bs \<noteq> []" "length bs \<le> bsz - psz - 1"
  obtains buf2 where
    "buf_inv buf2 bsz (psz + length bs) \<or> psz + length bs = bsz - 1" "length buf2 = bsz"
    "take (psz + length bs) buf2 = take psz buf @ bs"
    "recv_loop (Suc k) os cfd ffd buf bsz psz br st =
       after_recv k os cfd ffd buf2 bsz (psz + length bs) (length bs)
         (takeWhile (\<lambda>c. c \<noteq> NUL) (take psz buf @ bs)) (st\<lparr>env := w1\<rparr>)"
proof -
  have sz: "psz \<le> length buf" "psz + length bs + 1 \<le> length buf" "length buf = bsz"
    using inv bs by (auto simp: buf_inv_def)
  obtain buf1 buf2 where b: "put buf psz bs = Some buf1"
    "put buf1 (psz + length bs) [NUL] = Some buf2" "length buf2 = length buf"
    "take (psz + length bs) buf2 = take psz buf @ bs"
    "c_string buf2 = Some (takeWhile (\<lambda>c. c \<noteq> NUL) (take psz buf @ bs))"
    by (rule put_received [OF refl sz(1,2)])
  obtain x xs where x: "bs = x # xs" using bs(1) by (cases bs) auto
  have "recv_loop (Suc k) os cfd ffd buf bsz psz br st =
      after_recv k os cfd ffd buf2 bsz (psz + length bs) (length bs)
         (takeWhile (\<lambda>c. c \<noteq> NUL) (take psz buf @ bs)) (st\<lparr>env := w1\<rparr>)"
    unfolding after_recv_def packet_exit_def using act rcv b(1,2,5) unfolding x
    by (simp add: Let_def cong: option.case_cong outcome.case_cong packet_result.case_cong prod.case_cong)
  moreover have "buf_inv buf2 bsz (psz + length bs) \<or> psz + length bs = bsz - 1"
    using b(3) sz by (auto simp: buf_inv_def)
  ultimately show thesis using b sz by (intro that [of buf2]) simp_all
qed

text \<open>A packet that lies in the buffer is written without a read outside it.\<close>

lemma handle_packet_defined:
  assumes "pl \<le> length buf"
  shows "handle_packet fuel os fd buf s pl st \<noteq> Some (Undefined u)"
proof
  assume "handle_packet fuel os fd buf s pl st = Some (Undefined u)"
  then show False by (rule handle_packet_frame) (use assms in simp_all)
qed

lemma recv_loop_bounded:
  assumes os: "os_sized os"
  shows "buf_inv buf bsz psz \<Longrightarrow>
     recv_loop fuel os cfd ffd buf bsz psz br st = Some (Undefined u) \<Longrightarrow> u = Int_overflow"
proof (induction fuel arbitrary: buf bsz psz br st)
  case 0
  then show ?case by simp
next
  case (Suc k)
  obtain act w0 where act: "os_active os (env st) = (act, w0)" by fastforce
  obtain res w1 where res: "os_recv os cfd (bsz - psz - 1) w0 = (res, w1)" by fastforce
  show ?case
  proof (cases "act \<and> res \<noteq> None \<and> res \<noteq> Some []")
    case False
    with Suc.prems(2) act res show ?thesis by (cases act; cases res) auto
  next
    case True
    then obtain bs where bs: "res = Some bs" "bs \<noteq> []" by auto
    have act': "os_active os (env st) = (True, w0)" using act True by simp
    have rcv: "os_recv os cfd (bsz - psz - 1) w0 = (Some bs, w1)" using res bs by simp
    obtain buf2 where b: "buf_inv buf2 bsz (psz + length bs) \<or> psz + length bs = bsz - 1"
      and len: "length buf2 = bsz" and got: "take (psz + length bs) buf2 = take psz buf @ bs"
      and eq: "recv_loop (Suc k) os cfd ffd buf bsz psz br st =
       after_recv k os cfd ffd buf2 bsz (psz + length bs) (length bs)
         (takeWhile (\<lambda>c. c \<noteq> NUL) (take psz buf @ bs)) (st\<lparr>env := w1\<rparr>)"
      by (rule recv_loop_received [OF Suc.prems(1) act' rcv bs(2) os_recv_size [OF os rcv]])
    let ?s = "takeWhile (\<lambda>c. c \<noteq> NUL) (take psz buf @ bs)" and ?psz = "psz + length bs"
    show ?thesis
    proof (cases "strchr ?s newline")
      case (Some pos)
      have "length ?s \<le> length (take ?psz buf2)" unfolding got by (rule length_takeWhile_le)
      then have "pos + 1 \<le> length buf2" using Some by (simp add: strchr_Some_iff)
      from handle_packet_defined [OF this, of k os ffd ?s "st\<lparr>env := w1\<rparr>"] Suc.prems(2) eq Some
      show ?thesis
        by (auto simp: after_recv_def packet_exit_def split: option.splits outcome.splits)
    next
      case None
      show ?thesis
      proof (cases "?psz \<ge> bsz - 1")
        case False
        with b have "buf_inv buf2 bsz ?psz" by auto
        with Suc.IH Suc.prems(2) eq None False show ?thesis by (auto simp: after_recv_def)
      next
        case True
        obtain m w where m: "os_realloc os buf2 (bsz * 2) w1 = (m, w)" by fastforce
        show ?thesis
        proof (cases m)
          case None
          with Suc.prems(2) eq \<open>strchr ?s newline = None\<close> True m show ?thesis
            by (auto simp: after_recv_def split: if_splits)
        next
          case (Some temp)
          with os_realloc_size [OF os] m have "length temp = bsz * 2" by auto
          then have "buf_inv temp (bsz * 2) ?psz"
            using b Suc.prems(1) by (auto simp: buf_inv_def)
          with Suc.IH Suc.prems(2) eq None True m Some show ?thesis
            by (auto simp: after_recv_def split: if_splits)
        qed
      qed
    qed
  qed
qed

lemma receive_data_bounded:
  assumes os: "os_sized os"
    and r: "receive_data fuel os cfd ffd st = Some (Undefined u)"
  shows "u = Int_overflow \<or> u = Uninitialised"
proof -
  obtain m w where m: "os_malloc os 1024 (env st) = (m, w)" by fastforce
  with r obtain buf where buf: "m = Some buf" by (cases m) (auto simp: receive_data_def)
  have "buf_inv buf 1024 0"
    using os_malloc_size [OF os] m buf by (simp add: buf_inv_def)
  from recv_loop_bounded [OF os this] r m buf show ?thesis
    by (auto simp: receive_data_def Let_def
        split: option.splits outcome.splits loop_exit.splits if_splits prod.splits)
qed

text \<open>The rest of the session goes wrong nowhere.\<close>

lemma client_handler_bounded:
  assumes os: "os_sized os" and free: "\<not> file_held st"
    and r: "client_handler fuel os cfd st = Some (Undefined u)"
  shows "u = Int_overflow \<or> u = Uninitialised"
proof -
  obtain fd w where fd: "os_open os (env st) = (fd, w)" by fastforce
  let ?st = "st\<lparr>env := w, open_fds := fd # open_fds st\<rparr>"
  have "receive_data fuel os cfd fd ?st = Some (Undefined u)"
  proof (cases "receive_data fuel os cfd fd ?st")
    case (Some y)
    show ?thesis
    proof (cases y)
      case (Ret x st2)
      have "\<not> file_held st2"
        using receive_data_frame [OF Some [unfolded Ret]] free by simp
      then have "send_data fuel os cfd fd st2 \<noteq> Some (Undefined v)" for v
        using send_data_frame by (metis outcome.distinct(1))
      with r fd Some Ret show ?thesis
        by (auto simp: client_handler_def Let_def split: if_splits option.splits outcome.splits)
    qed (use r fd Some in \<open>auto simp: client_handler_def Let_def split: if_splits\<close>)
  qed (use r fd in \<open>auto simp: client_handler_def Let_def split: if_splits\<close>)
  then show ?thesis by (rule receive_data_bounded [OF os])
qed

end
