(* ===== verification/Session_Store.thy ===== *)
theory Session_Store
  imports Session_Buffer Driver_Spec
begin

text \<open>
  What is behind the file a session opens.  The server is built for the character device or, without
  \<open>USE_AESD_CHAR_DEVICE\<close>, for an ordinary file opened with \<open>O_APPEND\<close>; the session code is the
  same.  A \<open>store\<close> says what a write, a read and a seek request mean on either; \<open>line_store\<close>
  is the contract the session's proofs need of it, which the device and the file keep.
\<close>

section \<open>Stores\<close>

text \<open>
  What a write leaves, the bytes a reader sees, the position a seek request moves to (\<open>None\<close> when
  the \<open>ioctl\<close> fails), whether the sizes stay in bounds when some bytes are added, and a bound on
  the bytes a reader may see.
\<close>

record 's store =
  st_write :: "'s \<Rightarrow> char list \<Rightarrow> 's"
  st_bytes :: "'s \<Rightarrow> char list"
  st_seek :: "'s \<Rightarrow> nat \<Rightarrow> nat \<Rightarrow> nat option"
  st_room :: "'s \<Rightarrow> char list \<Rightarrow> bool"
  st_size :: "'s \<Rightarrow> nat"

locale line_store =
  fixes S :: "'s store"
  assumes write_split: "newline \<notin> set a \<Longrightarrow> st_write S (st_write S s a) b = st_write S s (a @ b)"
    and room_split: "newline \<notin> set a \<Longrightarrow> st_room S s (a @ b) \<Longrightarrow> st_room S (st_write S s a) b"
    and room_prefix: "st_room S s (a @ b) \<Longrightarrow> st_room S s a"
    and bytes_size: "length (st_bytes S s) \<le> st_size S s"
    and write_size: "length (st_bytes S (st_write S s bs)) \<le> st_size S s + length bs"
section \<open>The device and the file\<close>

definition room :: "device \<Rightarrow> char list \<Rightarrow> bool" where
  "room d bs \<longleftrightarrow> length (concat (fst d)) + length (snd d) + length bs < 2 ^ 63"

definition device_store :: "device store" where
  "device_store =
     \<lparr>st_write = write_spec, st_bytes = (\<lambda>d. concat (fst d)), st_seek = (\<lambda>d. seekto_spec (fst d)),
      st_room = room, st_size = (\<lambda>d. length (concat (fst d)) + length (snd d))\<rparr>"

lemma device_store_simps [simp]:
  "st_write device_store = write_spec" "st_bytes device_store d = concat (fst d)"
  "st_seek device_store d = seekto_spec (fst d)" "st_room device_store = room"
  "st_size device_store d = length (concat (fst d)) + length (snd d)"
  by (simp_all add: device_store_def)

lemma concat_write_spec:
  "length (concat (fst (write_spec d bs))) \<le> length (concat (fst d)) + length (snd d) + length bs"
  using length_concat_last_n [of 10 "fst d @ [snd d @ bs]"] by (cases d) auto

interpretation device_lines: line_store device_store
proof
  fix d :: device and a b :: "char list"
  show "st_write device_store (st_write device_store d a) b = st_write device_store d (a @ b)"
    if "newline \<notin> set a" using that by (cases d) simp
  show "st_room device_store (st_write device_store d a) b"
    if "newline \<notin> set a" "st_room device_store d (a @ b)" using that by (cases d) (simp add: room_def)
  show "st_room device_store d a" if "st_room device_store d (a @ b)" using that by (simp add: room_def)
  show "length (st_bytes device_store (st_write device_store d a)) \<le> st_size device_store d + length a"
    using concat_write_spec [of d a] by simp
qed simp

text \<open>
  A file opened with \<open>O_APPEND\<close> keeps all that was written; it has no \<open>ioctl\<close> of the driver's, so
  a seek request fails.  The kernel keeps the sizes of files in 63 bits.
\<close>

definition file_store :: "char list store" where
  "file_store =
     \<lparr>st_write = (@), st_bytes = (\<lambda>data. data), st_seek = (\<lambda>data wc off. None),
      st_room = (\<lambda>data bs. length data + length bs < 2 ^ 63), st_size = length\<rparr>"

lemma file_store_simps [simp]:
  "st_write file_store = (@)" "st_bytes file_store data = data" "st_seek file_store data wc off = None"
  "st_room file_store data bs \<longleftrightarrow> length data + length bs < 2 ^ 63" "st_size file_store = length"
  by (simp_all add: file_store_def)

interpretation file_lines: line_store file_store
  by unfold_locales simp_all

section \<open>What can be seen of the outside\<close>

text \<open>
  The bytes of the peer not yet received, those sent to it, what is stored behind the open file,
  the position of the open file, for which numbers of bytes the next write finds the memory, and
  what other threads will do to the store while this one waits for \<open>file_mutex\<close>: one function for
  each time it takes the mutex, none any more when the list is used up.
\<close>

record 's served =
  inbox :: "char list"
  outbox :: "char list"
  sdev :: 's
  fpos :: nat
  grants :: "nat \<Rightarrow> bool"
  waits :: "('s \<Rightarrow> 's) list"

text \<open>What is seen once the mutex is granted.\<close>

definition await :: "'s served \<Rightarrow> 's served" where
  "await v = (case waits v of [] \<Rightarrow> v | f # fs \<Rightarrow> v\<lparr>sdev := f (sdev v), waits := fs\<rparr>)"

lemma await_simps [simp]:
  "inbox (await v) = inbox v" "outbox (await v) = outbox v" "fpos (await v) = fpos v"
  "grants (await v) = grants v" "waits (await v) = tl (waits v)"
  "await (v\<lparr>inbox := i\<rparr>) = (await v)\<lparr>inbox := i\<rparr>" "await (v\<lparr>outbox := a\<rparr>) = (await v)\<lparr>outbox := a\<rparr>"
  "await (v\<lparr>fpos := p\<rparr>) = (await v)\<lparr>fpos := p\<rparr>"
  by (simp_all add: await_def split: list.split)

lemma await_alone: "waits v = [] \<Longrightarrow> await v = v"
  by (simp add: await_def)

abbreviation stored :: "'s store \<Rightarrow> 's served \<Rightarrow> char list" where
  "stored S v \<equiv> st_bytes S (sdev v)"

text \<open>
  What a session does with a line, as the code decides it on the string in the buffer, which
  may hold bytes received after the newline (\<open>extra\<close>): the store when it gives the mutex back, and
  the position from which the answer starts, \<open>None\<close> when there is no answer.
\<close>

definition packet_string :: "char list \<Rightarrow> char list \<Rightarrow> char list" where
  "packet_string line extra = takeWhile (\<lambda>c. c \<noteq> NUL) (line @ newline # extra)"

definition packet_request :: "char list \<Rightarrow> (nat \<times> nat) option" where
  "packet_request s =
     (case sscanf_seekto s of
        None \<Rightarrow> None
      | Some (command, wc, off) \<Rightarrow>
          if command = ''AESDCHAR_IOCSEEKTO'' then Some (unat wc, unat off) else None)"

definition line_spec :: "'s store \<Rightarrow> 's served \<Rightarrow> char list \<Rightarrow> char list \<Rightarrow> 's \<times> nat option" where
  "line_spec S v line extra =
     (let s = sdev (await v)
      in case packet_request (packet_string line extra) of
           Some (wc, off) \<Rightarrow> (s, st_seek S s wc off)
         | None \<Rightarrow>
             if grants v (length line + 1) then (st_write S s (line @ [newline]), Some 0)
             else (s, None))"

text \<open>
  An answer waits for the mutex again: the store when it has been sent, and the bytes sent.
\<close>

definition answer_spec :: "'s store \<Rightarrow> 's served \<Rightarrow> nat \<Rightarrow> 's \<times> char list" where
  "answer_spec S v p = (let s = sdev (await v) in (s, drop p (st_bytes S s)))"

definition line_result :: "'s store \<Rightarrow> 's served \<Rightarrow> char list \<Rightarrow> char list \<Rightarrow> 's \<times> char list" where
  "line_result S v line extra =
     (case line_spec S v line extra of
        (s, None) \<Rightarrow> (s, [])
      | (s, Some p) \<Rightarrow> answer_spec S ((await v)\<lparr>sdev := s\<rparr>) p)"

lemma packet_request_None: "packet_request s = None \<longleftrightarrow> \<not> is_seekto s"
  by (auto simp: packet_request_def is_seekto_def split: option.splits)

lemma packet_request_Some:
  assumes "packet_request s = Some (wc, off)"
  obtains w x where "sscanf_seekto s = Some (''AESDCHAR_IOCSEEKTO'', w, x)" "unat w = wc" "unat x = off"
  using assms by (auto simp: packet_request_def split: option.splits if_splits)

lemma packet_request_seekto:
  assumes n: "wc < 2 ^ 32" "off < 2 ^ 32" and line: "seekto_request wc off = line @ [newline]"
  shows "packet_request (packet_string line extra) = Some (wc, off)"
proof -
  have "NUL \<notin> set line" using seekto_request_chars(1) [of wc off] line by simp
  then have "packet_string line extra = seekto_request wc off @ takeWhile (\<lambda>c. c \<noteq> NUL) extra"
    unfolding packet_string_def line by (subst takeWhile_append2) auto
  moreover have "unat (word_of_nat wc :: uint32) = wc" "unat (word_of_nat off :: uint32) = off"
    using n by (simp_all add: unsigned_of_nat take_bit_nat_eq_self)
  ultimately show ?thesis using sscanf_seekto_request [OF n] by (simp add: packet_request_def)
qed

lemma packet_request_line:
  assumes "newline \<notin> set line" "NUL \<notin> set line" "take 19 line \<noteq> ''AESDCHAR_IOCSEEKTO:''"
  shows "packet_request (packet_string line extra) = None"
  using line_not_seekto [OF assms] by (simp add: packet_request_None packet_string_def)

end
