(* ===== verification/Session_Service.thy ===== *)
theory Session_Service
  imports Session_Store
begin

text \<open>
  What a client gets from a session, for every implementation of the calls that keeps the
  contract \<open>served_store\<close>: a peer that sends bytes in any pieces, closes its side
  of the connection and takes the answer in any pieces, and a store behind the open file as
  \<open>Session_Store\<close> describes it, which other threads may change while this one waits for
  \<open>file_mutex\<close>.  The contract is discharged for the character driver in \<open>Session_World\<close> and for
  an ordinary file in \<open>File_World\<close>.
\<close>

section \<open>The contract\<close>

text \<open>How \<open>receive_data\<close> ends after a packet.\<close>

definition received :: "'w os \<Rightarrow> int \<Rightarrow> packet_result \<Rightarrow> 'w thread_st \<Rightarrow> (int, 'w) outcome option" where
  "received os ffd r st =
     (case r of
        Packet_failed \<Rightarrow> Some (Ret (- 1) st)
      | Packet_written \<Rightarrow>
          (case os_lseek os ffd 0 0 (env st) of
             (x, w) \<Rightarrow> Some (Ret (if x = - 1 then - 1 else 0) (free_buf (st\<lparr>env := w\<rparr>))))
      | Packet_seek \<Rightarrow> Some (Ret 0 (free_buf st)))"

lemma receive_data_of_loop:
  assumes m: "os_malloc os 1024 (env st) = (Some buf, w)"
    and l: "recv_loop fuel os cfd ffd buf 1024 0 None (st\<lparr>env := w, bufs := bufs st + 1\<rparr>) =
      packet_exit n (Some (Ret r st1))"
  shows "receive_data fuel os cfd ffd st = received os ffd r st1"
  using m l by (simp add: receive_data_def packet_exit_def received_def Let_def split: packet_result.split)

lemma free_own_buf: "free_buf (st\<lparr>bufs := bufs st + 1\<rparr>) = st"
  by (cases st) (simp add: free_buf_def)

text \<open>A thread with the device open: the rest of \<open>client_handler\<close>.\<close>

definition serve_opened :: "nat \<Rightarrow> 'w os \<Rightarrow> int \<Rightarrow> int \<Rightarrow> 'w thread_st \<Rightarrow> (unit, 'w) outcome option" where
  "serve_opened fuel os cfd ffd st =
     (let finish = (\<lambda>st. Some (Ret () (mark_complete os (close_fd os cfd (close_fd os ffd st)))))
      in case receive_data fuel os cfd ffd st of
           None \<Rightarrow> None
         | Some (Undefined u) \<Rightarrow> Some (Undefined u)
         | Some (Ret r st) \<Rightarrow>
             if r = - 1 then finish st
             else (case send_data fuel os cfd ffd st of
                     None \<Rightarrow> None
                   | Some (Undefined u) \<Rightarrow> Some (Undefined u)
                   | Some (Ret r st) \<Rightarrow> finish st))"

locale served_store = line_store S for S :: "'s store" +
  fixes os :: "'w os" and cfd ffd :: int and good :: "'w \<Rightarrow> bool" and view :: "'w \<Rightarrow> 's served"
  assumes active: "good w \<Longrightarrow> \<exists>w'. os_active os w = (True, w') \<and> good w' \<and> view w' = view w"
    and locked: "good w \<Longrightarrow> good (os_lock_file os w) \<and> view (os_lock_file os w) = await (view w)"
    and list_locked: "good w \<Longrightarrow> good (os_lock_list os w) \<and> view (os_lock_list os w) = view w"
    and malloc: "good w \<Longrightarrow> \<exists>b w'. os_malloc os n w = (Some b, w') \<and> length b = n \<and>
      good w' \<and> view w' = view w"
    and reallocate: "good w \<Longrightarrow> length buf \<le> n \<Longrightarrow> \<exists>b w'. os_realloc os buf n w = (Some b, w') \<and>
      length b = n \<and> take (length buf) b = buf \<and> good w' \<and> view w' = view w"
    and recv: "good w \<Longrightarrow> 0 < n \<Longrightarrow> inbox (view w) \<noteq> [] \<Longrightarrow>
      \<exists>bs w'. os_recv os cfd n w = (Some bs, w') \<and> bs \<noteq> [] \<and> length bs \<le> n \<and> good w' \<and>
        inbox (view w) = bs @ inbox (view w') \<and> view w' = (view w)\<lparr>inbox := inbox (view w')\<rparr>"
    and hangup: "good w \<Longrightarrow> inbox (view w) = [] \<Longrightarrow>
      \<exists>w'. os_recv os cfd n w = (Some [], w') \<and> good w' \<and> view w' = view w"
    and stores: "good w \<Longrightarrow> bs \<noteq> [] \<Longrightarrow> st_room S (sdev (view w)) bs \<Longrightarrow> grants (view w) (length bs) \<Longrightarrow>
      \<exists>n w'. os_write os ffd bs w = (Some n, w') \<and> 0 < n \<and> n \<le> length bs \<and> good w' \<and>
        inbox (view w') = inbox (view w) \<and> outbox (view w') = outbox (view w) \<and>
        waits (view w') = waits (view w) \<and> sdev (view w') = st_write S (sdev (view w)) (take n bs) \<and>
        (n < length bs \<longrightarrow> grants (view w') (length bs - n))"
    and no_memory: "good w \<Longrightarrow> bs \<noteq> [] \<Longrightarrow> st_room S (sdev (view w)) bs \<Longrightarrow> \<not> grants (view w) (length bs) \<Longrightarrow>
      \<exists>w'. os_write os ffd bs w = (None, w') \<and> good w' \<and> view w' = view w"
    and rewind: "good w \<Longrightarrow> \<exists>w'. os_lseek os ffd 0 0 w = (0, w') \<and> good w' \<and>
      view w' = (view w)\<lparr>fpos := 0\<rparr>"
    and seekto: "good w \<Longrightarrow> \<exists>r w'. os_ioctl os ffd AESDCHAR_IOCSEEKTO arg w = (r, w') \<and> good w' \<and>
      (case st_seek S (sdev (view w)) (unat (write_cmd arg)) (unat (write_cmd_offset arg)) of
         None \<Rightarrow> r < 0 \<and> view w' = view w
       | Some p \<Rightarrow> r = 0 \<and> view w' = (view w)\<lparr>fpos := p\<rparr>)"
    and read: "good w \<Longrightarrow> \<exists>bs rest w'. os_read os ffd 1024 w = (Some bs, w') \<and> good w' \<and>
      view w' = (view w)\<lparr>fpos := fpos (view w) + length bs\<rparr> \<and>
      drop (fpos (view w)) (stored S (view w)) = bs @ rest \<and> (bs = [] \<longrightarrow> rest = [])"
    and send: "good w \<Longrightarrow> bs \<noteq> [] \<Longrightarrow> \<exists>n w'. os_send os cfd bs w = (Some n, w') \<and> 0 < n \<and>
      n \<le> length bs \<and> good w' \<and> view w' = (view w)\<lparr>outbox := outbox (view w) @ take n bs\<rparr>"
    and opened: "good w \<Longrightarrow> \<exists>w'. os_open os w = (ffd, w') \<and> good w' \<and> view w' = (view w)\<lparr>fpos := 0\<rparr>"
    and closed: "good w \<Longrightarrow> good (os_close os fd w) \<and> view (os_close os fd w) = view w"
    and ffd_valid: "ffd \<noteq> - 1"
begin

section \<open>Sending\<close>

lemma send_loop_sends:
  "good (env st) \<Longrightarrow> n \<le> length bs \<Longrightarrow> length bs - n < fuel \<Longrightarrow>
     \<exists>w'. send_loop fuel os cfd bs n st = Some (Ret True (st\<lparr>env := w'\<rparr>)) \<and> good w' \<and>
       view w' = (view (env st))\<lparr>outbox := outbox (view (env st)) @ drop n bs\<rparr>"
proof (induction fuel arbitrary: n st)
  case 0
  then show ?case by simp
next
  case (Suc fuel)
  show ?case
  proof (cases "n < length bs")
    case False
    with Suc.prems show ?thesis by (intro exI [of _ "env st"]) simp
  next
    case True
    then have "drop n bs \<noteq> []" by simp
    from send [OF Suc.prems(1) this] obtain m w where m: "os_send os cfd (drop n bs) (env st) = (Some m, w)"
      "0 < m" "m \<le> length (drop n bs)" "good w"
      "view w = (view (env st))\<lparr>outbox := outbox (view (env st)) @ take m (drop n bs)\<rparr>" by blast
    have "good (env (st\<lparr>env := w\<rparr>))" "n + m \<le> length bs" "length bs - (n + m) < fuel"
      using m Suc.prems True by auto
    from Suc.IH [OF this] obtain w' where w': "send_loop fuel os cfd bs (n + m) (st\<lparr>env := w\<rparr>) =
        Some (Ret True (st\<lparr>env := w'\<rparr>))" "good w'"
      "view w' = (view w)\<lparr>outbox := outbox (view w) @ drop (n + m) bs\<rparr>" by auto
    have "take m (drop n bs) @ drop (n + m) bs = drop n bs"
      by (metis add.commute append_take_drop_id drop_drop)
    with w'(3) m(5) have "view w' = (view (env st))\<lparr>outbox := outbox (view (env st)) @ drop n bs\<rparr>"
      by simp
    with w' m True show ?thesis by auto
  qed
qed

text \<open>The loop over \<open>read\<close> sends everything from the position on.\<close>

lemma read_loop_sends:
  "good (env st) \<Longrightarrow> length (drop (fpos (view (env st))) (stored S (view (env st)))) + 2 \<le> fuel \<Longrightarrow>
     \<exists>w' p. read_loop fuel os cfd ffd 1024 st = Some (Ret (Some True) (st\<lparr>env := w'\<rparr>)) \<and> good w' \<and>
       view w' = (view (env st))\<lparr>outbox := outbox (view (env st)) @
         drop (fpos (view (env st))) (stored S (view (env st))), fpos := p\<rparr>"
proof (induction fuel arbitrary: st)
  case 0
  then show ?case by simp
next
  case (Suc fuel)
  let ?v = "view (env st)"
  obtain bs rest w where r: "os_read os ffd 1024 (env st) = (Some bs, w)" "good w"
    "view w = ?v\<lparr>fpos := fpos ?v + length bs\<rparr>"
    "drop (fpos ?v) (stored S ?v) = bs @ rest" "bs = [] \<longrightarrow> rest = []"
    using read [OF Suc.prems(1)] by blast
  show ?case
  proof (cases bs)
    case Nil
    with r show ?thesis by (intro exI [of _ w] exI [of _ "fpos ?v"]) simp
  next
    case (Cons b bs')
    have "good (env (st\<lparr>env := w\<rparr>))" "length bs - 0 < fuel" using r Suc.prems(2) by simp_all
    from send_loop_sends [OF this(1) _ this(2)] obtain w1 where
      s: "send_loop fuel os cfd bs 0 (st\<lparr>env := w\<rparr>) = Some (Ret True (st\<lparr>env := w1\<rparr>))" "good w1"
      "view w1 = (view w)\<lparr>outbox := outbox (view w) @ bs\<rparr>" by auto
    have v1: "view w1 = ?v\<lparr>outbox := outbox ?v @ bs, fpos := fpos ?v + length bs\<rparr>"
      using s(3) r(3) by simp
    have d: "drop (fpos ?v + length bs) (stored S ?v) = rest"
      by (metis add.commute append_eq_conv_conj drop_drop r(4))
    have "length (drop (fpos (view (env (st\<lparr>env := w1\<rparr>)))) (stored S (view (env (st\<lparr>env := w1\<rparr>))))) + 2 \<le> fuel"
      using Suc.prems(2) r(4) Cons v1 d by (simp del: length_drop drop_drop)
    from Suc.IH [OF _ this] s(2) obtain w' p where
      "read_loop fuel os cfd ffd 1024 (st\<lparr>env := w1\<rparr>) = Some (Ret (Some True) (st\<lparr>env := w'\<rparr>))" "good w'"
      "view w' = (view w1)\<lparr>outbox := outbox (view w1) @ drop (fpos (view w1)) (stored S (view w1)), fpos := p\<rparr>"
      by auto
    then show ?thesis using r(1) s(1) Cons v1 d r(4) by auto
  qed
qed

lemma send_data_sends:
  assumes g: "good (env st)" and free: "\<not> file_held st"
    and fuel: "length (snd (answer_spec S (view (env st)) (fpos (view (env st))))) + 2 \<le> fuel"
  shows "\<exists>w' p. send_data fuel os cfd ffd st = Some (Ret 0 (st\<lparr>env := w'\<rparr>)) \<and> good w' \<and>
     view w' = (await (view (env st)))\<lparr>outbox := outbox (view (env st)) @
       snd (answer_spec S (view (env st)) (fpos (view (env st)))), fpos := p\<rparr>"
proof -
  let ?v = "await (view (env st))"
  obtain b w where m: "os_malloc os 1024 (env st) = (Some b, w)" "good w" "view w = view (env st)"
    using malloc [OF g] by blast
  let ?st = "lock_file os (st\<lparr>env := w, bufs := bufs st + 1\<rparr>)"
  have v: "good (env ?st)" "view (env ?st) = ?v" using locked [OF m(2)] m(3) by (simp_all add: lock_file_def)
  from read_loop_sends [OF v(1), of fuel] fuel obtain w' p where
    r: "read_loop fuel os cfd ffd 1024 ?st = Some (Ret (Some True) (?st\<lparr>env := w'\<rparr>))" "good w'"
    "view w' = ?v\<lparr>outbox := outbox ?v @ drop (fpos ?v) (stored S ?v), fpos := p\<rparr>"
    unfolding v(2) answer_spec_def Let_def snd_conv await_simps by blast
  have "free_buf (unlock_file (?st\<lparr>env := w'\<rparr>)) = st\<lparr>env := w'\<rparr>"
    using free by (cases st) (simp add: free_buf_def unlock_file_def lock_file_def)
  with m(1) r show ?thesis by (auto simp: send_data_def answer_spec_def Let_def)
qed

section \<open>Writing a packet\<close>

lemma write_loop_stores:
  assumes p: "p = line @ [newline]" "newline \<notin> set line" "take (length p) buf = p"
  shows "good (env st) \<Longrightarrow> grants (view (env st)) (length p - n) \<Longrightarrow> n < length p \<Longrightarrow> length p - n < fuel \<Longrightarrow>
     st_room S (sdev (view (env st))) (drop n p) \<Longrightarrow>
     \<exists>w'. write_loop fuel os ffd buf n (length p) st = Some (Ret True (st\<lparr>env := w'\<rparr>)) \<and> good w' \<and>
       inbox (view w') = inbox (view (env st)) \<and> outbox (view w') = outbox (view (env st)) \<and>
       waits (view w') = waits (view (env st)) \<and> sdev (view w') = st_write S (sdev (view (env st))) (drop n p)"
proof (induction fuel arbitrary: n st)
  case 0
  then show ?case by simp
next
  case (Suc fuel)
  let ?v = "view (env st)" and ?bs = "drop n p"
  have bs: "get_bytes buf n (length p - n) = Some ?bs"
    using Suc.prems(3) by (intro get_packet [OF p(3)]) simp
  have "?bs \<noteq> []" using Suc.prems(3) by simp
  have gr: "grants ?v (length ?bs)" using Suc.prems(2) by simp
  from stores [OF Suc.prems(1) \<open>?bs \<noteq> []\<close> Suc.prems(5) gr] obtain m w where
    m: "os_write os ffd ?bs (env st) = (Some m, w)" "0 < m" "m \<le> length ?bs" "good w"
    "inbox (view w) = inbox ?v" "outbox (view w) = outbox ?v" "waits (view w) = waits ?v"
    "sdev (view w) = st_write S (sdev ?v) (take m ?bs)" "m < length ?bs \<longrightarrow> grants (view w) (length ?bs - m)" by blast
  have step: "write_loop (Suc fuel) os ffd buf n (length p) st =
      write_loop fuel os ffd buf (n + m) (length p) (st\<lparr>env := w\<rparr>)"
    using Suc.prems(3) bs m(1) by simp
  show ?case
  proof (cases "m = length ?bs")
    case True
    then have nm: "n + m = length p" using Suc.prems(3) by simp
    from Suc.prems(3,4) obtain f where "fuel = Suc f" by (cases fuel) auto
    with step nm have "write_loop (Suc fuel) os ffd buf n (length p) st = Some (Ret True (st\<lparr>env := w\<rparr>))"
      by simp
    with m True show ?thesis by (intro exI [of _ w]) simp
  next
    case False
    then have lt: "m < length ?bs" using m(3) by simp
    then have "newline \<notin> set (take m ?bs)"
      using p(1,2) by (auto simp: take_drop drop_append dest!: in_set_dropD in_set_takeD)
    note split = write_split [OF this] room_split [OF this]
    have bs2: "take m ?bs @ drop (n + m) p = ?bs"
      by (metis add.commute append_take_drop_id drop_drop)
    have room1: "st_room S (sdev (view (env (st\<lparr>env := w\<rparr>)))) (drop (n + m) p)"
      using split(2) [of "sdev ?v" "drop (n + m) p"] Suc.prems(5) m(8) bs2 by simp
    have "good (env (st\<lparr>env := w\<rparr>))" "grants (view (env (st\<lparr>env := w\<rparr>))) (length p - (n + m))"
      "n + m < length p" "length p - (n + m) < fuel"
      using m lt Suc.prems(3,4) by auto
    from Suc.IH [OF this room1] obtain w' where w': "write_loop fuel os ffd buf (n + m) (length p) (st\<lparr>env := w\<rparr>)
        = Some (Ret True (st\<lparr>env := w'\<rparr>))" "good w'"
      "inbox (view w') = inbox (view w)" "outbox (view w') = outbox (view w)" "waits (view w') = waits (view w)"
      "sdev (view w') = st_write S (sdev (view w)) (drop (n + m) p)" by auto
    have "st_write S (sdev (view w)) (drop (n + m) p) = st_write S (sdev ?v) ?bs"
      using split(1) [of "sdev ?v" "drop (n + m) p"] m(8) bs2 by simp
    with w' step m show ?thesis by (intro exI [of _ w']) simp
  qed
qed

lemma write_loop_refused:
  assumes "good (env st)" "\<not> grants (view (env st)) (length p)" "st_room S (sdev (view (env st))) p"
    and p: "p \<noteq> []" "take (length p) buf = p" and fuel: "0 < fuel"
  shows "\<exists>w'. write_loop fuel os ffd buf 0 (length p) st =
      Some (Ret False (free_buf (unlock_file (st\<lparr>env := w'\<rparr>)))) \<and> good w' \<and> view w' = view (env st)"
proof -
  obtain f where "fuel = Suc f" using fuel by (cases fuel) auto
  moreover have "get_bytes buf 0 (length p) = Some p" using get_packet [OF p(2), of 0] by simp
  ultimately show ?thesis using no_memory [OF assms(1) p(1) assms(3,2)] p(1) by auto
qed

text \<open>What becomes of a packet that is not a seek request.\<close>

lemma handle_packet_stores:
  assumes g: "good (env st)" and free: "\<not> file_held st"
    and p: "p = line @ [newline]" "newline \<notin> set line" "take (length p) buf = p"
    and s: "\<not> is_seekto s" and fuel: "length p < fuel" and rm: "st_room S (sdev (await (view (env st)))) p"
  shows "\<exists>w'. handle_packet fuel os ffd buf s (length p) st =
       Some (if grants (view (env st)) (length p) then Ret Packet_written (st\<lparr>env := w'\<rparr>)
             else Ret Packet_failed (free_buf (st\<lparr>env := w'\<rparr>))) \<and> good w' \<and>
     (if grants (view (env st)) (length p)
      then inbox (view w') = inbox (view (env st)) \<and> outbox (view w') = outbox (view (env st)) \<and>
        waits (view w') = tl (waits (view (env st))) \<and>
        sdev (view w') = st_write S (sdev (await (view (env st)))) p
      else view w' = await (view (env st)))"
proof -
  let ?st = "lock_file os st"
  have v: "good (env ?st)" "view (env ?st) = await (view (env st))"
    using locked [OF g] by (simp_all add: lock_file_def)
  have unl: "unlock_file (?st\<lparr>env := w\<rparr>) = st\<lparr>env := w\<rparr>" for w
    using free by (cases st) (simp add: unlock_file_def lock_file_def)
  have hp: "handle_packet fuel os ffd buf s (length p) st =
     (case write_loop fuel os ffd buf 0 (length p) ?st of
            None \<Rightarrow> None
          | Some (Undefined u) \<Rightarrow> Some (Undefined u)
          | Some (Ret False st) \<Rightarrow> Some (Ret Packet_failed st)
          | Some (Ret True st) \<Rightarrow> Some (Ret Packet_written (unlock_file st)))"
    using s by (auto simp: handle_packet_def Let_def is_seekto_def split: option.split)
  show ?thesis
  proof (cases "grants (view (env st)) (length p)")
    case True
    have "0 < length p" "length p - 0 < fuel" "st_room S (sdev (view (env ?st))) (drop 0 p)" "grants (view (env ?st)) (length p - 0)"
      using p(1) fuel rm v True by simp_all
    from write_loop_stores [OF p v(1) this(4,1-3)] obtain w' where
      "write_loop fuel os ffd buf 0 (length p) ?st = Some (Ret True (?st\<lparr>env := w'\<rparr>))" "good w'"
      "inbox (view w') = inbox (view (env st))" "outbox (view w') = outbox (view (env st))"
      "waits (view w') = tl (waits (view (env st)))"
      "sdev (view w') = st_write S (sdev (await (view (env st)))) p" unfolding v(2) by auto
    with hp unl True show ?thesis by (intro exI [of _ w']) simp
  next
    case False
    from write_loop_refused [OF v(1), of p buf fuel] v(2) False rm p fuel obtain w' where
      "write_loop fuel os ffd buf 0 (length p) ?st =
        Some (Ret False (free_buf (unlock_file (?st\<lparr>env := w'\<rparr>))))" "good w'" "view w' = await (view (env st))"
      by auto
    with hp unl False show ?thesis by (intro exI [of _ w']) simp
  qed
qed

text \<open>What becomes of a seek request.\<close>

lemma handle_packet_seeks:
  assumes g: "good (env st)" and free: "\<not> file_held st"
    and s: "sscanf_seekto s = Some (''AESDCHAR_IOCSEEKTO'', wc, off)"
  shows "\<exists>w'. good w' \<and>
     (case st_seek S (sdev (await (view (env st)))) (unat wc) (unat off) of
        None \<Rightarrow> handle_packet fuel os ffd buf s n st = Some (Ret Packet_failed (free_buf (st\<lparr>env := w'\<rparr>))) \<and>
          view w' = await (view (env st))
      | Some p \<Rightarrow> handle_packet fuel os ffd buf s n st = Some (Ret Packet_seek (st\<lparr>env := w'\<rparr>)) \<and>
          view w' = (await (view (env st)))\<lparr>fpos := p\<rparr>)"
proof -
  let ?st = "lock_file os st"
  have v: "good (env ?st)" "view (env ?st) = await (view (env st))"
    using locked [OF g] by (simp_all add: lock_file_def)
  have unl: "unlock_file (?st\<lparr>env := w\<rparr>) = st\<lparr>env := w\<rparr>" for w
    using free by (cases st) (simp add: unlock_file_def lock_file_def)
  obtain r w' where i: "os_ioctl os ffd AESDCHAR_IOCSEEKTO \<lparr>write_cmd = wc, write_cmd_offset = off\<rparr> (env ?st) = (r, w')"
    "good w'"
    "case st_seek S (sdev (view (env ?st))) (unat wc) (unat off) of
         None \<Rightarrow> r < 0 \<and> view w' = view (env ?st)
       | Some p \<Rightarrow> r = 0 \<and> view w' = (view (env ?st))\<lparr>fpos := p\<rparr>"
    using seekto [OF v(1), of "\<lparr>write_cmd = wc, write_cmd_offset = off\<rparr>"] by auto
  show ?thesis
    using i s v(2) unl
    by (intro exI [of _ w']) (auto simp: handle_packet_def Let_def split: option.splits)
qed

section \<open>Receiving a packet\<close>

lemma inbox_only_trans:
  "a = b\<lparr>inbox := x\<rparr> \<Longrightarrow> b = c\<lparr>inbox := y\<rparr> \<Longrightarrow> a = c\<lparr>inbox := x\<rparr>"
  by simp

text \<open>
  However the peer's bytes are cut into pieces, the loop comes to the newline with the whole
  line in the buffer, after at most one iteration for each of its bytes.
\<close>

lemma recv_loop_packet:
  assumes line: "newline \<notin> set line" "NUL \<notin> set line" "length line < 2 ^ 30 - 1"
  shows "good (env st) \<Longrightarrow> buf_inv buf bsz psz \<Longrightarrow> psz \<le> length line \<Longrightarrow> take psz buf = take psz line \<Longrightarrow>
     inbox (view (env st)) = drop psz line @ newline # rest \<Longrightarrow> length line - psz < fuel \<Longrightarrow>
     \<exists>k n buf2 extra w. fuel \<le> Suc k + (length line - psz) \<and>
       recv_loop fuel os cfd ffd buf bsz psz br st = packet_exit n
         (handle_packet k os ffd buf2 (takeWhile (\<lambda>c. c \<noteq> NUL) (line @ newline # extra)) (length line + 1)
            (st\<lparr>env := w\<rparr>)) \<and>
       take (length line + 1) buf2 = line @ [newline] \<and> good w \<and>
       rest = extra @ inbox (view w) \<and> view w = (view (env st))\<lparr>inbox := inbox (view w)\<rparr>"
proof (induction fuel arbitrary: buf bsz psz br st)
  case 0
  then show ?case by simp
next
  case (Suc k)
  let ?v = "view (env st)"
  obtain w0 where act: "os_active os (env st) = (True, w0)" "good w0" "view w0 = ?v"
    using active [OF Suc.prems(1)] by blast
  have ne: "inbox (view w0) \<noteq> []" using Suc.prems(5) act by simp
  obtain bs w1 where rcv: "os_recv os cfd (bsz - psz - 1) w0 = (Some bs, w1)" "bs \<noteq> []"
    "length bs \<le> bsz - psz - 1" "good w1" "inbox (view w0) = bs @ inbox (view w1)"
    "view w1 = (view w0)\<lparr>inbox := inbox (view w1)\<rparr>"
    using recv [OF act(2) buf_inv_recv [OF Suc.prems(2)] ne] by blast
  obtain buf2 where b: "buf_inv buf2 bsz (psz + length bs) \<or> psz + length bs = bsz - 1"
    "length buf2 = bsz" "take (psz + length bs) buf2 = take psz buf @ bs"
    and step: "recv_loop (Suc k) os cfd ffd buf bsz psz br st =
       after_recv k os cfd ffd buf2 bsz (psz + length bs) (length bs)
         (takeWhile (\<lambda>c. c \<noteq> NUL) (take psz buf @ bs)) (st\<lparr>env := w1\<rparr>)"
    by (rule recv_loop_received [OF Suc.prems(2) act(1) rcv(1-3)])
  have stream: "take psz line @ bs @ inbox (view w1) = line @ newline # rest"
    using rcv(5) act(3) Suc.prems(5) by (metis append.assoc append_take_drop_id)
  have v1: "view w1 = ?v\<lparr>inbox := inbox (view w1)\<rparr>" using rcv(6) act(3) by simp
  show ?case
  proof (cases "psz + length bs \<le> length line")
    case False
    then have "length line + 1 \<le> length (take psz line @ bs)" using Suc.prems(3) by simp
    let ?ys = "drop (length line) (take psz line @ bs)"
    have "take (length line) (take psz line @ bs) = take (length line) ((take psz line @ bs) @ inbox (view w1))"
      using \<open>length line + 1 \<le> length (take psz line @ bs)\<close> by simp
    also have "\<dots> = line" using stream by simp
    finally have x: "take psz line @ bs = line @ ?ys" by (metis append_take_drop_id)
    have "?ys @ inbox (view w1) = newline # rest"
      using stream x by (metis append.assoc same_append_eq)
    moreover have "?ys \<noteq> []" using \<open>length line + 1 \<le> length (take psz line @ bs)\<close> by simp
    ultimately obtain extra where "?ys = newline # extra" "rest = extra @ inbox (view w1)"
      by (cases ?ys) auto
    with x have extra: "take psz line @ bs = line @ newline # extra" "rest = extra @ inbox (view w1)"
      by simp_all
    let ?s = "takeWhile (\<lambda>c. c \<noteq> NUL) (line @ newline # extra)"
    have s: "?s = line @ newline # takeWhile (\<lambda>c. c \<noteq> NUL) extra"
      using line(2) by (subst takeWhile_append2) auto
    then have "strchr ?s newline = Some (length line)" using strchr_append [OF line(1)] by simp
    with step extra(1) Suc.prems(4) have "recv_loop (Suc k) os cfd ffd buf bsz psz br st =
        packet_exit (length bs) (handle_packet k os ffd buf2 ?s (length line + 1) (st\<lparr>env := w1\<rparr>))"
      by (simp add: after_recv_def)
    moreover have "take (length line + 1) buf2 = line @ [newline]"
    proof -
      have "take (length line + 1) buf2 = take (length line + 1) (take (psz + length bs) buf2)"
        using False by (simp add: min_def)
      then show ?thesis using b(3) Suc.prems(4) extra(1) by simp
    qed
    ultimately show ?thesis
      using extra(2) rcv(4) v1 by (intro exI [of _ k] exI [of _ "length bs"] exI [of _ buf2]
          exI [of _ extra] exI [of _ w1]) simp
  next
    case True
    let ?psz = "psz + length bs"
    have got: "take psz buf @ bs = take ?psz line"
      using stream True Suc.prems(3,4)
      by (metis (no_types, lifting) append.assoc append_eq_conv_conj length_append length_take min.absorb2 take_append take_all_iff le_refl diff_is_0_eq take0 append_Nil2)
    have in1: "inbox (view w1) = drop ?psz line @ newline # rest"
    proof -
      have "take ?psz line @ inbox (view w1) = take ?psz line @ drop ?psz line @ newline # rest"
        using stream got Suc.prems(4) by (metis append.assoc append_take_drop_id)
      then show ?thesis by simp
    qed
    let ?s = "takeWhile (\<lambda>c. c \<noteq> NUL) (take psz buf @ bs)"
    have "newline \<notin> set ?s"
      using line(1) unfolding got by (meson in_set_takeD set_takeWhileD)
    then have none: "strchr ?s newline = None" by (simp add: strchr_None_iff)
    have fuel: "length line - ?psz < k" using Suc.prems(6) True rcv(2)
      by (cases bs) auto
    have shorter: "Suc k0 + (length line - ?psz) \<ge> k \<Longrightarrow> Suc k \<le> Suc k0 + (length line - psz)" for k0
      using rcv(2) True by (cases bs) auto
    show ?thesis
    proof (cases "?psz \<ge> bsz - 1")
      case full: False
      then have inv: "buf_inv buf2 bsz ?psz" using b(1) by auto
      have t: "take ?psz buf2 = take ?psz line" using b(3) got by simp
      have step': "recv_loop (Suc k) os cfd ffd buf bsz psz br st =
          recv_loop k os cfd ffd buf2 bsz ?psz (Some (int (length bs))) (st\<lparr>env := w1\<rparr>)"
        using step none full by (simp add: after_recv_def)
      have pre: "good (env (st\<lparr>env := w1\<rparr>))"
        "inbox (view (env (st\<lparr>env := w1\<rparr>))) = drop ?psz line @ newline # rest"
        using rcv(4) in1 by simp_all
      from Suc.IH [OF pre(1) inv True t pre(2) fuel, of "Some (int (length bs))"]
      obtain k0 n buf3 extra w where ih: "k \<le> Suc k0 + (length line - ?psz)"
        "recv_loop (Suc k) os cfd ffd buf bsz psz br st = packet_exit n
         (handle_packet k0 os ffd buf3 (takeWhile (\<lambda>c. c \<noteq> NUL) (line @ newline # extra)) (length line + 1)
            (st\<lparr>env := w\<rparr>))"
        "take (length line + 1) buf3 = line @ [newline]" "good w"
        "rest = extra @ inbox (view w)" "view w = (view w1)\<lparr>inbox := inbox (view w)\<rparr>"
        unfolding step' by (auto simp del: recv_loop.simps)
      from inbox_only_trans [OF ih(6) v1] ih shorter [OF ih(1)] show ?thesis by blast
    next
      case full: True
      have ov: "\<not> INT_MAX < bsz * 2" using full True line(3) by (simp add: INT_MAX_def)
      have "length buf2 \<le> bsz * 2" using b(2) by simp
      then obtain temp w2 where r: "os_realloc os buf2 (bsz * 2) w1 = (Some temp, w2)" "length temp = bsz * 2"
        "take (length buf2) temp = buf2" "good w2" "view w2 = view w1"
        using reallocate [OF rcv(4)] by blast
      have inv: "buf_inv temp (bsz * 2) ?psz"
        using b(1) r(2) Suc.prems(2) by (auto simp: buf_inv_def)
      have "take ?psz temp = take ?psz (take (length buf2) temp)"
        using b(1,2) Suc.prems(2) by (auto simp: buf_inv_def min_def)
      then have t: "take ?psz temp = take ?psz line" using b(3) got r(3) by simp
      have step': "recv_loop (Suc k) os cfd ffd buf bsz psz br st =
          recv_loop k os cfd ffd temp (bsz * 2) ?psz (Some (int (length bs))) (st\<lparr>env := w2\<rparr>)"
        using step none full ov r(1) by (simp add: after_recv_def)
      have pre: "good (env (st\<lparr>env := w2\<rparr>))"
        "inbox (view (env (st\<lparr>env := w2\<rparr>))) = drop ?psz line @ newline # rest"
        using r(4,5) in1 by simp_all
      from Suc.IH [OF pre(1) inv True t pre(2) fuel, of "Some (int (length bs))"]
      obtain k0 n buf3 extra w where ih: "k \<le> Suc k0 + (length line - ?psz)"
        "recv_loop (Suc k) os cfd ffd buf bsz psz br st = packet_exit n
         (handle_packet k0 os ffd buf3 (takeWhile (\<lambda>c. c \<noteq> NUL) (line @ newline # extra)) (length line + 1)
            (st\<lparr>env := w\<rparr>))"
        "take (length line + 1) buf3 = line @ [newline]" "good w"
        "rest = extra @ inbox (view w)" "view w = (view w1)\<lparr>inbox := inbox (view w)\<rparr>"
        unfolding step' by (auto simp del: recv_loop.simps simp: r(5))
      from inbox_only_trans [OF ih(6) v1] ih shorter [OF ih(1)] show ?thesis by blast
    qed
  qed
qed

section \<open>receive\_data\<close>

text \<open>From the packet in the buffer to the return of \<open>receive_data\<close>.\<close>

lemma receive_data_packet:
  assumes g: "good (env st)" and line: "newline \<notin> set line" "NUL \<notin> set line" "length line < 2 ^ 30 - 1"
    and inb: "inbox (view (env st)) = line @ newline # rest" and fuel: "length line < fuel"
  obtains k buf extra w where "fuel \<le> Suc k + length line"
    "\<forall>r st1. handle_packet k os ffd buf (takeWhile (\<lambda>c. c \<noteq> NUL) (line @ newline # extra)) (length line + 1)
          (st\<lparr>env := w, bufs := bufs st + 1\<rparr>) = Some (Ret r st1) \<longrightarrow>
        receive_data fuel os cfd ffd st = received os ffd r st1"
    "take (length line + 1) buf = line @ [newline]" "good w" "rest = extra @ inbox (view w)"
    "view w = (view (env st))\<lparr>inbox := inbox (view w)\<rparr>"
proof -
  obtain b w0 where m: "os_malloc os 1024 (env st) = (Some b, w0)" "length b = 1024" "good w0"
    "view w0 = view (env st)"
    using malloc [OF g] by blast
  let ?st = "st\<lparr>env := w0, bufs := bufs st + 1\<rparr>"
  have pre: "good (env ?st)" "buf_inv b 1024 0" "inbox (view (env ?st)) = drop 0 line @ newline # rest"
    using m inb by (simp_all add: buf_inv_def)
  from recv_loop_packet [OF line pre(1,2) _ _ pre(3), of fuel None] fuel obtain k n buf extra w where
    r: "fuel \<le> Suc k + length line"
    "recv_loop fuel os cfd ffd b 1024 0 None ?st = packet_exit n
         (handle_packet k os ffd buf (takeWhile (\<lambda>c. c \<noteq> NUL) (line @ newline # extra)) (length line + 1)
            (?st\<lparr>env := w\<rparr>))"
    "take (length line + 1) buf = line @ [newline]" "good w"
    "rest = extra @ inbox (view w)" "view w = (view (env ?st))\<lparr>inbox := inbox (view w)\<rparr>"
    by auto
  have st: "?st\<lparr>env := w\<rparr> = st\<lparr>env := w, bufs := bufs st + 1\<rparr>" by simp
  show thesis
  proof (rule that [of k buf extra w])
    show "\<forall>r st1. handle_packet k os ffd buf (takeWhile (\<lambda>c. c \<noteq> NUL) (line @ newline # extra)) (length line + 1)
          (st\<lparr>env := w, bufs := bufs st + 1\<rparr>) = Some (Ret r st1) \<longrightarrow>
        receive_data fuel os cfd ffd st = received os ffd r st1"
      using receive_data_of_loop [OF m(1)] r(2) unfolding st by metis
  qed (use r m(4) in simp_all)
qed

text \<open>A line is stored, or moves the position, or is refused, as specified.\<close>

lemma receive_data_line:
  assumes g: "good (env st)" and free: "\<not> file_held st"
    and line: "newline \<notin> set line" "NUL \<notin> set line" "length line < 2 ^ 30 - 1"
    and inb: "inbox (view (env st)) = line @ newline # rest" and fuel: "length line < fuel"
    and store: "\<forall>extra. packet_request (packet_string line extra) = None \<longrightarrow>
      st_room S (sdev (await (view (env st)))) (line @ [newline]) \<and> 2 * length line + 3 \<le> fuel"
  shows "\<exists>w extra. good w \<and> rest = extra @ inbox (view w) \<and> outbox (view w) = outbox (view (env st)) \<and>
     waits (view w) = tl (waits (view (env st))) \<and> sdev (view w) = fst (line_spec S (view (env st)) line extra) \<and>
     (case snd (line_spec S (view (env st)) line extra) of
        None \<Rightarrow> receive_data fuel os cfd ffd st = Some (Ret (- 1) (st\<lparr>env := w\<rparr>))
      | Some p \<Rightarrow> receive_data fuel os cfd ffd st = Some (Ret 0 (st\<lparr>env := w\<rparr>)) \<and> fpos (view w) = p)"
proof -
  let ?v = "view (env st)" and ?p = "line @ [newline]"
  let ?d = "sdev (await ?v)"
  obtain k buf extra w where r: "fuel \<le> Suc k + length line"
    "\<forall>r st1. handle_packet k os ffd buf (packet_string line extra) (length line + 1)
          (st\<lparr>env := w, bufs := bufs st + 1\<rparr>) = Some (Ret r st1) \<longrightarrow>
        receive_data fuel os cfd ffd st = received os ffd r st1"
    "take (length line + 1) buf = line @ [newline]" "good w" "rest = extra @ inbox (view w)"
    "view w = ?v\<lparr>inbox := inbox (view w)\<rparr>"
    using receive_data_packet [OF g line inb fuel] unfolding packet_string_def by blast
  let ?st = "st\<lparr>env := w, bufs := bufs st + 1\<rparr>" and ?s = "packet_string line extra"
  have "await (view w) = await (?v\<lparr>inbox := inbox (view w)\<rparr>)" by (rule arg_cong [OF r(6)])
  then have f: "outbox (view w) = outbox ?v" "sdev (await (view w)) = ?d" "grants (view w) = grants ?v"
    "waits (view w) = waits ?v"
    using arg_cong [OF r(6), of outbox] arg_cong [OF r(6), of grants] arg_cong [OF r(6), of waits] by simp_all
  have pre: "good (env ?st)" "\<not> file_held ?st" "take (length ?p) buf = ?p" using r(3,4) free by simp_all
  have vst: "view (env ?st) = view w" by simp
  have fr: "free_buf (st\<lparr>env := u, bufs := bufs st + 1\<rparr>) = st\<lparr>env := u\<rparr>"
    "free_buf (st\<lparr>bufs := bufs st + 1, env := u\<rparr>) = st\<lparr>env := u\<rparr>" for u
    by (cases st, simp add: free_buf_def)+
  show ?thesis
  proof (cases "packet_request ?s")
    case (Some req)
    obtain wc off where req: "req = (wc, off)" by (cases req)
    from packet_request_Some [OF Some [unfolded req]] obtain x y where
      sc: "sscanf_seekto ?s = Some (''AESDCHAR_IOCSEEKTO'', x, y)" "unat x = wc" "unat y = off" by blast
    obtain w1 where h: "good w1" "case st_seek S ?d wc off of
          None \<Rightarrow> handle_packet k os ffd buf ?s (length line + 1) ?st =
              Some (Ret Packet_failed (free_buf (?st\<lparr>env := w1\<rparr>))) \<and> view w1 = await (view w)
        | Some p \<Rightarrow> handle_packet k os ffd buf ?s (length line + 1) ?st =
              Some (Ret Packet_seek (?st\<lparr>env := w1\<rparr>)) \<and> view w1 = (await (view w))\<lparr>fpos := p\<rparr>"
      using handle_packet_seeks [OF pre(1,2) sc(1), of k buf "length line + 1"]
      unfolding vst sc(2,3) f(2) by blast
    have spec: "line_spec S ?v line extra = (?d, st_seek S ?d wc off)"
      using Some req by (simp add: line_spec_def Let_def)
    show ?thesis
    proof (cases "st_seek S ?d wc off")
      case None
      with h(2) r(2) [rule_format, of Packet_failed "free_buf (?st\<lparr>env := w1\<rparr>)", unfolded received_def] fr
      have "receive_data fuel os cfd ffd st = Some (Ret (- 1) (st\<lparr>env := w1\<rparr>))" "view w1 = await (view w)" by simp_all
      with None h(1) r(5) f spec show ?thesis by (intro exI [of _ w1] exI [of _ extra]) simp
    next
      case (Some p)
      with h(2) r(2) [rule_format, of Packet_seek "?st\<lparr>env := w1\<rparr>", unfolded received_def] fr
      have "receive_data fuel os cfd ffd st = Some (Ret 0 (st\<lparr>env := w1\<rparr>))" "view w1 = (await (view w))\<lparr>fpos := p\<rparr>"
        by simp_all
      with Some h(1) r(5) f spec show ?thesis by (intro exI [of _ w1] exI [of _ extra]) simp
    qed
  next
    case None
    have more: "length ?p < k" "st_room S (sdev (await (view (env ?st)))) ?p"
      using store [rule_format, OF None] r(1) f by simp_all
    obtain w1 where h: "handle_packet k os ffd buf ?s (length ?p) ?st =
         Some (if grants (view (env ?st)) (length ?p) then Ret Packet_written (?st\<lparr>env := w1\<rparr>)
           else Ret Packet_failed (free_buf (?st\<lparr>env := w1\<rparr>)))"
      "good w1" "if grants (view (env ?st)) (length ?p)
        then inbox (view w1) = inbox (view (env ?st)) \<and> outbox (view w1) = outbox (view (env ?st)) \<and>
          waits (view w1) = tl (waits (view (env ?st))) \<and>
          sdev (view w1) = st_write S (sdev (await (view (env ?st)))) ?p
        else view w1 = await (view (env ?st))"
      using handle_packet_stores [OF pre(1,2) refl line(1) pre(3) None [unfolded packet_request_None] more]
      by blast
    have gr: "grants (view (env ?st)) (length ?p) = grants ?v (length line + 1)" using f by simp
    note h' = h(1,3) [unfolded gr]
    have spec: "line_spec S ?v line extra =
        (if grants ?v (length line + 1) then (st_write S ?d ?p, Some 0) else (?d, None))"
      using None by (simp add: line_spec_def Let_def)
    show ?thesis
    proof (cases "grants ?v (length line + 1)")
      case True
      obtain w2 where l: "os_lseek os ffd 0 0 w1 = (0, w2)" "good w2" "view w2 = (view w1)\<lparr>fpos := 0\<rparr>"
        using rewind [OF h(2)] by blast
      have "receive_data fuel os cfd ffd st = Some (Ret 0 (st\<lparr>env := w2\<rparr>))"
        using r(2) [rule_format, of Packet_written "?st\<lparr>env := w1\<rparr>", unfolded received_def] h'(1) True l(1) fr
        by simp
      with True h'(2) l r(5) f spec show ?thesis by (intro exI [of _ w2] exI [of _ extra]) simp
    next
      case False
      have "receive_data fuel os cfd ffd st = Some (Ret (- 1) (st\<lparr>env := w1\<rparr>))"
        using r(2) [rule_format, of Packet_failed "free_buf (?st\<lparr>env := w1\<rparr>)", unfolded received_def] h'(1) False fr
        by simp
      with False h(2) h'(2) f r(5) spec show ?thesis by (intro exI [of _ w1] exI [of _ extra]) simp
    qed
  qed
qed

section \<open>client\_handler\<close>

lemma finish_view:
  assumes "good (env st)"
  shows "good (env (mark_complete os (close_fd os cfd (close_fd os ffd st))))"
    "view (env (mark_complete os (close_fd os cfd (close_fd os ffd st)))) = view (env st)"
  using closed [OF assms, of ffd] closed [of "os_close os ffd (env st)" cfd]
    list_locked [of "os_close os cfd (os_close os ffd (env st))"]
  by (simp_all add: mark_complete_def close_fd_def Let_def)

lemma client_opens:
  assumes g: "good (env st)"
  obtains w where "good w" "view w = (view (env st))\<lparr>fpos := 0\<rparr>"
    "client_handler fuel os cfd st =
       serve_opened fuel os cfd ffd (st\<lparr>env := w, open_fds := ffd # open_fds st\<rparr>)"
proof -
  obtain w where "os_open os (env st) = (ffd, w)" "good w" "view w = (view (env st))\<lparr>fpos := 0\<rparr>"
    using opened [OF g] by blast
  with ffd_valid show thesis by (intro that [of w]) (simp_all add: client_handler_def serve_opened_def)
qed

text \<open>After \<open>receive_data\<close>: a session that failed there sends nothing, the others everything
  from the position on.\<close>

lemma serve_failed:
  assumes "receive_data fuel os cfd ffd st = Some (Ret (- 1) st1)" "good (env st1)"
  shows "\<exists>st'. serve_opened fuel os cfd ffd st = Some (Ret () st') \<and> good (env st') \<and>
     view (env st') = view (env st1)"
  using finish_view [OF assms(2)] assms(1) by (auto simp: serve_opened_def)

lemma serve_answers:
  fixes st1
  defines "v \<equiv> view (env st1)"
  assumes "receive_data fuel os cfd ffd st = Some (Ret 0 st1)" "good (env st1)" "\<not> file_held st1"
    and "length (snd (answer_spec S v (fpos v))) + 2 \<le> fuel"
  shows "\<exists>st'. serve_opened fuel os cfd ffd st = Some (Ret () st') \<and> good (env st') \<and>
     sdev (view (env st')) = fst (answer_spec S v (fpos v)) \<and>
     outbox (view (env st')) = outbox v @ snd (answer_spec S v (fpos v))"
proof -
  from send_data_sends [OF assms(3,4), folded v_def] assms(5) obtain w p where
    s: "send_data fuel os cfd ffd st1 = Some (Ret 0 (st1\<lparr>env := w\<rparr>))" "good w"
    "view w = (await v)\<lparr>outbox := outbox v @ snd (answer_spec S v (fpos v)), fpos := p\<rparr>" by blast
  have "good (env (st1\<lparr>env := w\<rparr>))" using s(2) by simp
  from finish_view [OF this] s assms(2) show ?thesis
    by (auto simp: serve_opened_def answer_spec_def Let_def)
qed

text \<open>A session on a line ends with the store and the answer that \<open>line_spec\<close> gives.\<close>

lemma client_line:
  fixes st
  defines "v \<equiv> view (env st)"
  assumes g: "good (env st)" and free: "\<not> file_held st"
    and line: "newline \<notin> set line" "NUL \<notin> set line" "length line < 2 ^ 30 - 1"
    and inb: "inbox v = line @ newline # rest" and fuel: "length line < fuel"
    and store: "\<forall>extra. packet_request (packet_string line extra) = None \<longrightarrow>
      st_room S (sdev (await v)) (line @ [newline]) \<and> 2 * length line + 3 \<le> fuel"
    and send: "\<forall>extra. length (snd (line_result S v line extra)) + 2 \<le> fuel"
  shows "\<exists>st' extra rest'. client_handler fuel os cfd st = Some (Ret () st') \<and> good (env st') \<and>
     rest = extra @ rest' \<and>
     (sdev (view (env st')), outbox (view (env st'))) =
       map_prod id ((@) (outbox v)) (line_result S v line extra)"
proof -
  obtain w where w: "good w" "view w = v\<lparr>fpos := 0\<rparr>"
    "client_handler fuel os cfd st =
       serve_opened fuel os cfd ffd (st\<lparr>env := w, open_fds := ffd # open_fds st\<rparr>)"
    unfolding v_def by (rule client_opens [OF g])
  let ?st = "st\<lparr>env := w, open_fds := ffd # open_fds st\<rparr>"
  have spec: "line_spec S (view (env ?st)) line extra = line_spec S v line extra" for extra
    using w(2) by (simp add: line_spec_def Let_def cong: option.case_cong)
  have pre: "good (env ?st)" "\<not> file_held ?st" "inbox (view (env ?st)) = line @ newline # rest"
    "outbox (view (env ?st)) = outbox v" "sdev (await (view (env ?st))) = sdev (await v)"
    "waits (view (env ?st)) = waits v"
    using w free inb by simp_all
  obtain w1 extra where r: "good w1" "rest = extra @ inbox (view w1)" "outbox (view w1) = outbox v"
    "waits (view w1) = tl (waits v)" "sdev (view w1) = fst (line_spec S v line extra)"
    "case snd (line_spec S v line extra) of
        None \<Rightarrow> receive_data fuel os cfd ffd ?st = Some (Ret (- 1) (?st\<lparr>env := w1\<rparr>))
      | Some p \<Rightarrow> receive_data fuel os cfd ffd ?st = Some (Ret 0 (?st\<lparr>env := w1\<rparr>)) \<and> fpos (view w1) = p"
    using receive_data_line [OF pre(1,2) line pre(3) fuel] store unfolding spec pre(4,5,6) by blast
  show ?thesis
  proof (cases "snd (line_spec S v line extra)")
    case None
    with r have "receive_data fuel os cfd ffd ?st = Some (Ret (- 1) (?st\<lparr>env := w1\<rparr>))" by simp
    from serve_failed [OF this] r(1) obtain st' where
      "serve_opened fuel os cfd ffd ?st = Some (Ret () st')" "good (env st')" "view (env st') = view w1"
      by auto
    with None r w(3) show ?thesis
      by (intro exI [of _ st'] exI [of _ extra] exI [of _ "inbox (view w1)"])
        (simp add: line_result_def split_beta)
  next
    case (Some p)
    with r have rcv: "receive_data fuel os cfd ffd ?st = Some (Ret 0 (?st\<lparr>env := w1\<rparr>))" "fpos (view w1) = p"
      by simp_all
    have "await (view w1) = (await ((await v)\<lparr>sdev := fst (line_spec S v line extra)\<rparr>))
        \<lparr>inbox := inbox (view w1), outbox := outbox (view w1), fpos := fpos (view w1), grants := grants (view w1)\<rparr>"
      using r(4,5) by (simp add: await_def split: list.split)
    then have ans: "answer_spec S (view w1) p = line_result S v line extra"
      using Some by (simp add: answer_spec_def line_result_def split_beta)
    have "length (snd (answer_spec S (view (env (?st\<lparr>env := w1\<rparr>))) (fpos (view (env (?st\<lparr>env := w1\<rparr>)))))) + 2 \<le> fuel"
      using send rcv(2) ans by simp
    from serve_answers [OF rcv(1) _ _ this] r(1,3) free rcv(2) ans obtain st' where
      "serve_opened fuel os cfd ffd ?st = Some (Ret () st')" "good (env st')"
      "sdev (view (env st')) = fst (line_result S v line extra)"
      "outbox (view (env st')) = outbox v @ snd (line_result S v line extra)"
      by auto
    with r w(3) show ?thesis
      by (intro exI [of _ st'] exI [of _ extra] exI [of _ "inbox (view w1)"]) (simp add: map_prod_def split_beta)
  qed
qed

text \<open>
  A client that sends a line is answered with everything stored by the time the answer is sent,
  its own line included, or, when there is no memory for the line, not at all; what it sends after
  the line is never stored.
\<close>

lemma client_stores:
  fixes st and line :: "char list"
  defines "v \<equiv> view (env st)"
  defines "s \<equiv> st_write S (sdev (await v)) (line @ [newline])"
  assumes g: "good (env st)" and free: "\<not> file_held st"
    and line: "newline \<notin> set line" "NUL \<notin> set line" "length line < 2 ^ 30 - 1"
    and no_seek: "take 19 line \<noteq> ''AESDCHAR_IOCSEEKTO:''"
    and inb: "inbox v = line @ newline # rest"
    and rm: "st_room S (sdev (await v)) (line @ [newline])"
    and fuel: "2 * length line + 3 \<le> fuel"
      "length (st_bytes S (sdev (await ((await v)\<lparr>sdev := s\<rparr>)))) + 2 \<le> fuel"
  shows "\<exists>st'. client_handler fuel os cfd st = Some (Ret () st') \<and> good (env st') \<and>
     (if grants v (length line + 1)
      then sdev (view (env st')) = sdev (await ((await v)\<lparr>sdev := s\<rparr>)) \<and>
        outbox (view (env st')) = outbox v @ stored S (view (env st'))
      else sdev (view (env st')) = sdev (await v) \<and> outbox (view (env st')) = outbox v)"
proof -
  have spec: "line_result S v line extra =
      (if grants v (length line + 1)
       then (sdev (await ((await v)\<lparr>sdev := s\<rparr>)), st_bytes S (sdev (await ((await v)\<lparr>sdev := s\<rparr>))))
       else (sdev (await v), []))" for extra
    using packet_request_line [OF line(1,2) no_seek]
    by (simp add: line_result_def line_spec_def answer_spec_def s_def Let_def)
  have "length line < fuel" using fuel(1) by simp
  moreover have "\<forall>extra. length (snd (line_result S v line extra)) + 2 \<le> fuel"
    using fuel by (simp add: spec)
  ultimately show ?thesis
    using client_line [OF g free line, folded v_def, OF inb, of fuel] rm fuel(1)
    unfolding spec by (auto split: if_splits)
qed

text \<open>A client that sends a seek request is answered with what is stored from there on.\<close>

lemma client_seeks:
  fixes st
  defines "v \<equiv> view (env st)"
  assumes g: "good (env st)" and free: "\<not> file_held st"
    and n: "wc < 2 ^ 32" "off < 2 ^ 32"
    and inb: "inbox v = seekto_request wc off @ rest"
    and fuel: "length (seekto_request wc off) \<le> fuel" "length (stored S (await (await v))) + 2 \<le> fuel"
  shows "\<exists>st'. client_handler fuel os cfd st = Some (Ret () st') \<and> good (env st') \<and>
     (case st_seek S (sdev (await v)) wc off of
        None \<Rightarrow> sdev (view (env st')) = sdev (await v) \<and> outbox (view (env st')) = outbox v
      | Some p \<Rightarrow> sdev (view (env st')) = sdev (await (await v)) \<and>
          outbox (view (env st')) = outbox v @ drop p (stored S (await (await v))))"
proof -
  obtain line where line: "seekto_request wc off = line @ [newline]" "newline \<notin> set line"
    using seekto_request_chars by blast
  have nul: "NUL \<notin> set line" using seekto_request_chars(1) [of wc off] line(1) by simp
  have short: "length line < 2 ^ 30 - 1" using seekto_request_short [OF n] line(1) by simp
  have req: "packet_request (packet_string line extra) = Some (wc, off)" for extra
    by (rule packet_request_seekto [OF n line(1)])
  have same: "(await v)\<lparr>sdev := sdev (await v)\<rparr> = await v" by simp
  have spec: "line_result S v line extra =
      (case st_seek S (sdev (await v)) wc off of None \<Rightarrow> (sdev (await v), [])
       | Some p \<Rightarrow> (sdev (await (await v)), drop p (stored S (await (await v)))))" for extra
    by (simp add: line_result_def line_spec_def answer_spec_def req Let_def same split: option.split)
  have "inbox v = line @ newline # rest" "length line < fuel" using inb fuel(1) line(1) by simp_all
  moreover have "\<forall>extra. length (snd (line_result S v line extra)) + 2 \<le> fuel"
    using fuel(2) by (auto simp: spec split: option.split)
  ultimately show ?thesis
    using client_line [OF g free line(2) nul short, folded v_def, of rest fuel] unfolding spec req
    by (auto split: option.splits)
qed

section \<open>A connection that ends before a line does\<close>

lemma recv_loop_incomplete:
  assumes all: "newline \<notin> set (takeWhile (\<lambda>c. c \<noteq> NUL) all)" "length all < 2 ^ 30 - 1"
  shows "good (env st) \<Longrightarrow> buf_inv buf bsz psz \<Longrightarrow> psz \<le> length all \<Longrightarrow> take psz buf = take psz all \<Longrightarrow>
     inbox (view (env st)) = drop psz all \<Longrightarrow> length all - psz < fuel \<Longrightarrow>
     \<exists>w. recv_loop fuel os cfd ffd buf bsz psz br st = Some (Ret (Loop_left (Some 0) False) (st\<lparr>env := w\<rparr>)) \<and>
       good w \<and> view w = (view (env st))\<lparr>inbox := []\<rparr>"
proof (induction fuel arbitrary: buf bsz psz br st)
  case 0
  then show ?case by simp
next
  case (Suc k)
  let ?v = "view (env st)"
  obtain w0 where act: "os_active os (env st) = (True, w0)" "good w0" "view w0 = ?v"
    using active [OF Suc.prems(1)] by blast
  show ?case
  proof (cases "inbox ?v = []")
    case True
    then obtain w where w: "os_recv os cfd (bsz - psz - 1) w0 = (Some [], w)" "good w" "view w = ?v"
      using hangup [OF act(2), of "bsz - psz - 1"] act(3) by auto
    have "view w = ?v\<lparr>inbox := []\<rparr>" using w(3) True by simp
    with w act(1) show ?thesis by (intro exI [of _ w]) simp
  next
    case False
    then have ne: "inbox (view w0) \<noteq> []" using act by simp
    obtain bs w1 where rcv: "os_recv os cfd (bsz - psz - 1) w0 = (Some bs, w1)" "bs \<noteq> []"
      "length bs \<le> bsz - psz - 1" "good w1" "inbox (view w0) = bs @ inbox (view w1)"
      "view w1 = (view w0)\<lparr>inbox := inbox (view w1)\<rparr>"
      using recv [OF act(2) buf_inv_recv [OF Suc.prems(2)] ne] by blast
    obtain buf2 where b: "buf_inv buf2 bsz (psz + length bs) \<or> psz + length bs = bsz - 1"
      "length buf2 = bsz" "take (psz + length bs) buf2 = take psz buf @ bs"
      and step: "recv_loop (Suc k) os cfd ffd buf bsz psz br st =
         after_recv k os cfd ffd buf2 bsz (psz + length bs) (length bs)
           (takeWhile (\<lambda>c. c \<noteq> NUL) (take psz buf @ bs)) (st\<lparr>env := w1\<rparr>)"
      by (rule recv_loop_received [OF Suc.prems(2) act(1) rcv(1-3)])
    let ?psz = "psz + length bs"
    have stream: "drop psz all = bs @ inbox (view w1)" using rcv(5) act(3) Suc.prems(5) by simp
    have "length (drop psz all) = length bs + length (inbox (view w1))"
      by (simp only: stream length_append)
    then have psz: "?psz \<le> length all" using Suc.prems(3) rcv(2) unfolding length_drop by linarith
    have in1: "inbox (view w1) = drop ?psz all"
      using stream by (metis add.commute append_eq_conv_conj drop_drop)
    have got: "take psz buf @ bs = take ?psz all"
      using stream Suc.prems(4) by (metis append_eq_conv_conj take_add)
    have v1: "view w1 = ?v\<lparr>inbox := inbox (view w1)\<rparr>" using rcv(6) act(3) by simp
    have none: "strchr (takeWhile (\<lambda>c. c \<noteq> NUL) (take psz buf @ bs)) newline = None"
      unfolding strchr_None_iff got using all(1) subsetD [OF takeWhile_take] by metis
    have fuel: "length all - ?psz < k" using Suc.prems(6) psz rcv(2) by (cases bs) auto
    show ?thesis
    proof (cases "?psz \<ge> bsz - 1")
      case full: False
      then have inv: "buf_inv buf2 bsz ?psz" using b(1) by auto
      have t: "take ?psz buf2 = take ?psz all" using b(3) got by simp
      have pre: "good (env (st\<lparr>env := w1\<rparr>))" "inbox (view (env (st\<lparr>env := w1\<rparr>))) = drop ?psz all"
        using rcv(4) in1 by simp_all
      from Suc.IH [OF pre(1) inv psz t pre(2) fuel, of "Some (int (length bs))"] obtain w where
        "recv_loop (Suc k) os cfd ffd buf bsz psz br st = Some (Ret (Loop_left (Some 0) False) (st\<lparr>env := w\<rparr>))"
        "good w" "view w = (view w1)\<lparr>inbox := []\<rparr>"
        using step none full by (auto simp: after_recv_def)
      with inbox_only_trans [OF this(3) v1] show ?thesis by blast
    next
      case full: True
      have ov: "\<not> INT_MAX < bsz * 2" using full psz all(2) by (simp add: INT_MAX_def)
      have "length buf2 \<le> bsz * 2" using b(2) by simp
      then obtain temp w2 where r: "os_realloc os buf2 (bsz * 2) w1 = (Some temp, w2)" "length temp = bsz * 2"
        "take (length buf2) temp = buf2" "good w2" "view w2 = view w1"
        using reallocate [OF rcv(4)] by blast
      have inv: "buf_inv temp (bsz * 2) ?psz"
        using b(1) r(2) Suc.prems(2) by (auto simp: buf_inv_def)
      have "take ?psz temp = take ?psz (take (length buf2) temp)"
        using b(1,2) Suc.prems(2) by (auto simp: buf_inv_def min_def)
      then have t: "take ?psz temp = take ?psz all" using b(3) got r(3) by simp
      have pre: "good (env (st\<lparr>env := w2\<rparr>))" "inbox (view (env (st\<lparr>env := w2\<rparr>))) = drop ?psz all"
        using r(4,5) in1 by simp_all
      from Suc.IH [OF pre(1) inv psz t pre(2) fuel, of "Some (int (length bs))"] obtain w where
        "recv_loop (Suc k) os cfd ffd buf bsz psz br st = Some (Ret (Loop_left (Some 0) False) (st\<lparr>env := w\<rparr>))"
        "good w" "view w = (view w1)\<lparr>inbox := []\<rparr>"
        using step none full ov r(1,5) by (auto simp: after_recv_def)
      with inbox_only_trans [OF this(3) v1] show ?thesis by blast
    qed
  qed
qed

text \<open>
  A client that closes before the first newline, or hides it behind a NUL, stores nothing and
  is sent the contents.
\<close>

lemma client_incomplete:
  assumes g: "good (env st)" and free: "\<not> file_held st"
    and all: "newline \<notin> set (takeWhile (\<lambda>c. c \<noteq> NUL) (inbox (view (env st))))"
      "length (inbox (view (env st))) < 2 ^ 30 - 1"
    and fuel: "length (inbox (view (env st))) < fuel" "length (stored S (await (view (env st)))) + 2 \<le> fuel"
  shows "\<exists>st'. client_handler fuel os cfd st = Some (Ret () st') \<and> good (env st') \<and>
     sdev (view (env st')) = sdev (await (view (env st))) \<and>
     outbox (view (env st')) = outbox (view (env st)) @ stored S (await (view (env st)))"
proof -
  let ?v = "view (env st)"
  obtain w where w: "good w" "view w = ?v\<lparr>fpos := 0\<rparr>"
    "client_handler fuel os cfd st =
       serve_opened fuel os cfd ffd (st\<lparr>env := w, open_fds := ffd # open_fds st\<rparr>)"
    by (rule client_opens [OF g])
  let ?st = "st\<lparr>env := w, open_fds := ffd # open_fds st\<rparr>"
  obtain b w0 where m: "os_malloc os 1024 w = (Some b, w0)" "length b = 1024" "good w0" "view w0 = view w"
    using malloc [OF w(1)] by blast
  let ?sm = "?st\<lparr>env := w0, bufs := bufs ?st + 1\<rparr>"
  have pre: "good (env ?sm)" "buf_inv b 1024 0" "inbox (view (env ?sm)) = drop 0 (inbox ?v)"
    using m w by (simp_all add: buf_inv_def)
  from recv_loop_incomplete [OF all pre(1,2) _ _ pre(3), of fuel None] fuel(1) obtain w1 where
    l: "recv_loop fuel os cfd ffd b 1024 0 None ?sm = Some (Ret (Loop_left (Some 0) False) (?sm\<lparr>env := w1\<rparr>))"
    "good w1" "view w1 = (view w0)\<lparr>inbox := []\<rparr>" by auto
  obtain w2 where rw: "os_lseek os ffd 0 0 w1 = (0, w2)" "good w2" "view w2 = (view w1)\<lparr>fpos := 0\<rparr>"
    using rewind [OF l(2)] by blast
  have r: "receive_data fuel os cfd ffd ?st = Some (Ret 0 (?st\<lparr>env := w2\<rparr>))"
    using m(1) l(1) rw(1) by (simp add: receive_data_def Let_def free_buf_def)
  have "await (view w2) = (await ?v)\<lparr>inbox := [], fpos := 0\<rparr>"
    "outbox (view w2) = outbox ?v" "fpos (view w2) = 0"
    using rw(3) l(3) m(4) w(2) by simp_all
  then have v2: "answer_spec S (view w2) 0 = (sdev (await ?v), stored S (await ?v))"
    "outbox (view w2) = outbox ?v" "fpos (view w2) = 0"
    by (simp_all add: answer_spec_def Let_def)
  have "good (env (?st\<lparr>env := w2\<rparr>))" "\<not> file_held (?st\<lparr>env := w2\<rparr>)"
    "length (snd (answer_spec S (view (env (?st\<lparr>env := w2\<rparr>))) (fpos (view (env (?st\<lparr>env := w2\<rparr>)))))) + 2 \<le> fuel"
    using rw(2) v2 free fuel(2) by simp_all
  from serve_answers [OF r this] w(3) v2 show ?thesis by auto
qed

end

end
