(* ===== verification/Session_Peer.thy ===== *)
theory Session_Peer
  imports Client_Session
begin

text \<open>
  The other end of a session's connection, and a C library with memory to spare: the part of a
  session's world that does not depend on what is behind the file it opens.
\<close>

section \<open>The peer\<close>

text \<open>
  Whether the signal has come, the peer's bytes in the pieces they arrive in, those sent to it
  and how many bytes the socket takes in one \<open>send\<close>.  A peer that has sent all closes its side.
\<close>

record peer =
  w_active :: bool
  w_in :: "char list list"
  w_out :: "char list"
  w_window :: nat

abbreviation device_fd :: int where "device_fd \<equiv> 3"

text \<open>Fresh bytes of \<open>malloc\<close> and \<open>realloc\<close>.\<close>

abbreviation junk :: "nat \<Rightarrow> char list" where "junk n \<equiv> replicate n (CHR 0xCC)"

definition w_recv :: "nat \<Rightarrow> 'a peer_scheme \<Rightarrow> char list option \<times> 'a peer_scheme" where
  "w_recv n w =
     (case w_in w of
        [] \<Rightarrow> (Some [], w)
      | seg # segs \<Rightarrow>
          (Some (take n seg), w\<lparr>w_in := (if length seg \<le> n then segs else drop n seg # segs)\<rparr>))"

definition w_send :: "char list \<Rightarrow> 'a peer_scheme \<Rightarrow> nat option \<times> 'a peer_scheme" where
  "w_send bs w =
     (let n = min (length bs) (w_window w) in (Some n, w\<lparr>w_out := w_out w @ take n bs\<rparr>))"

section \<open>What it keeps\<close>

definition peer_ok :: "'a peer_scheme \<Rightarrow> bool" where
  "peer_ok w \<longleftrightarrow> w_active w \<and> 0 < w_window w \<and> [] \<notin> set (w_in w)"

lemma peer_ok_updates [simp]:
  "peer_ok (w\<lparr>w_out := out\<rparr>) = peer_ok w"
  by (simp add: peer_ok_def)

lemma peer_inbox: "peer_ok w \<Longrightarrow> concat (w_in w) = [] \<longleftrightarrow> w_in w = []"
  by (cases "w_in w") (auto simp: peer_ok_def)

lemma w_recv_law:
  assumes "peer_ok w" "0 < n" "concat (w_in w) \<noteq> []"
  shows "\<exists>bs segs. w_recv n w = (Some bs, w\<lparr>w_in := segs\<rparr>) \<and> bs \<noteq> [] \<and> length bs \<le> n \<and>
     peer_ok (w\<lparr>w_in := segs\<rparr>) \<and> concat (w_in w) = bs @ concat segs"
proof -
  obtain seg segs where s: "w_in w = seg # segs" using assms(3) by (cases "w_in w") auto
  with assms(1,2) have "take n seg \<noteq> []" by (auto simp: peer_ok_def)
  with s assms(1) show ?thesis
    by (intro exI [of _ "take n seg"] exI [of _ "if length seg \<le> n then segs else drop n seg # segs"])
      (auto simp: w_recv_def peer_ok_def)
qed

lemma w_recv_end: "w_in w = [] \<Longrightarrow> w_recv n w = (Some [], w)"
  by (simp add: w_recv_def)

lemma w_send_law:
  "peer_ok w \<Longrightarrow> bs \<noteq> [] \<Longrightarrow> \<exists>n. w_send bs w = (Some n, w\<lparr>w_out := w_out w @ take n bs\<rparr>) \<and>
     0 < n \<and> n \<le> length bs"
  by (simp add: w_send_def Let_def peer_ok_def)

end
