(* ===== verification/Session_World.thy ===== *)
theory Session_World
  imports Session_Service Session_Peer Driver_Module
begin

text \<open>
  The server on the driver: the calls of a session answered by the model of the character
  device, by one connected peer and by a C library with memory to spare.  The contract
  \<open>served_store\<close> holds of it for every kernel allocator that keeps its promises, so the
  two programs are verified together, from the bytes on the socket to the blocks in the
  kernel.
\<close>

section \<open>The world of one session\<close>

text \<open>The peer, the kernel and the open file of the session.\<close>

record world = peer +
  w_kst :: kstate
  w_filp :: file_struct

definition all_ok :: kcall where "all_ok = \<lparr>interrupted = False, uncopied = 0\<rparr>"

definition w_read :: "nat \<Rightarrow> world \<Rightarrow> char list option \<times> world" where
  "w_read n w =
     (case aesd_read all_ok (word_of_nat n) (w_kst w) (w_filp w) of
        Some (Inr bs, s, f) \<Rightarrow> (Some bs, w\<lparr>w_kst := s, w_filp := f\<rparr>)
      | Some (Inl e, s, f) \<Rightarrow> (None, w\<lparr>w_kst := s, w_filp := f\<rparr>)
      | None \<Rightarrow> (None, w))"

definition w_write :: "kernel_api \<Rightarrow> char list \<Rightarrow> world \<Rightarrow> nat option \<times> world" where
  "w_write K bs w =
     (case aesd_write K all_ok bs (w_kst w) (w_filp w) of
        Some (Inr n, s, f) \<Rightarrow> (Some (unat n), w\<lparr>w_kst := s, w_filp := f\<rparr>)
      | Some (Inl e, s, f) \<Rightarrow> (None, w\<lparr>w_kst := s, w_filp := f\<rparr>)
      | None \<Rightarrow> (None, w))"

definition w_lseek :: "int \<Rightarrow> int \<Rightarrow> world \<Rightarrow> int \<times> world" where
  "w_lseek off whence w =
     (case aesd_seek all_ok (word_of_int off) whence (w_kst w) (w_filp w) of
        (Inr p, s, f) \<Rightarrow> (sint p, w\<lparr>w_kst := s, w_filp := f\<rparr>)
      | (Inl e, s, f) \<Rightarrow> (- 1, w\<lparr>w_kst := s, w_filp := f\<rparr>))"

definition w_ioctl :: "uint32 \<Rightarrow> aesd_seekto \<Rightarrow> world \<Rightarrow> int \<times> world" where
  "w_ioctl cmd arg w =
     (case aesd_ioctl all_ok cmd arg (w_kst w) (w_filp w) of
        (Inr _, s, f) \<Rightarrow> (0, w\<lparr>w_kst := s, w_filp := f\<rparr>)
      | (Inl e, s, f) \<Rightarrow> (- 1, w\<lparr>w_kst := s, w_filp := f\<rparr>))"

definition w_open :: "world \<Rightarrow> int \<times> world" where
  "w_open w =
     (let (r, f) = aesd_open 0 0 \<lparr>f_pos = 0, private_data = 0\<rparr>
      in (device_fd, w\<lparr>w_filp := f\<rparr>))"

definition aesd_os :: "kernel_api \<Rightarrow> world os" where
  "aesd_os K =
     \<lparr>os_active = (\<lambda>w. (w_active w, w)),
      os_lock_file = (\<lambda>w. w),
      os_lock_list = (\<lambda>w. w),
      os_malloc = (\<lambda>n w. (Some (junk n), w)),
      os_realloc = (\<lambda>buf n w. (Some (take n (buf @ junk n)), w)),
      os_recv = (\<lambda>fd. w_recv),
      os_send = (\<lambda>fd. w_send),
      os_open = w_open,
      os_read = (\<lambda>fd. w_read),
      os_write = (\<lambda>fd. w_write K),
      os_lseek = (\<lambda>fd. w_lseek),
      os_ioctl = (\<lambda>fd. w_ioctl),
      os_close = (\<lambda>fd w. w)\<rparr>"

section \<open>The contract holds\<close>

definition world_good :: "world \<Rightarrow> bool" where
  "world_good w \<longleftrightarrow> peer_ok w \<and> dev_inv (w_kst w) \<and> room (device_of (w_kst w)) []"

definition world_view :: "kernel_api \<Rightarrow> world \<Rightarrow> device served" where
  "world_view K w =
     \<lparr>inbox = concat (w_in w), outbox = w_out w, sdev = device_of (w_kst w),
      fpos = unat (f_pos (w_filp w)),
      grants = (\<lambda>k. case krealloc K (heap (w_kst w)) (work_ptr (w_kst w)) (length (pending (w_kst w)) + k) of
         None \<Rightarrow> False | Some (q, h) \<Rightarrow> q \<noteq> 0),
      waits = []\<rparr>"

lemma await_world [simp]:
  "await (world_view K w) = world_view K w" "await ((world_view K w)\<lparr>sdev := d\<rparr>) = (world_view K w)\<lparr>sdev := d\<rparr>"
  by (simp_all add: await_alone world_view_def)

lemma all_ok_simps [simp]: "interrupted all_ok = False" "uncopied all_ok = 0"
  by (simp_all add: all_ok_def)

lemma room_device:
  "room (device_of s) bs \<longleftrightarrow> length (content s) + length (pending s) + length bs < 2 ^ 63"
  by (simp add: room_def device_of_def content_def)

lemma stored_content: "concat (fst (sdev (world_view K w))) = content (w_kst w)"
  by (simp add: world_view_def device_of_def content_def)

text \<open>Storing what fits leaves what was there in bounds.\<close>

lemma room_after_write: "room d bs \<Longrightarrow> room (write_spec d bs) []"
proof -
  obtain cmds pend where d: "d = (cmds, pend)" by (cases d)
  assume "room d bs"
  then show ?thesis using length_concat_last_n [of 10 "cmds @ [pend @ bs]"] by (auto simp: d room_def)
qed

lemma world_good_updates [simp]:
  "world_good (w\<lparr>w_filp := f\<rparr>) = world_good w" "world_good (w\<lparr>w_out := out\<rparr>) = world_good w"
  by (simp_all add: world_good_def peer_ok_def)

lemma w_read_law:
  assumes w: "world_good w"
  shows "\<exists>bs rest w'. w_read 1024 w = (Some bs, w') \<and> world_good w' \<and>
     world_view K w' = (world_view K w)\<lparr>fpos := unat (f_pos (w_filp w)) + length bs\<rparr> \<and>
     drop (unat (f_pos (w_filp w))) (content (w_kst w)) = bs @ rest \<and> (bs = [] \<longrightarrow> rest = [])"
proof -
  let ?s = "w_kst w" and ?f = "w_filp w"
  let ?bs = "read_spec (commands ?s) (unat (f_pos ?f)) 1024"
  have inv: "dev_inv ?s" using w by (simp add: world_good_def peer_ok_def)
  let ?f' = "?f\<lparr>f_pos := f_pos ?f + word_of_nat (length ?bs)\<rparr>"
  have "w_read 1024 w = (Some ?bs, w\<lparr>w_kst := ?s, w_filp := ?f'\<rparr>)"
    using aesd_read_ok [OF inv, of all_ok 1024 ?f] by (simp add: w_read_def)
  then have r: "w_read 1024 w = (Some ?bs, w\<lparr>w_filp := ?f'\<rparr>)" by simp
  obtain rest where rest: "drop (unat (f_pos ?f)) (content ?s) = ?bs @ rest"
    using read_spec_prefix unfolding content_def by blast
  have nil: "?bs = [] \<longrightarrow> rest = []"
    using rest read_spec_Nil_iff [of "commands ?s" "unat (f_pos ?f)" 1024]
    by (auto simp: content_def)
  have "unat (f_pos ?f + word_of_nat (length ?bs)) = unat (f_pos ?f) + length ?bs"
  proof (cases "?bs = []")
    case False
    have "length ?bs \<le> length (content ?s) - unat (f_pos ?f)"
      using arg_cong [OF rest, of length] by simp
    moreover have "unat (f_pos ?f) < length (content ?s)"
      using False read_spec_Nil_iff [of "commands ?s" "unat (f_pos ?f)" 1024] by (simp add: content_def)
    moreover have "length (content ?s) < 2 ^ 63" using w by (simp add: world_good_def peer_ok_def room_device)
    ultimately have "unat (f_pos ?f) + length ?bs < 2 ^ 64" "length ?bs < 2 ^ 64" by simp_all
    then show ?thesis by (simp add: unat_size_add unat_size_of_nat)
  qed simp
  with w rest nil r show ?thesis
    by (intro exI [of _ ?bs] exI [of _ rest] exI [of _ "w\<lparr>w_filp := ?f'\<rparr>"])
      (simp add: world_good_def peer_ok_def world_view_def)
qed

lemma w_write_law:
  assumes K: "kernel_api_ok K" and w: "world_good w"
    and bs: "bs \<noteq> []" "room (device_of (w_kst w)) bs"
  shows "if grants (world_view K w) (length bs)
     then \<exists>w'. w_write K bs w = (Some (length bs), w') \<and> world_good w' \<and>
       w_in w' = w_in w \<and> w_out w' = w_out w \<and>
       device_of (w_kst w') = write_spec (device_of (w_kst w)) bs
     else w_write K bs w = (None, w)"
proof -
  let ?s = "w_kst w" and ?f = "w_filp w"
  have inv: "dev_inv ?s" using w by (simp add: world_good_def peer_ok_def)
  have len: "length (pending ?s @ bs) < 2 ^ 64" "length bs < 2 ^ 64"
    using bs(2) by (simp_all add: room_device)
  let ?n = "length (pending ?s @ bs)"
  have new: "unat (size (dev_entry (dev ?s)) + word_of_nat (length bs)) = ?n"
    using len length_pending [OF inv] by (simp add: unat_size_add unat_size_of_nat)
  obtain q h where q: "krealloc K (heap ?s) (work_ptr ?s) ?n = Some (q, h)"
    and post: "krealloc_post (heap ?s) (work_ptr ?s) ?n q h"
    by (rule krealloc_ok [OF K inv_heap [OF inv] work_ptr_valid [OF inv]])
  have gr: "grants (world_view K w) (length bs) \<longleftrightarrow> q \<noteq> 0"
    using q by (simp add: world_view_def)
  have same: "mutex_unlock ?s = ?s" by (simp add: inv_free [OF inv])
  show ?thesis
  proof (cases "q = 0")
    case True
    then have "h = heap ?s" using post by (simp add: krealloc_post_def)
    then have "aesd_write K all_ok bs ?s ?f = Some (Inl ENOMEM, ?s, ?f)"
      using q True new same by (simp add: aesd_write_def Let_def)
    with True gr show ?thesis by (simp add: w_write_def)
  next
    case False
    obtain r s' f' where res: "aesd_write K all_ok bs ?s ?f = Some (r, s', f')"
      using aesd_write_returns [OF K inv len(1), of all_ok ?f] by auto
    note ref = aesd_write_refines [OF K inv len(1) res]
    have "r \<noteq> Inl ENOMEM"
      using res q new False by (auto simp: aesd_write_def Let_def split: bind_splits if_splits)
    moreover have "r \<noteq> Inl e" if "e \<noteq> ENOMEM" for e
      using ref(3) [of e] that by auto
    ultimately obtain n where n: "r = Inr n" by (cases r) auto
    have *: "n = word_of_nat (length bs)" "device_of s' = write_spec (device_of ?s) bs"
      using ref(2) [OF n] by blast+
    have "w_write K bs w = (Some (length bs), w\<lparr>w_kst := s', w_filp := f'\<rparr>)"
      using res n * len(2) by (simp add: w_write_def unat_size_of_nat)
    moreover have "world_good (w\<lparr>w_kst := s', w_filp := f'\<rparr>)"
      using w ref(1) * room_after_write [OF bs(2)] by (simp add: world_good_def peer_ok_def)
    ultimately show ?thesis using gr False * by simp
  qed
qed

lemma w_lseek_law:
  assumes w: "world_good w"
  shows "w_lseek 0 0 w = (0, w\<lparr>w_filp := (w_filp w)\<lparr>f_pos := 0\<rparr>\<rparr>)"
proof -
  have "mutex_unlock (w_kst w) = w_kst w" using w by (simp add: world_good_def peer_ok_def inv_free)
  then show ?thesis by (simp add: w_lseek_def aesd_seek_def Let_def)
qed

lemma w_ioctl_law:
  assumes w: "world_good w"
  shows "w_ioctl AESDCHAR_IOCSEEKTO arg w =
     (case seekto_spec (commands (w_kst w)) (unat (write_cmd arg)) (unat (write_cmd_offset arg)) of
        None \<Rightarrow> (- 1, w)
      | Some p \<Rightarrow> (0, w\<lparr>w_filp := (w_filp w)\<lparr>f_pos := word_of_nat p\<rparr>\<rparr>))"
proof -
  have "dev_inv (w_kst w)" "length (content (w_kst w)) < 2 ^ 63"
    using w by (simp_all add: world_good_def peer_ok_def room_device)
  from aesd_ioctl_ok [OF this, of all_ok AESDCHAR_IOCSEEKTO arg "w_filp w"] show ?thesis
    by (simp add: w_ioctl_def split: option.split)
qed

lemma seekto_in_content:
  assumes "seekto_spec cmds c off = Some p"
  shows "p < length (concat cmds)"
proof -
  from assms have c: "c < length cmds" "off < length (cmds ! c)"
    "p = length (concat (take c cmds)) + off"
    by (auto simp: seekto_spec_def split: if_splits)
  then have "concat cmds = concat (take c cmds) @ cmds ! c @ concat (drop (Suc c) cmds)"
    by (metis concat.simps(2) concat_append id_take_nth_drop)
  then have "length (concat cmds) = length (concat (take c cmds)) + length (cmds ! c) +
      length (concat (drop (Suc c) cmds))" by simp
  with c show ?thesis by simp
qed

text \<open>The driver serves a session as the contract says, whatever allocator it runs on.\<close>

lemma served_world:
  assumes K: "kernel_api_ok K"
  shows "served_store device_store (aesd_os K) cfd device_fd world_good (world_view K)"
proof unfold_locales
  fix w assume w: "world_good w"
  have inv: "dev_inv (w_kst w)" using w by (simp add: world_good_def peer_ok_def)
  have act: "w_active w" using w by (simp add: world_good_def peer_ok_def)
  show "\<exists>w'. os_active (aesd_os K) w = (True, w') \<and> world_good w' \<and> world_view K w' = world_view K w"
    using w act by (simp add: aesd_os_def)
  show "world_good (os_lock_file (aesd_os K) w) \<and> world_view K (os_lock_file (aesd_os K) w) = await (world_view K w)"
    using w by (simp add: aesd_os_def)
  show "world_good (os_lock_list (aesd_os K) w) \<and> world_view K (os_lock_list (aesd_os K) w) = world_view K w"
    using w by (simp add: aesd_os_def)
  show "\<exists>b w'. os_malloc (aesd_os K) n w = (Some b, w') \<and> length b = n \<and> world_good w' \<and>
      world_view K w' = world_view K w" for n
    using w by (simp add: aesd_os_def)
  show "\<exists>b w'. os_realloc (aesd_os K) buf n w = (Some b, w') \<and> length b = n \<and>
      take (length buf) b = buf \<and> world_good w' \<and> world_view K w' = world_view K w"
    if "length buf \<le> n" for buf n
    using w that by (simp add: aesd_os_def)
  show "\<exists>bs w'. os_recv (aesd_os K) cfd n w = (Some bs, w') \<and> bs \<noteq> [] \<and> length bs \<le> n \<and>
      world_good w' \<and> inbox (world_view K w) = bs @ inbox (world_view K w') \<and>
      world_view K w' = (world_view K w)\<lparr>inbox := inbox (world_view K w')\<rparr>"
    if n: "0 < n" and ne: "inbox (world_view K w) \<noteq> []" for n
  proof -
    have "peer_ok w" "concat (w_in w) \<noteq> []" using ne w by (simp_all add: world_view_def world_good_def)
    from w_recv_law [OF this(1) n this(2)] w show ?thesis
      by (auto simp: aesd_os_def world_view_def world_good_def)
  qed
  show "\<exists>w'. os_recv (aesd_os K) cfd n w = (Some [], w') \<and> world_good w' \<and> world_view K w' = world_view K w"
    if e: "inbox (world_view K w) = []" for n
  proof -
    have "w_in w = []" using e w peer_inbox [of w] by (simp add: world_view_def world_good_def)
    with w show ?thesis by (simp add: aesd_os_def w_recv_end)
  qed
  show "\<exists>n w'. os_write (aesd_os K) device_fd bs w = (Some n, w') \<and> 0 < n \<and> n \<le> length bs \<and> world_good w' \<and>
        inbox (world_view K w') = inbox (world_view K w) \<and> outbox (world_view K w') = outbox (world_view K w) \<and>
        waits (world_view K w') = waits (world_view K w) \<and> sdev (world_view K w') = st_write device_store (sdev (world_view K w)) (take n bs) \<and>
        (n < length bs \<longrightarrow> grants (world_view K w') (length bs - n))"
    if bs: "bs \<noteq> []" "st_room device_store (sdev (world_view K w)) bs" and g: "grants (world_view K w) (length bs)" for bs
  proof -
    have "room (device_of (w_kst w)) bs" using bs(2) by (simp add: world_view_def)
    from w_write_law [OF K w bs(1) this] g obtain w' where
      "w_write K bs w = (Some (length bs), w')" "world_good w'"
      "w_in w' = w_in w" "w_out w' = w_out w"
      "device_of (w_kst w') = write_spec (device_of (w_kst w)) bs" by auto
    with bs(1) show ?thesis
      by (intro exI [of _ "length bs"] exI [of _ w']) (simp add: aesd_os_def world_view_def)
  qed
  show "\<exists>w'. os_write (aesd_os K) device_fd bs w = (None, w') \<and> world_good w' \<and> world_view K w' = world_view K w"
    if bs: "bs \<noteq> []" "st_room device_store (sdev (world_view K w)) bs" and g: "\<not> grants (world_view K w) (length bs)" for bs
  proof -
    have "room (device_of (w_kst w)) bs" using bs(2) by (simp add: world_view_def)
    from w_write_law [OF K w bs(1) this] g w show ?thesis by (simp add: aesd_os_def)
  qed
  show "\<exists>w'. os_lseek (aesd_os K) device_fd 0 0 w = (0, w') \<and> world_good w' \<and>
      world_view K w' = (world_view K w)\<lparr>fpos := 0\<rparr>"
    using w by (simp add: aesd_os_def w_lseek_law [OF w] world_good_def peer_ok_def world_view_def)
  show "\<exists>r w'. os_ioctl (aesd_os K) device_fd AESDCHAR_IOCSEEKTO arg w = (r, w') \<and> world_good w' \<and>
      (case st_seek device_store (sdev (world_view K w)) (unat (write_cmd arg)) (unat (write_cmd_offset arg)) of
         None \<Rightarrow> r < 0 \<and> world_view K w' = world_view K w
       | Some p \<Rightarrow> r = 0 \<and> world_view K w' = (world_view K w)\<lparr>fpos := p\<rparr>)" for arg
  proof (cases "seekto_spec (commands (w_kst w)) (unat (write_cmd arg)) (unat (write_cmd_offset arg))")
    case None
    with w show ?thesis
      by (simp add: aesd_os_def w_ioctl_law [OF w]) (simp add: world_view_def device_of_def)
  next
    case (Some p)
    have "p < length (content (w_kst w))" using seekto_in_content [OF Some] by (simp add: content_def)
    moreover have "length (content (w_kst w)) < 2 ^ 63" using w by (simp add: world_good_def peer_ok_def room_device)
    ultimately have "unat (word_of_nat p :: size_t) = p" by (simp add: unat_size_of_nat)
    with w Some show ?thesis
      by (simp add: aesd_os_def w_ioctl_law [OF w] world_good_def peer_ok_def) (simp add: world_view_def device_of_def)
  qed
  show "\<exists>bs rest w'. os_read (aesd_os K) device_fd 1024 w = (Some bs, w') \<and> world_good w' \<and>
      world_view K w' = (world_view K w)\<lparr>fpos := fpos (world_view K w) + length bs\<rparr> \<and>
      drop (fpos (world_view K w)) (stored device_store (world_view K w)) = bs @ rest \<and> (bs = [] \<longrightarrow> rest = [])"
    using w_read_law [OF w, of K] unfolding device_store_simps stored_content by (simp add: aesd_os_def world_view_def)
  show "\<exists>n w'. os_send (aesd_os K) cfd bs w = (Some n, w') \<and> 0 < n \<and> n \<le> length bs \<and> world_good w' \<and>
      world_view K w' = (world_view K w)\<lparr>outbox := outbox (world_view K w) @ take n bs\<rparr>"
    if "bs \<noteq> []" for bs
    using w that by (simp add: aesd_os_def w_send_def Let_def world_good_def peer_ok_def world_view_def)
  show "\<exists>w'. os_open (aesd_os K) w = (device_fd, w') \<and> world_good w' \<and> world_view K w' = (world_view K w)\<lparr>fpos := 0\<rparr>"
    using w by (simp add: aesd_os_def w_open_def aesd_open_def world_good_def peer_ok_def world_view_def)
  show "world_good (os_close (aesd_os K) fd w) \<and> world_view K (os_close (aesd_os K) fd w) = world_view K w" for fd
    using w by (simp add: aesd_os_def)
qed simp

text \<open>What the contract gives, in the words of the driver's specification.\<close>

lemma sdev_updated: "sdev (v\<lparr>sdev := d\<rparr>) = d"
  by simp

lemmas driver_stores = served_store.client_stores [OF served_world, unfolded await_world device_store_simps sdev_updated]
lemmas driver_incomplete = served_store.client_incomplete [OF served_world, unfolded await_world device_store_simps]

lemma driver_seeks:
  assumes "kernel_api_ok K" "world_good (env st)" "\<not> file_held st" "wc < 2 ^ 32" "off < 2 ^ 32"
    "inbox (world_view K (env st)) = seekto_request wc off @ rest"
    "length (seekto_request wc off) \<le> fuel" "length (content (w_kst (env st))) + 2 \<le> fuel"
  shows "\<exists>st'. client_handler fuel (aesd_os K) cfd st = Some (Ret () st') \<and> world_good (env st') \<and>
     sdev (world_view K (env st')) = sdev (world_view K (env st)) \<and>
     outbox (world_view K (env st')) = outbox (world_view K (env st)) @
       (case seekto_spec (commands (w_kst (env st))) wc off of
          None \<Rightarrow> [] | Some p \<Rightarrow> drop p (content (w_kst (env st))))"
proof -
  have c: "fst (sdev (world_view K (env st))) = commands (w_kst (env st))"
    by (simp add: world_view_def device_of_def)
  from served_store.client_seeks [OF served_world [OF assms(1)] assms(2-7), unfolded await_world device_store_simps
      c, folded content_def, OF assms(8), of cfd] show ?thesis by (auto split: option.splits)
qed

interpretation session: served_store device_store "aesd_os first_fit" 4 device_fd world_good "world_view first_fit"
  by (rule served_world [OF first_fit_ok])

end
