(* ===== verification/Session_Properties.thy ===== *)
theory Session_Properties
  imports Session_World
begin

text \<open>
  What the server promises its clients and itself: theorems on \<open>client_handler\<close>,
  \<open>receive_data\<close> and \<open>send_data\<close>, for arbitrary behaviour of the calls, and end to end
  on the driver.
\<close>

section \<open>A concrete session\<close>

text \<open>
  A device with the two commands \<open>ab\<close>, \<open>cde\<close> and the partial command \<open>x\<close>, in blocks of
  the first-fit allocator, and a peer whose bytes arrive in the given pieces.
\<close>

definition served_kst :: kstate where
  "served_kst = \<lparr>heap = [17 \<mapsto> ''ab'' @ [newline], 18 \<mapsto> ''cde'' @ [newline], 19 \<mapsto> ''x''],
     dev = \<lparr>buffer = \<lparr>entry = \<lparr>buffptr = 17, size = 3\<rparr> # \<lparr>buffptr = 18, size = 4\<rparr> # replicate 8 null_entry,
              in_offs = 2, out_offs = 0, full = False\<rparr>,
            dev_entry = \<lparr>buffptr = 19, size = 1\<rparr>, mutex = False\<rparr>\<rparr>"

definition client :: "char list list \<Rightarrow> world thread_st" where
  "client segs = \<lparr>env = \<lparr>w_active = True, w_in = segs, w_out = [], w_window = 2, w_kst = served_kst,
       w_filp = \<lparr>f_pos = 0, private_data = 0\<rparr>\<rparr>,
     file_held = False, list_held = False, bufs = 0, open_fds = [4], thread_complete = 0\<rparr>"

lemma client_sel [simp]:
  "file_held (client segs) = False" "list_held (client segs) = False" "bufs (client segs) = 0"
  "open_fds (client segs) = [4]" "w_in (env (client segs)) = segs" "w_out (env (client segs)) = []"
  "w_kst (env (client segs)) = served_kst" "w_active (env (client segs))"
  by (simp_all add: client_def)

lemma served_view:
  "ring_view (buffer (dev served_kst)) = [\<lparr>buffptr = 17, size = 3\<rparr>, \<lparr>buffptr = 18, size = 4\<rparr>]"
  unfolding served_kst_def by code_simp

lemma served_inv: "dev_inv served_kst"
proof -
  have slots: "slots_ok (buffer (dev served_kst))"
  proof -
    have "entry (buffer (dev served_kst)) ! i = null_entry" if "2 \<le> i" "i < 10" for i
    proof -
      from that have "i = Suc (Suc (i - 2))" by simp
      then obtain j where "i = Suc (Suc j)" by blast
      with that show ?thesis by (simp add: served_kst_def nth_replicate del: replicate_Suc)
    qed
    then show ?thesis by (simp add: slots_ok_def served_kst_def)
  qed
  have "ring_wf (buffer (dev served_kst))" by (simp add: served_kst_def ring_wf_def)
  then show ?thesis using slots
    by (simp add: dev_inv_def served_view) (simp add: served_kst_def heap_ok_def cmd_ok_def work_ok_def)
qed

lemma served_device_of:
  "commands served_kst = [''ab'' @ [newline], ''cde'' @ [newline]]" "pending served_kst = ''x''"
  "content served_kst = ''ab'' @ newline # ''cde'' @ [newline]"
proof -
  show c: "commands served_kst = [''ab'' @ [newline], ''cde'' @ [newline]]"
    by (simp add: commands_def served_view) (simp add: served_kst_def block_def)
  show "pending served_kst = ''x''" by (simp add: pending_def served_kst_def block_def)
  show "content served_kst = ''ab'' @ newline # ''cde'' @ [newline]" by (simp add: content_def c)
qed

lemma client_good: "[] \<notin> set segs \<Longrightarrow> world_good (env (client segs))"
  using served_inv by (simp add: world_good_def peer_ok_def room_device served_device_of) (simp add: client_def)

section \<open>Every behaviour of the calls\<close>

text \<open>
  C7: whatever the socket, the device and the allocator do, a session that ends has released
  the file mutex and the list mutex, freed every buffer it allocated, closed the connection
  and the device and nothing else, and has reported its completion.
\<close>

theorem session_cleans_up:
  assumes "client_handler fuel os cfd st = Some (Ret () st')" "\<not> file_held st"
  shows "thread_complete st' = 1 \<and> \<not> file_held st' \<and> \<not> list_held st' \<and>
     bufs st' = bufs st \<and> open_fds st' = remove1 cfd (open_fds st)"
  using client_handler_clean [OF assms] by (simp add: session_clean_def)

lemma handled:
  "\<exists>st'. client_handler 40 (aesd_os first_fit) 4 (client [''h'', ''i'' @ newline # ''zz'']) = Some (Ret () st')"
proof -
  have "case client_handler 40 (aesd_os first_fit) 4 (client [''h'', ''i'' @ newline # ''zz'']) of
      Some (Ret u st') \<Rightarrow> True | _ \<Rightarrow> False"
    by code_simp
  then show ?thesis by (auto split: option.splits outcome.splits)
qed

theorem session_cleans_up_witness:
  "\<exists>st'. client_handler 40 (aesd_os first_fit) 4 (client [''h'', ''i'' @ newline # ''zz'']) = Some (Ret () st') \<and>
     thread_complete st' = 1 \<and> bufs st' = 0 \<and> open_fds st' = []"
proof -
  obtain st' where h: "client_handler 40 (aesd_os first_fit) 4 (client [''h'', ''i'' @ newline # ''zz'']) = Some (Ret () st')"
    using handled by blast
  from session_cleans_up [OF h] h show ?thesis by auto
qed

text \<open>
  C15: as long as \<open>malloc\<close>, \<open>realloc\<close> and \<open>recv\<close> respect the sizes they are given, receiving
  never touches a byte outside the receive buffer; the only undefined behaviour left is the
  doubling of \<open>buf_size\<close> past the range of \<open>int\<close> and the use of \<open>bytes_received\<close> before
  it is set.
\<close>

theorem receive_stays_in_buffer:
  assumes "os_sized os" "receive_data fuel os cfd ffd st = Some (Undefined u)"
  shows "u = Int_overflow \<or> u = Uninitialised"
  by (rule receive_data_bounded [OF assms])

text \<open>
  C34: \<open>bytes_received\<close> is read before it is set exactly when the server is already shutting
  down as the session enters its receive loop.
\<close>

theorem receive_uninitialised_iff:
  assumes "\<not> file_held st"
  shows "receive_data (Suc k) os cfd ffd st = Some (Undefined Uninitialised) \<longleftrightarrow>
     (\<exists>buf w. os_malloc os 1024 (env st) = (Some buf, w) \<and> \<not> fst (os_active os w))"
proof
  assume "\<exists>buf w. os_malloc os 1024 (env st) = (Some buf, w) \<and> \<not> fst (os_active os w)"
  then obtain buf w w1 where "os_malloc os 1024 (env st) = (Some buf, w)" "os_active os w = (False, w1)"
    by (metis prod.collapse)
  then show "receive_data (Suc k) os cfd ffd st = Some (Undefined Uninitialised)"
    by (simp add: receive_data_def)
qed (rule receive_data_uninitialised [OF _ assms])

definition stopped :: "world thread_st" where
  "stopped = (client [])\<lparr>env := (env (client []))\<lparr>w_active := False\<rparr>\<rparr>"

theorem receive_uninitialised_iff_witness:
  "receive_data (Suc 0) (aesd_os first_fit) 4 3 stopped = Some (Undefined Uninitialised)"
  using receive_uninitialised_iff [of stopped 0 "aesd_os first_fit" 4 3]
  by (simp add: aesd_os_def stopped_def client_def)

theorem receive_stays_in_buffer_witness:
  "os_sized (aesd_os first_fit) \<and>
   (\<exists>u. receive_data (Suc 0) (aesd_os first_fit) 4 3 stopped = Some (Undefined u) \<and>
     (u = Int_overflow \<or> u = Uninitialised))"
proof -
  have sized: "os_sized (aesd_os first_fit)"
    by (auto simp: os_sized_def aesd_os_def w_recv_def split: list.splits)
  have "receive_data (Suc 0) (aesd_os first_fit) 4 3 stopped = Some (Undefined Uninitialised)"
    by (simp add: receive_data_def aesd_os_def stopped_def client_def)
  with sized receive_stays_in_buffer [OF sized this] show ?thesis by blast
qed

section \<open>On the driver\<close>

text \<open>
  C1: a client that sends a line, in any pieces and with anything after it, on a driver in
  order: the session ends, and if the driver's allocation succeeds the line, after the bytes of a
  command left pending, is the newest of at most ten commands of the device and the client is
  sent the concatenation of all of them; if it fails, the device and the answer are as before.
  What follows the newline is not stored.
\<close>

theorem line_stored_and_answered:
  fixes st :: "world thread_st"
  defines "s \<equiv> w_kst (env st)"
  assumes K: "kernel_api_ok K" and w: "world_good (env st)" and free: "\<not> file_held st"
    and line: "newline \<notin> set line" "NUL \<notin> set line" "length line < 2 ^ 30 - 1"
      "take 19 line \<noteq> ''AESDCHAR_IOCSEEKTO:''"
    and inb: "concat (w_in (env st)) = line @ newline # rest"
    and rm: "length (content s) + length (pending s) + length line + 1 < 2 ^ 63"
    and q: "krealloc K (heap s) (work_ptr s) (length (pending s) + length line + 1) = Some (q, h)"
    and fuel: "2 * length line + 3 \<le> fuel"
      "length (content s) + length (pending s) + length line + 3 \<le> fuel"
  shows "\<exists>st'. client_handler fuel (aesd_os K) cfd st = Some (Ret () st') \<and>
     dev_inv (w_kst (env st')) \<and>
     (if q \<noteq> 0
      then commands (w_kst (env st')) = last_n 10 (commands s @ [pending s @ line @ [newline]]) \<and>
        pending (w_kst (env st')) = [] \<and>
        w_out (env st') = w_out (env st) @ content (w_kst (env st'))
      else commands (w_kst (env st')) = commands s \<and> pending (w_kst (env st')) = pending s \<and>
        w_out (env st') = w_out (env st))"
proof -
  let ?v = "world_view K (env st)" and ?p = "line @ [newline]"
  have v: "sdev ?v = device_of s" "outbox ?v = w_out (env st)" "inbox ?v = line @ newline # rest"
    "grants ?v (length line + 1) \<longleftrightarrow> q \<noteq> 0"
    using q inb by (simp_all add: world_view_def s_def add.assoc)
  have room: "room (sdev ?v) ?p" using rm v(1) by (simp add: room_device)
  have "length (concat (last_n 10 (commands s @ [pending s @ ?p]))) \<le>
      length (concat (commands s @ [pending s @ ?p]))"
    by (rule length_concat_last_n)
  then have f2: "length (concat (fst (write_spec (sdev ?v) ?p))) + 2 \<le> fuel"
    using fuel(2) by (simp add: v device_of_def content_def)
  from driver_stores [OF K w free line v(3) room fuel(1) f2, of cfd]
  obtain st' where st': "client_handler fuel (aesd_os K) cfd st = Some (Ret () st')" "world_good (env st')"
    "if q \<noteq> 0
      then sdev (world_view K (env st')) = write_spec (device_of s) ?p \<and>
        outbox (world_view K (env st')) = w_out (env st) @ concat (fst (sdev (world_view K (env st'))))
      else sdev (world_view K (env st')) = device_of s \<and>
        outbox (world_view K (env st')) = w_out (env st)"
    unfolding v by blast
  then show ?thesis
    unfolding stored_content by (auto simp: world_view_def device_of_def world_good_def peer_ok_def)
qed

theorem line_stored_and_answered_witness:
  "\<exists>st'. client_handler 40 (aesd_os first_fit) 4 (client [''h'', ''i'' @ newline # ''zz'']) = Some (Ret () st') \<and>
     w_out (env st') = ''ab'' @ newline # ''cde'' @ newline # ''xhi'' @ [newline]"
proof -
  have q: "krealloc first_fit (heap served_kst) (work_ptr served_kst) (length ''x'' + length ''hi'' + 1) =
      Some (20, (heap served_kst)(19 := None, 20 \<mapsto> ''x'' @ replicate 3 NUL))"
    by (simp add: first_fit_def first_fit_krealloc_def served_kst_def block_def upt_rec numeral_eq_Suc)
  have "\<exists>st'. client_handler 40 (aesd_os first_fit) 4 (client [''h'', ''i'' @ newline # ''zz'']) = Some (Ret () st') \<and>
     dev_inv (w_kst (env st')) \<and>
     commands (w_kst (env st')) = last_n 10 (commands served_kst @ [''x'' @ ''hi'' @ [newline]]) \<and>
     w_out (env st') = content (w_kst (env st'))"
    using line_stored_and_answered [OF first_fit_ok client_good [of "[''h'', ''i'' @ newline # ''zz'']"],
        of "''hi''" "''zz''" 20 _ 40 4] q
    by (auto simp: served_device_of)
  then show ?thesis by (auto simp: content_def served_device_of last_n_def)
qed

text \<open>
  C16: a client that sends a seek request is answered with the contents of the device from the
  byte it asked for to the end, or with nothing when there is no such command or byte; the
  device is unchanged.
\<close>

theorem seek_request_answered:
  fixes st :: "world thread_st"
  defines "s \<equiv> w_kst (env st)"
  assumes K: "kernel_api_ok K" and w: "world_good (env st)" and free: "\<not> file_held st"
    and n: "wc < 2 ^ 32" "off < 2 ^ 32"
    and inb: "concat (w_in (env st)) = seekto_request wc off @ rest"
    and fuel: "length (seekto_request wc off) \<le> fuel" "length (content s) + 2 \<le> fuel"
  shows "\<exists>st'. client_handler fuel (aesd_os K) cfd st = Some (Ret () st') \<and>
     dev_inv (w_kst (env st')) \<and> device_of (w_kst (env st')) = device_of s \<and>
     w_out (env st') = w_out (env st) @
       (if wc < length (commands s) \<and> off < length (commands s ! wc)
        then drop off (commands s ! wc) @ concat (drop (Suc wc) (commands s)) else [])"
proof -
  let ?v = "world_view K (env st)"
  have v: "sdev ?v = device_of s" "outbox ?v = w_out (env st)"
    "inbox ?v = seekto_request wc off @ rest" "concat (fst (device_of s)) = content s"
    using inb by (simp_all add: world_view_def s_def device_of_def content_def)
  from driver_seeks [OF K w free n v(3) fuel [unfolded s_def], of cfd]
  obtain st' where st': "client_handler fuel (aesd_os K) cfd st = Some (Ret () st')" "world_good (env st')"
    "sdev (world_view K (env st')) = device_of s"
    "outbox (world_view K (env st')) = w_out (env st) @
       (case seekto_spec (commands s) wc off of
          None \<Rightarrow> [] | Some p \<Rightarrow> drop p (content s))"
    unfolding v s_def [symmetric] by blast
  have "drop (length (concat (take wc (commands s))) + off) (content s) =
      drop off (commands s ! wc) @ concat (drop (Suc wc) (commands s))"
    if "wc < length (commands s)" "off < length (commands s ! wc)"
    using drop_concat_at [of wc "commands s" off] that
    by (simp add: content_def length_concat take_map)
  then have eq: "(case seekto_spec (commands s) wc off of None \<Rightarrow> [] | Some p \<Rightarrow> drop p (content s)) =
      (if wc < length (commands s) \<and> off < length (commands s ! wc)
        then drop off (commands s ! wc) @ concat (drop (Suc wc) (commands s)) else [])"
    by (simp add: seekto_spec_def)
  have "dev_inv (w_kst (env st'))" "device_of (w_kst (env st')) = device_of s"
    using st'(2,3) by (simp_all add: world_good_def peer_ok_def world_view_def)
  moreover have "w_out (env st') = outbox (world_view K (env st'))" by (simp add: world_view_def)
  ultimately show ?thesis using st'(1,4) unfolding eq by (intro exI [of _ st'] conjI) simp_all
qed

lemma request_text: "seekto_request 1 2 = ''AESDCHAR_IOCSEEKTO:1,2'' @ [newline]"
  by code_simp

theorem seek_request_answered_witness:
  "\<exists>st'. client_handler 60 (aesd_os first_fit) 4 (client [''AESDCHAR_IOC'', ''SEEKTO:1,2'' @ [newline]]) = Some (Ret () st') \<and>
     w_out (env st') = ''e'' @ [newline]"
proof -
  have "concat (w_in (env (client [''AESDCHAR_IOC'', ''SEEKTO:1,2'' @ [newline]]))) = seekto_request 1 2 @ []"
    unfolding request_text by simp
  from seek_request_answered [OF first_fit_ok client_good _ _ _ this, of 60 4]
  show ?thesis by (auto simp: served_device_of request_text [unfolded One_nat_def])
qed

text \<open>
  C25: a client that closes its side before the first newline, or whose first newline comes
  after a NUL byte, stores nothing, whatever it sent; it is answered with the contents of the
  device as they are.
\<close>

theorem incomplete_line_not_stored:
  fixes st :: "world thread_st"
  defines "s \<equiv> w_kst (env st)"
  assumes K: "kernel_api_ok K" and w: "world_good (env st)" and free: "\<not> file_held st"
    and inb: "newline \<notin> set (takeWhile (\<lambda>c. c \<noteq> NUL) (concat (w_in (env st))))"
      "length (concat (w_in (env st))) < 2 ^ 30 - 1"
    and fuel: "length (concat (w_in (env st))) < fuel" "length (content s) + 2 \<le> fuel"
  shows "\<exists>st'. client_handler fuel (aesd_os K) cfd st = Some (Ret () st') \<and>
     device_of (w_kst (env st')) = device_of s \<and>
     w_out (env st') = w_out (env st) @ content s"
proof -
  let ?v = "world_view K (env st)"
  have v: "sdev ?v = device_of s" "outbox ?v = w_out (env st)"
    "inbox ?v = concat (w_in (env st))" "concat (fst (device_of s)) = content s"
    by (simp_all add: world_view_def s_def device_of_def content_def)
  from driver_incomplete [OF K w free, of fuel, unfolded v]
  obtain st' where "client_handler fuel (aesd_os K) cfd st = Some (Ret () st')"
    "sdev (world_view K (env st')) = device_of s"
    "outbox (world_view K (env st')) = w_out (env st) @ content s"
    using inb fuel by blast
  then show ?thesis by (auto simp: world_view_def)
qed

theorem incomplete_line_not_stored_witness:
  "\<exists>st'. client_handler 30 (aesd_os first_fit) 4 (client [''hi'' @ NUL # ''yo'', newline # ''zz'']) = Some (Ret () st') \<and>
     w_out (env st') = ''ab'' @ newline # ''cde'' @ [newline] \<and> pending (w_kst (env st')) = ''x''"
  using incomplete_line_not_stored [OF first_fit_ok client_good [of "[''hi'' @ NUL # ''yo'', newline # ''zz'']"], of 30 4]
  by (auto simp: served_device_of device_of_def)

end
