(* ===== verification/Session_Streams.thy ===== *)
theory Session_Streams
  imports Session_Service
begin

text \<open>
  Whole sessions: the one specification of what any stream of bytes makes the server do to a
  store (\<open>session_spec\<close>), and the proof that every session ends as it says, under the
  contract of \<open>Session_Service\<close>.
\<close>

section \<open>What a stream of bytes asks for\<close>

text \<open>The first line and what follows its newline, unless a NUL or the end comes first.\<close>

definition first_packet :: "char list \<Rightarrow> (char list \<times> char list) option" where
  "first_packet s =
     (let line = takeWhile (\<lambda>c. c \<noteq> newline \<and> c \<noteq> NUL) s
      in case drop (length line) s of
           [] \<Rightarrow> None
         | c # rest \<Rightarrow> if c = newline then Some (line, rest) else None)"

lemma first_packet_split:
  "takeWhile (\<lambda>c. c \<noteq> newline \<and> c \<noteq> NUL) s @
     drop (length (takeWhile (\<lambda>c. c \<noteq> newline \<and> c \<noteq> NUL) s)) s = s"
  by (simp flip: dropWhile_eq_drop)

lemma first_packet_Some:
  assumes "first_packet s = Some (line, rest)"
  shows "s = line @ newline # rest" "newline \<notin> set line" "NUL \<notin> set line"
proof -
  define l where "l = takeWhile (\<lambda>c. c \<noteq> newline \<and> c \<noteq> NUL) s"
  from assms have "line = l" "drop (length l) s = newline # rest"
    by (auto simp: first_packet_def Let_def simp flip: l_def split: list.splits if_splits)
  then show "s = line @ newline # rest" using first_packet_split [of s] unfolding l_def by simp
  have "\<forall>c\<in>set l. c \<noteq> newline \<and> c \<noteq> NUL" unfolding l_def by (auto dest: set_takeWhileD)
  then show "newline \<notin> set line" "NUL \<notin> set line" using \<open>line = l\<close> by auto
qed

lemma first_packet_None:
  assumes "first_packet s = None"
  shows "newline \<notin> set (takeWhile (\<lambda>c. c \<noteq> NUL) s)"
proof -
  define l where "l = takeWhile (\<lambda>c. c \<noteq> newline \<and> c \<noteq> NUL) s"
  have s: "s = l @ drop (length l) s" unfolding l_def by (rule first_packet_split [symmetric])
  have l: "\<forall>c\<in>set l. c \<noteq> newline \<and> c \<noteq> NUL" unfolding l_def by (auto dest: set_takeWhileD)
  have "takeWhile (\<lambda>c. c \<noteq> NUL) s = l"
  proof (cases "drop (length l) s")
    case Nil
    then have "s = l" using s by (metis append_Nil2)
    then show ?thesis using l by (simp add: takeWhile_eq_all_conv)
  next
    case (Cons c rest)
    have len: "length l < length s" using arg_cong [OF Cons, of length] by simp
    then have "\<not> (s ! length l \<noteq> newline \<and> s ! length l \<noteq> NUL)"
      unfolding l_def by (rule nth_length_takeWhile)
    moreover have "s ! length l = c" using Cons len by (metis hd_drop_conv_nth list.sel(1))
    moreover have "c \<noteq> newline" using assms Cons by (auto simp: first_packet_def Let_def simp flip: l_def)
    ultimately have "c = NUL" by simp
    then have "s = l @ NUL # rest" using s Cons by metis
    then show ?thesis using l by (simp add: takeWhile_append)
  qed
  with l show ?thesis by auto
qed

text \<open>
  What is stored and what is sent when a session ends; \<open>extra\<close> are the bytes after the newline
  that arrived with it.
\<close>

definition session_spec :: "'s store \<Rightarrow> 's served \<Rightarrow> char list \<Rightarrow> 's \<times> char list" where
  "session_spec S v extra =
     (case first_packet (inbox v) of
        None \<Rightarrow> answer_spec S v 0
      | Some (line, rest) \<Rightarrow> line_result S v line extra)"

context served_store
begin

text \<open>Every session on a finite stream ends, as specified.\<close>

lemma client_answers:
  fixes st
  defines "v \<equiv> view (env st)"
  assumes g: "good (env st)" and free: "\<not> file_held st"
    and size: "length (inbox v) < 2 ^ 30 - 1" and rm: "st_room S (sdev (await v)) (inbox v)"
    and fuel: "2 * length (inbox v) + 3 \<le> fuel" "\<forall>extra. length (snd (session_spec S v extra)) + 2 \<le> fuel"
  shows "\<exists>st' extra. client_handler fuel os cfd st = Some (Ret () st') \<and> good (env st') \<and>
     (\<forall>line rest. first_packet (inbox v) = Some (line, rest) \<longrightarrow> (\<exists>r. rest = extra @ r)) \<and>
     (sdev (view (env st')), outbox (view (env st'))) =
       map_prod id ((@) (outbox v)) (session_spec S v extra)"
proof (cases "first_packet (inbox v)")
  case None
  have "length (inbox v) < fuel" "length (stored S (await v)) + 2 \<le> fuel"
    using fuel None by (simp_all add: session_spec_def answer_spec_def Let_def)
  from client_incomplete [OF g free, folded v_def, OF first_packet_None [OF None] size this]
  show ?thesis using None by (auto simp: session_spec_def answer_spec_def Let_def)
next
  case (Some p)
  obtain line rest where p: "p = (line, rest)" by (cases p)
  note l = first_packet_Some [OF Some [unfolded p]]
  have len: "length line < 2 ^ 30 - 1" "length line < fuel" "2 * length line + 3 \<le> fuel"
    using size fuel(1) l(1) by simp_all
  have "\<forall>extra. packet_request (packet_string line extra) = None \<longrightarrow>
      st_room S (sdev (await v)) (line @ [newline]) \<and> 2 * length line + 3 \<le> fuel"
    using room_prefix [of "sdev (await v)" "line @ [newline]" rest] rm len(3) l(1) by simp
  moreover have spec: "session_spec S v extra = line_result S v line extra" for extra
    using Some p by (simp add: session_spec_def)
  moreover have "\<forall>extra. length (snd (line_result S v line extra)) + 2 \<le> fuel"
    using fuel(2) unfolding spec by blast
  ultimately show ?thesis
    using client_line [OF g free l(2,3) len(1), folded v_def, OF l(1) len(2)] Some p by auto
qed

text \<open>A thread alone with the store: a bound on the answers.\<close>

lemma answer_size:
  assumes alone: "waits v = []"
  shows "length (snd (session_spec S v extra)) \<le> st_size S (sdev v) + length (inbox v)"
proof (cases "first_packet (inbox v)")
  case None
  with bytes_size [of "sdev v"] show ?thesis
    by (simp add: session_spec_def answer_spec_def Let_def await_alone [OF alone])
next
  case (Some p)
  obtain line rest where p: "p = (line, rest)" by (cases p)
  have "length line + 1 \<le> length (inbox v)" using first_packet_Some(1) [OF Some [unfolded p]] by simp
  moreover have "length (snd (line_result S v line extra)) \<le> st_size S (sdev v) + (length line + 1)"
    using bytes_size [of "sdev v"] write_size [of "sdev v" "line @ [newline]"]
    by (auto simp: line_result_def line_spec_def answer_spec_def Let_def await_alone alone split: option.split)
  ultimately show ?thesis using Some p by (simp add: session_spec_def)
qed

end

end
