(* ===== verification/Session_History.thy ===== *)
theory Session_History
  imports Session_World Session_Streams
begin

text \<open>
  Sessions on the driver: every stream of bytes ends as \<open>session_spec\<close> says, and clients served
  one after another on one device.
\<close>

section \<open>On the driver\<close>

lemma session_ends_on_driver:
  fixes st :: "world thread_st"
  defines "s \<equiv> w_kst (env st)" and "stream \<equiv> concat (w_in (env st))"
  assumes K: "kernel_api_ok K" and w: "world_good (env st)" and free: "\<not> file_held st"
    and size: "length stream < 2 ^ 30 - 1"
      "length (content s) + length (pending s) + length stream < 2 ^ 63"
    and fuel: "2 * length stream + 3 \<le> fuel"
      "length (content s) + length (pending s) + length stream + 3 \<le> fuel"
  shows "\<exists>st' extra. client_handler fuel (aesd_os K) cfd st = Some (Ret () st') \<and>
     dev_inv (w_kst (env st')) \<and>
     (\<forall>line rest. first_packet stream = Some (line, rest) \<longrightarrow> (\<exists>r. rest = extra @ r)) \<and>
     (device_of (w_kst (env st')), w_out (env st')) =
       map_prod id ((@) (w_out (env st))) (session_spec device_store (world_view K (env st)) extra)"
proof -
  let ?v = "world_view K (env st)"
  have v: "inbox ?v = stream" "sdev ?v = device_of s" "outbox ?v = w_out (env st)" "waits ?v = []"
    by (simp_all add: world_view_def stream_def s_def)
  have "st_room device_store (sdev (await ?v)) stream" using size(2) by (simp add: v(1,2) room_device)
  moreover have "\<forall>extra. length (snd (session_spec device_store ?v extra)) + 2 \<le> fuel"
  proof
    fix extra
    from served_store.answer_size [OF served_world [OF K, of cfd] v(4), of extra] fuel(2)
    show "length (snd (session_spec device_store ?v extra)) + 2 \<le> fuel"
      by (simp add: v(1,2) device_of_def content_def)
  qed
  ultimately obtain st' extra where c: "client_handler fuel (aesd_os K) cfd st = Some (Ret () st')" "world_good (env st')"
    "\<forall>line rest. first_packet stream = Some (line, rest) \<longrightarrow> (\<exists>r. rest = extra @ r)"
    "(sdev (world_view K (env st')), outbox (world_view K (env st'))) =
       map_prod id ((@) (outbox ?v)) (session_spec device_store ?v extra)"
    using served_store.client_answers [OF served_world [OF K, of cfd] w free, unfolded v(1), OF size(1) _ fuel(1)]
    by blast
  have "sdev (world_view K (env st')) = device_of (w_kst (env st'))"
    "outbox (world_view K (env st')) = w_out (env st')"
    by (simp_all add: world_view_def)
  with c v(3) show ?thesis
    by (intro exI [of _ st'] exI [of _ extra]) (simp add: world_good_def)
qed

section \<open>Clients one after another\<close>

text \<open>A thread at its start, on a device left by the clients before it.\<close>

definition new_thread :: "nat \<Rightarrow> kstate \<Rightarrow> char list list \<Rightarrow> world thread_st" where
  "new_thread window s segs =
     \<lparr>env = \<lparr>w_active = True, w_in = segs, w_out = [], w_window = window, w_kst = s,
        w_filp = \<lparr>f_pos = 0, private_data = 0\<rparr>\<rparr>,
      file_held = False, list_held = False, bufs = 0, open_fds = [4], thread_complete = 0\<rparr>"

text \<open>Each client is served to the end before the next one connects; the answers in their order.\<close>

fun run_clients :: "nat \<Rightarrow> kernel_api \<Rightarrow> nat \<Rightarrow> kstate \<Rightarrow> char list list list \<Rightarrow>
    (kstate \<times> char list list) option" where
  "run_clients fuel K window s [] = Some (s, [])"
| "run_clients fuel K window s (segs # later) =
     (case client_handler fuel (aesd_os K) 4 (new_thread window s segs) of
        Some (Ret _ st) \<Rightarrow>
          map_option (\<lambda>(s', as). (s', w_out (env st) # as)) (run_clients fuel K window (w_kst (env st)) later)
      | _ \<Rightarrow> None)"

text \<open>The lines for which the device had memory, as commands.\<close>

definition kept :: "(bool \<times> char list) list \<Rightarrow> char list list" where
  "kept ls = map (\<lambda>(ok, line). line @ [newline]) (filter fst ls)"

lemma kept_simps [simp]:
  "kept [] = []" "kept ((ok, line) # ls) = (if ok then [line @ [newline]] else []) @ kept ls"
  by (simp_all add: kept_def)

definition plain_line :: "char list \<Rightarrow> bool" where
  "plain_line line \<longleftrightarrow> newline \<notin> set line \<and> NUL \<notin> set line \<and> length line < 2 ^ 30 - 1 \<and>
     take 19 line \<noteq> ''AESDCHAR_IOCSEEKTO:''"

text \<open>One client on the driver, from \<open>client_stores\<close>.\<close>

lemma one_line_client:
  assumes K: "kernel_api_ok K" and inv: "dev_inv s" and pend: "pending s = []" and win: "0 < window"
    and segs: "[] \<notin> set segs" "concat segs = line @ newline # rest" and line: "plain_line line"
    and size: "length (content s) + length line + 1 < 2 ^ 63"
    and fuel: "2 * length line + 3 \<le> fuel" "length (content s) + length line + 3 \<le> fuel"
  shows "\<exists>st ok. client_handler fuel (aesd_os K) 4 (new_thread window s segs) = Some (Ret () st) \<and>
     dev_inv (w_kst (env st)) \<and> pending (w_kst (env st)) = [] \<and>
     commands (w_kst (env st)) = last_n 10 (commands s @ kept [(ok, line)]) \<and>
     w_out (env st) = (if ok then content (w_kst (env st)) else [])"
proof -
  let ?st = "new_thread window s segs"
  let ?v = "world_view K (env ?st)"
  have v: "sdev ?v = (commands s, [])" "outbox ?v = []" "inbox ?v = line @ newline # rest"
    using segs(2) pend by (simp_all add: world_view_def new_thread_def device_of_def)
  have good: "world_good (env ?st)"
    using inv win segs(1) size pend by (simp add: world_good_def peer_ok_def new_thread_def room_device)
  have l: "newline \<notin> set line" "NUL \<notin> set line" "length line < 2 ^ 30 - 1" "take 19 line \<noteq> ''AESDCHAR_IOCSEEKTO:''"
    using line by (simp_all add: plain_line_def)
  have room: "room (sdev ?v) (line @ [newline])" using size by (simp add: v room_def content_def)
  have "length (concat (last_n 10 (commands s @ [line @ [newline]]))) \<le> length (concat (commands s @ [line @ [newline]]))"
    by (rule length_concat_last_n)
  then have f2: "length (concat (fst (write_spec (sdev ?v) (line @ [newline])))) + 2 \<le> fuel"
    using fuel(2) by (simp add: v content_def)
  have free: "\<not> file_held ?st" by (simp add: new_thread_def)
  obtain st where st: "client_handler fuel (aesd_os K) 4 ?st = Some (Ret () st)" "world_good (env st)"
    "if grants ?v (length line + 1)
      then sdev (world_view K (env st)) = write_spec (sdev ?v) (line @ [newline]) \<and>
        outbox (world_view K (env st)) = outbox ?v @ content (w_kst (env st))
      else sdev (world_view K (env st)) = sdev ?v \<and> outbox (world_view K (env st)) = outbox ?v"
    using driver_stores [OF K good free l v(3) room fuel(1) f2] unfolding stored_content by blast
  have short: "last_n 10 (commands s) = commands s"
    using entry_count_le [OF inv_wf [OF inv]] by simp
  have dev: "sdev (world_view K (env st)) = (commands (w_kst (env st)), pending (w_kst (env st)))"
    "outbox (world_view K (env st)) = w_out (env st)"
    by (simp_all add: world_view_def device_of_def)
  have inv': "dev_inv (w_kst (env st))" using st(2) by (simp add: world_good_def peer_ok_def)
  show ?thesis
  proof (cases "grants ?v (length line + 1)")
    case True
    with st(3) v have "commands (w_kst (env st)) = last_n 10 (commands s @ [line @ [newline]])"
      "pending (w_kst (env st)) = []" "w_out (env st) = content (w_kst (env st))"
      unfolding dev stored_content by (simp_all add: content_def)
    with st(1) inv' show ?thesis by (intro exI [of _ st] exI [of _ True]) simp
  next
    case False
    with st(3) v have "commands (w_kst (env st)) = commands s" "pending (w_kst (env st)) = []" "w_out (env st) = []"
      unfolding dev by simp_all
    with st(1) inv' short show ?thesis by (intro exI [of _ st] exI [of _ False]) simp
  qed
qed

text \<open>The answer each of the clients gets on a device with the commands \<open>cmds\<close>.\<close>

fun answers_spec :: "char list list \<Rightarrow> (bool \<times> char list) list \<Rightarrow> char list list" where
  "answers_spec cmds [] = []"
| "answers_spec cmds ((ok, line) # ls) =
     (let cmds' = cmds @ kept [(ok, line)]
      in (if ok then concat (last_n 10 cmds') else []) # answers_spec cmds' ls)"

lemma answers_spec_last: "answers_spec (last_n 10 cmds) ls = answers_spec cmds ls"
proof (induction ls arbitrary: cmds)
  case Nil
  then show ?case by simp
next
  case (Cons l ls)
  obtain ok line where l: "l = (ok, line)" by (cases l)
  have "answers_spec (last_n 10 cmds @ kept [l]) ls = answers_spec (last_n 10 (last_n 10 cmds @ kept [l])) ls"
    by (simp add: Cons.IH)
  also have "\<dots> = answers_spec (cmds @ kept [l]) ls"
    unfolding last_n_append_last_n by (rule Cons.IH)
  finally have "answers_spec (last_n 10 cmds @ kept [l]) ls = answers_spec (cmds @ kept [l]) ls" .
  then show ?case unfolding l answers_spec.simps Let_def last_n_append_last_n by simp
qed

lemma length_answers [simp]: "length (answers_spec cmds ls) = length ls"
  by (induction cmds ls rule: answers_spec.induct) (simp_all add: Let_def)

lemma nth_answers:
  "k < length ls \<Longrightarrow> answers_spec cmds ls ! k =
     (if fst (ls ! k) then concat (last_n 10 (cmds @ kept (take (Suc k) ls))) else [])"
proof (induction cmds ls arbitrary: k rule: answers_spec.induct)
  case (1 cmds)
  then show ?case by simp
next
  case (2 cmds ok line ls)
  then show ?case by (cases k) (simp_all add: Let_def)
qed

text \<open>A client was stored exactly when it is answered.\<close>

lemma answered_iff_kept:
  "k < length ls \<Longrightarrow> answers_spec cmds ls ! k \<noteq> [] \<longleftrightarrow> fst (ls ! k)"
proof -
  assume k: "k < length ls"
  show ?thesis
  proof (cases "fst (ls ! k)")
    case True
    obtain line where "ls ! k = (True, line)" using True by (cases "ls ! k") auto
    then have "kept (take (Suc k) ls) = kept (take k ls) @ [line @ [newline]]"
      using k by (simp add: take_Suc_conv_app_nth kept_def)
    moreover obtain ys where "last_n 10 ((cmds @ kept (take k ls)) @ [line @ [newline]]) = ys @ [line @ [newline]]"
      using last_n_snoc [of 10 "cmds @ kept (take k ls)" "line @ [newline]"] by auto
    ultimately show ?thesis using True k by (simp add: nth_answers)
  qed (simp add: nth_answers k)
qed

lemma kept_of_answers: "zip (map (\<lambda>a. a \<noteq> []) (answers_spec cmds ls)) (map snd ls) = ls"
  by (rule nth_equalityI) (auto simp: answered_iff_kept prod_eq_iff)

text \<open>A stream that starts with the line, and the bytes all lines need.\<close>

definition sends :: "char list list \<Rightarrow> char list \<Rightarrow> bool" where
  "sends segs line \<longleftrightarrow> [] \<notin> set segs \<and> (\<exists>rest. concat segs = line @ newline # rest)"

abbreviation total :: "char list list \<Rightarrow> nat" where
  "total lines \<equiv> sum_list (map (\<lambda>line. length line + 1) lines)"

lemma run_clients_lines:
  assumes K: "kernel_api_ok K" and win: "0 < window"
  shows "list_all2 sends streams lines \<Longrightarrow> \<forall>line\<in>set lines. plain_line line \<Longrightarrow>
     dev_inv s \<Longrightarrow> pending s = [] \<Longrightarrow> length (content s) + total lines < 2 ^ 63 \<Longrightarrow>
     length (content s) + 2 * total lines + 2 \<le> fuel \<Longrightarrow>
     \<exists>s' ls. run_clients fuel K window s streams = Some (s', answers_spec (commands s) ls) \<and> map snd ls = lines \<and>
       dev_inv s' \<and> pending s' = [] \<and> commands s' = last_n 10 (commands s @ kept ls)"
proof (induction streams lines arbitrary: s rule: list_all2_induct)
  case Nil
  then have "commands s = last_n 10 (commands s)"
    using entry_count_le [OF inv_wf] by simp
  with Nil show ?case by (intro exI [of _ s] exI [of _ "[]"]) simp
next
  case (Cons segs streams line lines)
  obtain rest where segs: "[] \<notin> set segs" "concat segs = line @ newline # rest"
    using Cons.hyps(1) by (auto simp: sends_def)
  have line: "plain_line line" using Cons.prems(1) by simp
  have "length (content s) + length line + 1 < 2 ^ 63" "2 * length line + 3 \<le> fuel"
    "length (content s) + length line + 3 \<le> fuel"
    using Cons.prems(4,5) by simp_all
  from one_line_client [OF K Cons.prems(2,3) win segs line this] obtain st ok where
    st: "client_handler fuel (aesd_os K) 4 (new_thread window s segs) = Some (Ret () st)"
    "dev_inv (w_kst (env st))" "pending (w_kst (env st)) = []"
    "commands (w_kst (env st)) = last_n 10 (commands s @ kept [(ok, line)])"
    "w_out (env st) = (if ok then content (w_kst (env st)) else [])" by blast
  let ?s = "w_kst (env st)"
  have len: "length (content ?s) \<le> length (content s) + length line + 1"
    using length_concat_last_n [of 10 "commands s @ kept [(ok, line)]"]
    by (auto simp: content_def st(4))
  have "\<forall>line\<in>set lines. plain_line line" "length (content ?s) + total lines < 2 ^ 63"
    "length (content ?s) + 2 * total lines + 2 \<le> fuel"
    using Cons.prems(1,4,5) len by simp_all
  from Cons.IH [OF this(1) st(2,3) this(2,3)] obtain s' ls where
    r: "run_clients fuel K window ?s streams = Some (s', answers_spec (commands ?s) ls)" "map snd ls = lines"
    "dev_inv s'" "pending s' = []" "commands s' = last_n 10 (commands ?s @ kept ls)" by blast
  have c: "commands s' = last_n 10 (commands s @ kept ((ok, line) # ls))"
    unfolding r(5) st(4) last_n_append_last_n by simp
  have "answers_spec (commands ?s) ls = answers_spec (commands s @ kept [(ok, line)]) ls"
    unfolding st(4) by (rule answers_spec_last)
  then have "run_clients fuel K window s (segs # streams) = Some (s', answers_spec (commands s) ((ok, line) # ls))"
    using st(1,5) r(1) by (simp add: content_def st(4) Let_def)
  with r c show ?case by (intro exI [of _ s'] exI [of _ "(ok, line) # ls"]) simp
qed

end
