(* ===== verification/History_Properties.thy ===== *)
theory History_Properties
  imports Session_Properties Session_History
begin

text \<open>
  What the server promises over whole streams and over several clients: every session ends, a
  seek request is read back as it was printed, and clients served in turn see one history.
\<close>

section \<open>Every stream\<close>

text \<open>
  C11: a session on the driver ends whatever finite stream of bytes the peer sends, in whatever
  pieces, within a number of loop iterations linear in the stream and the device, as long as the
  stream does not make \<open>buf_size\<close> overflow.  The device and the answer are those of
  \<open>session_spec\<close>, for some beginning \<open>extra\<close> of what follows the first line.
\<close>

theorem session_ends:
  fixes st :: "world thread_st"
  defines "s \<equiv> w_kst (env st)" and "stream \<equiv> concat (w_in (env st))"
  assumes K: "kernel_api_ok K" and w: "world_good (env st)" and free: "\<not> file_held st"
    and size: "length stream < 2 ^ 30 - 1"
      "length (content s) + length (pending s) + length stream < 2 ^ 63"
    and fuel: "2 * length stream + 3 \<le> fuel"
      "length (content s) + length (pending s) + length stream + 3 \<le> fuel"
  shows "\<exists>st' extra. client_handler fuel (aesd_os K) cfd st = Some (Ret () st') \<and>
     dev_inv (w_kst (env st')) \<and>
     (\<forall>line rest. first_packet stream = Some (line, rest) \<longrightarrow> (\<exists>r. rest = extra @ r)) \<and>
     (device_of (w_kst (env st')), w_out (env st')) =
       map_prod id ((@) (w_out (env st))) (session_spec device_store (world_view K (env st)) extra)"
  unfolding s_def stream_def
  by (rule session_ends_on_driver [OF K w free size [unfolded s_def stream_def] fuel [unfolded s_def stream_def]])

theorem session_ends_witness:
  "\<exists>st'. client_handler 60 (aesd_os first_fit) 4 (client [''AESDCHAR_IOCSEEKTO:1,'' @ newline # ''2'']) =
       Some (Ret () st') \<and> dev_inv (w_kst (env st'))"
proof -
  have "world_good (env (client [''AESDCHAR_IOCSEEKTO:1,'' @ newline # ''2'']))"
    by (rule client_good) simp
  from session_ends [OF first_fit_ok this, of 60 4] show ?thesis
    by (auto simp: served_device_of)
qed

text \<open>
  C26: what a client prints as a seek request the server reads back: the three conversions of
  \<open>sscanf\<close> succeed with the name and the two numbers, whatever bytes follow the request in
  the buffer, and no line that lacks the request's name is taken for one.
\<close>

theorem seek_request_roundtrip:
  assumes "wc < 2 ^ 32" "off < 2 ^ 32"
  shows "map_option (\<lambda>(command, c, x). (command, unat c, unat x)) (sscanf_seekto (seekto_request wc off @ extra)) =
       Some (''AESDCHAR_IOCSEEKTO'', wc, off) \<and>
     (\<forall>s. take 19 s \<noteq> ''AESDCHAR_IOCSEEKTO:'' \<longrightarrow>
       (\<forall>c x. sscanf_seekto s \<noteq> Some (''AESDCHAR_IOCSEEKTO'', c, x)))"
proof
  show "map_option (\<lambda>(command, c, x). (command, unat c, unat x)) (sscanf_seekto (seekto_request wc off @ extra)) =
       Some (''AESDCHAR_IOCSEEKTO'', wc, off)"
    unfolding sscanf_seekto_request [OF assms]
    using assms by (simp add: unsigned_of_nat take_bit_nat_eq_self)
  show "\<forall>s. take 19 s \<noteq> ''AESDCHAR_IOCSEEKTO:'' \<longrightarrow>
       (\<forall>c x. sscanf_seekto s \<noteq> Some (''AESDCHAR_IOCSEEKTO'', c, x))"
    using is_seekto_prefix unfolding is_seekto_def by blast
qed

theorem seek_request_roundtrip_witness:
  "map_option (\<lambda>(command, c, x). (command, unat c, unat x)) (sscanf_seekto (seekto_request 4294967295 0 @ ''9'')) =
     Some (''AESDCHAR_IOCSEEKTO'', 4294967295, 0)"
  using seek_request_roundtrip [of 4294967295 0 "''9''"] by simp

text \<open>
  The \<open>extra\<close> bytes matter: on what follows the newline in the buffer \<open>sscanf\<close> reads on, so
  the same line is a seek request or a command depending on whether the next byte has arrived.
\<close>

lemma sscanf_reads_past_newline:
  "packet_request (packet_string ''AESDCHAR_IOCSEEKTO:1,'' ''2'') = Some (1, 2)"
  "packet_request (packet_string ''AESDCHAR_IOCSEEKTO:1,'' []) = None"
  by (simp_all add: packet_request_def packet_string_def sscanf_seekto_def scan_not_def scan_char_def
      scan_u_def is_space_def is_digit_def Let_def decimal_def digit_value_def strtoul_u32_def)

section \<open>Several clients\<close>

text \<open>
  C9: clients that connect one after another and each send a line, on a driver in order: every
  session ends; the lines stored are those of the clients that get an answer, the device keeps
  the last ten of them in the order of the clients, and an answer is the last ten lines up to
  and including the client's own.
\<close>

theorem clients_in_sequence:
  assumes K: "kernel_api_ok K" and win: "0 < window" and inv: "dev_inv s" "pending s = []"
    and streams: "list_all2 sends streams lines" "\<forall>line\<in>set lines. plain_line line"
    and size: "length (content s) + total lines < 2 ^ 63"
    and fuel: "length (content s) + 2 * total lines + 2 \<le> fuel"
  shows "\<exists>s' answers. run_clients fuel K window s streams = Some (s', answers) \<and> dev_inv s' \<and>
     length answers = length lines \<and>
     (let ls = zip (map (\<lambda>a. a \<noteq> []) answers) lines
      in commands s' = last_n 10 (commands s @ kept ls) \<and>
        (\<forall>k<length lines. answers ! k \<noteq> [] \<longrightarrow>
          answers ! k = concat (last_n 10 (commands s @ kept (take (Suc k) ls)))))"
proof -
  obtain s' ls where r: "run_clients fuel K window s streams = Some (s', answers_spec (commands s) ls)"
    "map snd ls = lines" "dev_inv s'" "commands s' = last_n 10 (commands s @ kept ls)"
    using run_clients_lines [OF K win streams inv size fuel] by blast
  have len: "length ls = length lines" using arg_cong [OF r(2), of length] by simp
  have "\<forall>k<length lines. answers_spec (commands s) ls ! k \<noteq> [] \<longrightarrow>
      answers_spec (commands s) ls ! k = concat (last_n 10 (commands s @ kept (take (Suc k) ls)))"
    using answered_iff_kept nth_answers len by simp
  with r(1,3,4) len show ?thesis
    using kept_of_answers [of "commands s" ls] unfolding r(2) Let_def by auto
qed

text \<open>A device with nothing pending, and two clients.\<close>

definition empty_kst :: kstate where
  "empty_kst = served_kst\<lparr>heap := (heap served_kst)(19 := None),
     dev := (dev served_kst)\<lparr>dev_entry := null_entry\<rparr>\<rparr>"

lemma empty_kst_ok: "dev_inv empty_kst" "pending empty_kst = []" "commands empty_kst = [''ab'' @ [newline], ''cde'' @ [newline]]"
proof -
  have view: "ring_view (buffer (dev empty_kst)) = ring_view (buffer (dev served_kst))"
    by (simp add: empty_kst_def)
  show "pending empty_kst = []" by (simp add: pending_def empty_kst_def null_entry_def served_kst_def block_def)
  show "commands empty_kst = [''ab'' @ [newline], ''cde'' @ [newline]]"
    by (simp add: commands_def view served_view) (simp add: empty_kst_def served_kst_def block_def)
  have "slots_ok (buffer (dev empty_kst))" "ring_wf (buffer (dev empty_kst))"
    using served_inv by (simp_all add: dev_inv_def empty_kst_def)
  then show "dev_inv empty_kst"
    by (simp add: dev_inv_def view served_view)
      (simp add: empty_kst_def served_kst_def heap_ok_def cmd_ok_def work_ok_def null_entry_def)
qed

theorem clients_in_sequence_witness:
  "\<exists>s' answers. run_clients 40 first_fit 2 empty_kst [[''hi'' @ [newline]], [''y'', ''o'' @ newline # ''u'']] =
     Some (s', answers) \<and> dev_inv s' \<and> length answers = 2"
proof -
  have 1: "list_all2 sends [[''hi'' @ [newline]], [''y'', ''o'' @ newline # ''u'']] [''hi'', ''yo'']"
    by (auto simp: sends_def)
  have 2: "\<forall>line\<in>set [''hi'', ''yo'']. plain_line line" by (simp add: plain_line_def)
  have 3: "length (content empty_kst) = 7" by (simp add: content_def empty_kst_ok)
  have "length [''hi'', ''yo''] = 2" "0 < (2::nat)" "length (content empty_kst) + total [''hi'', ''yo''] < 2 ^ 63"
    "length (content empty_kst) + 2 * total [''hi'', ''yo''] + 2 \<le> 40"
    by (simp_all add: 3)
  from clients_in_sequence [OF first_fit_ok this(2) empty_kst_ok(1,2) 1 2 this(3,4)] this(1)
  show ?thesis by (metis (lifting))
qed

end
