(* ===== verification/File_Sharing.thy ===== *)
theory File_Sharing
  imports Driver_Spec "HOL-Library.Sublist"
begin

text \<open>
  How the sessions of \<^verbatim>\<open>server/aesdsocket.c\<close> interleave on the device: the client threads as
  a step relation around \<open>file_mutex\<close>.  A step is one call on the device or the socket
  together with the lock operations next to it; between two steps any other thread may run.
  The device is the specification of \<open>Driver_Spec\<close>, which the driver implements one call at a
  time under its own mutex.
\<close>

section \<open>The states\<close>

text \<open>What a client sends: a packet, a seek request, or nothing complete before it closes.\<close>

datatype request = Line "char list" | Seek nat nat | Hangup

text \<open>
  Where a thread is: before its packet; inside the write loop with so many bytes written, or before the
  \<open>ioctl\<close>, with the mutex; before \<open>lseek\<close>; before the mutex of \<open>send_data\<close>, with its file
  position; at the \<open>read\<close> of the read loop and sending what was read there, with the mutex and
  its position; done.
\<close>

datatype client_pc =
    Start | Writing nat | Seeking | Rewinding | Ready nat | Reading nat | Sending nat "char list"
  | Finished | Failed

text \<open>
  \<open>attempts\<close> records, in the order in which they released the mutex, what each writer has
  stored; no step reads it.
\<close>

record sharing =
  file_mutex :: "nat option"
  shared :: device
  cpc :: "nat \<Rightarrow> client_pc"
  sent :: "nat \<Rightarrow> char list"
  attempts :: "(nat \<times> char list) list"

definition sharing_start :: "device \<Rightarrow> sharing" where
  "sharing_start d =
     \<lparr>file_mutex = None, shared = d, cpc = (\<lambda>_. Start), sent = (\<lambda>_. []), attempts = []\<rparr>"

abbreviation contents :: "device \<Rightarrow> char list" where
  "contents d \<equiv> concat (fst d)"

section \<open>The steps\<close>

text \<open>
  A complete packet: written under the mutex, or the position moved under it.  Any call may
  fail; an \<open>ioctl\<close> succeeds only for a command the device holds.
\<close>

inductive packet_step :: "(nat \<Rightarrow> request) \<Rightarrow> sharing \<Rightarrow> sharing \<Rightarrow> bool" for rq where
  lock_write: "cpc s i = Start \<Longrightarrow> rq i = Line p \<Longrightarrow> file_mutex s = None \<Longrightarrow>
    packet_step rq s (s\<lparr>file_mutex := Some i, cpc := (cpc s)(i := Writing 0)\<rparr>)"
| write_some: "cpc s i = Writing n \<Longrightarrow> rq i = Line p \<Longrightarrow> 0 < m \<Longrightarrow> n + m \<le> length p \<Longrightarrow>
    packet_step rq s (s\<lparr>shared := write_spec (shared s) (take m (drop n p)),
      cpc := (cpc s)(i := Writing (n + m))\<rparr>)"
| write_fails: "cpc s i = Writing n \<Longrightarrow> rq i = Line p \<Longrightarrow> n < length p \<Longrightarrow>
    packet_step rq s (s\<lparr>file_mutex := None, cpc := (cpc s)(i := Failed),
      attempts := attempts s @ [(i, take n p)]\<rparr>)"
| write_done: "cpc s i = Writing (length p) \<Longrightarrow> rq i = Line p \<Longrightarrow>
    packet_step rq s (s\<lparr>file_mutex := None, cpc := (cpc s)(i := Rewinding),
      attempts := attempts s @ [(i, p)]\<rparr>)"
| lock_seek: "cpc s i = Start \<Longrightarrow> rq i = Seek wc off \<Longrightarrow> file_mutex s = None \<Longrightarrow>
    packet_step rq s (s\<lparr>file_mutex := Some i, cpc := (cpc s)(i := Seeking)\<rparr>)"
| seek_moves: "cpc s i = Seeking \<Longrightarrow> rq i = Seek wc off \<Longrightarrow>
    seekto_spec (fst (shared s)) wc off = Some pos \<Longrightarrow>
    packet_step rq s (s\<lparr>file_mutex := None, cpc := (cpc s)(i := Ready pos)\<rparr>)"
| seek_fails: "cpc s i = Seeking \<Longrightarrow> rq i = Seek wc off \<Longrightarrow>
    packet_step rq s (s\<lparr>file_mutex := None, cpc := (cpc s)(i := Failed)\<rparr>)"

text \<open>The end of \<open>receive_data\<close> without a seek, after a packet or a closed connection.\<close>

inductive rewind_step :: "(nat \<Rightarrow> request) \<Rightarrow> sharing \<Rightarrow> sharing \<Rightarrow> bool" for rq where
  hangup: "cpc s i = Start \<Longrightarrow> rq i = Hangup \<Longrightarrow> rewind_step rq s (s\<lparr>cpc := (cpc s)(i := Rewinding)\<rparr>)"
| rewind: "cpc s i = Rewinding \<Longrightarrow> rewind_step rq s (s\<lparr>cpc := (cpc s)(i := Ready 0)\<rparr>)"
| rewind_fails: "cpc s i = Rewinding \<Longrightarrow> rewind_step rq s (s\<lparr>cpc := (cpc s)(i := Failed)\<rparr>)"

text \<open>
  \<open>send_data\<close>, which may get no memory for its buffer.  The peers in \<open>stalled\<close> have stopped reading: a \<open>send\<close> to them does not return.
\<close>

inductive send_step :: "nat set \<Rightarrow> sharing \<Rightarrow> sharing \<Rightarrow> bool" for stalled where
  lock_send: "cpc s i = Ready pos \<Longrightarrow> file_mutex s = None \<Longrightarrow>
    send_step stalled s (s\<lparr>file_mutex := Some i, cpc := (cpc s)(i := Reading pos)\<rparr>)"
| send_refused: "cpc s i = Ready pos \<Longrightarrow> send_step stalled s (s\<lparr>cpc := (cpc s)(i := Failed)\<rparr>)"
| read_chunk: "cpc s i = Reading pos \<Longrightarrow> bs \<noteq> [] \<Longrightarrow> drop pos (contents (shared s)) = bs @ rest \<Longrightarrow>
    send_step stalled s (s\<lparr>cpc := (cpc s)(i := Sending pos bs)\<rparr>)"
| read_end: "cpc s i = Reading pos \<Longrightarrow> drop pos (contents (shared s)) = [] \<Longrightarrow>
    send_step stalled s (s\<lparr>file_mutex := None, cpc := (cpc s)(i := Finished)\<rparr>)"
| read_fails: "cpc s i = Reading pos \<Longrightarrow>
    send_step stalled s (s\<lparr>file_mutex := None, cpc := (cpc s)(i := Failed)\<rparr>)"
| send_chunk: "cpc s i = Sending pos bs \<Longrightarrow> i \<notin> stalled \<Longrightarrow>
    send_step stalled s (s\<lparr>cpc := (cpc s)(i := Reading (pos + length bs)),
      sent := (sent s)(i := sent s i @ bs)\<rparr>)"
| send_fails: "cpc s i = Sending pos (bs @ bs') \<Longrightarrow> i \<notin> stalled \<Longrightarrow>
    send_step stalled s (s\<lparr>file_mutex := None, cpc := (cpc s)(i := Failed),
      sent := (sent s)(i := sent s i @ bs)\<rparr>)"

inductive share_step :: "(nat \<Rightarrow> request) \<Rightarrow> nat set \<Rightarrow> sharing \<Rightarrow> sharing \<Rightarrow> bool" for rq stalled where
  packet: "packet_step rq s t \<Longrightarrow> share_step rq stalled s t"
| rewinds: "rewind_step rq s t \<Longrightarrow> share_step rq stalled s t"
| sends: "send_step stalled s t \<Longrightarrow> share_step rq stalled s t"

abbreviation share_steps :: "(nat \<Rightarrow> request) \<Rightarrow> nat set \<Rightarrow> sharing \<Rightarrow> sharing \<Rightarrow> bool" where
  "share_steps rq stalled \<equiv> (share_step rq stalled)\<^sup>*\<^sup>*"

inductive_cases share_stepE: "share_step rq stalled s t"

section \<open>The invariant\<close>

text \<open>The program points at which a thread holds \<open>file_mutex\<close>.\<close>

fun holds :: "client_pc \<Rightarrow> bool" where
  "holds (Writing _) = True"
| "holds Seeking = True"
| "holds (Reading _) = True"
| "holds (Sending _ _) = True"
| "holds _ = False"

text \<open>The device after the given attempts.\<close>

definition device_after :: "device \<Rightarrow> (nat \<times> char list) list \<Rightarrow> device" where
  "device_after d h = foldl write_spec d (map snd h)"

lemma device_after_simps [simp]:
  "device_after d [] = d" "device_after d (h @ [(i, bs)]) = write_spec (device_after d h) bs"
  by (simp_all add: device_after_def)

text \<open>Whole packets follow each other as commands.\<close>

lemma device_after_packets:
  "\<forall>bs\<in>set (map snd h). newline \<in> set bs \<Longrightarrow> snd d = [] \<Longrightarrow> length (fst d) \<le> 10 \<Longrightarrow>
     device_after d h = (last_n 10 (fst d @ map snd h), [])"
proof (induction h rule: rev_induct)
  case Nil
  then show ?case by (cases d) simp
next
  case (snoc x h)
  obtain i bs where x: "x = (i, bs)" by (cases x)
  have "device_after d h = (last_n 10 (fst d @ map snd h), [])" "newline \<in> set bs"
    using snoc x by simp_all
  then show ?case using last_n_append_last_n [of 10 "fst d @ map snd h" "[bs]"] by (simp add: x)
qed

text \<open>What the thread in the write loop has written so far.\<close>

definition in_progress :: "(nat \<Rightarrow> request) \<Rightarrow> sharing \<Rightarrow> char list" where
  "in_progress rq s =
     (case file_mutex s of
        None \<Rightarrow> []
      | Some i \<Rightarrow> (case (cpc s i, rq i) of (Writing n, Line p) \<Rightarrow> take n p | _ \<Rightarrow> []))"

text \<open>The position from which a client may be answered, after the attempts \<open>h\<close>.\<close>

definition start_ok :: "device \<Rightarrow> (nat \<Rightarrow> request) \<Rightarrow> (nat \<times> char list) list \<Rightarrow> nat \<Rightarrow> nat \<Rightarrow> bool" where
  "start_ok d rq h i pos =
     (case rq i of
        Line p \<Rightarrow> pos = 0 \<and> (i, p) \<in> set h
      | Seek wc off \<Rightarrow> (\<exists>h0. prefix h0 h \<and> seekto_spec (fst (device_after d h0)) wc off = Some pos)
      | Hangup \<Rightarrow> pos = 0)"

fun client_ok :: "device \<Rightarrow> (nat \<Rightarrow> request) \<Rightarrow> (nat \<times> char list) list \<Rightarrow> nat \<Rightarrow> char list \<Rightarrow> client_pc \<Rightarrow> bool" where
  "client_ok d rq h i out Start \<longleftrightarrow> i \<notin> fst ` set h \<and> out = []"
| "client_ok d rq h i out (Writing n) \<longleftrightarrow>
     i \<notin> fst ` set h \<and> out = [] \<and> (\<exists>p. rq i = Line p \<and> n \<le> length p)"
| "client_ok d rq h i out Seeking \<longleftrightarrow> out = [] \<and> (\<exists>wc off. rq i = Seek wc off)"
| "client_ok d rq h i out Rewinding \<longleftrightarrow> out = [] \<and> start_ok d rq h i 0"
| "client_ok d rq h i out (Ready pos) \<longleftrightarrow> out = [] \<and> start_ok d rq h i pos"
| "client_ok d rq h i out (Reading pos) \<longleftrightarrow>
     (\<exists>st. start_ok d rq h i st \<and>
       out @ drop pos (contents (device_after d h)) = drop st (contents (device_after d h)))"
| "client_ok d rq h i out (Sending pos bs) \<longleftrightarrow>
     (\<exists>st rest. start_ok d rq h i st \<and> bs \<noteq> [] \<and> drop pos (contents (device_after d h)) = bs @ rest \<and>
       out @ bs @ rest = drop st (contents (device_after d h)))"
| "client_ok d rq h i out Finished \<longleftrightarrow>
     (\<exists>h1 st. prefix h1 h \<and> start_ok d rq h1 i st \<and> out = drop st (contents (device_after d h1)))"
| "client_ok d rq h i out Failed \<longleftrightarrow> True"

definition attempts_ok :: "(nat \<Rightarrow> request) \<Rightarrow> sharing \<Rightarrow> bool" where
  "attempts_ok rq s \<longleftrightarrow>
     distinct (map fst (attempts s)) \<and>
     (\<forall>i bs. (i, bs) \<in> set (attempts s) \<longrightarrow>
       (\<exists>p. rq i = Line p \<and> prefix bs p \<and> (bs = p \<or> cpc s i = Failed)))"

definition share_inv :: "device \<Rightarrow> (nat \<Rightarrow> request) \<Rightarrow> sharing \<Rightarrow> bool" where
  "share_inv d rq s \<longleftrightarrow>
     (\<forall>i. file_mutex s = Some i \<longleftrightarrow> holds (cpc s i)) \<and>
     shared s = write_spec (device_after d (attempts s)) (in_progress rq s) \<and>
     attempts_ok rq s \<and>
     (\<forall>i. client_ok d rq (attempts s) i (sent s i) (cpc s i))"

text \<open>A packet is a line with its newline.\<close>

definition packets :: "(nat \<Rightarrow> request) \<Rightarrow> bool" where
  "packets rq \<longleftrightarrow> (\<forall>i p. rq i = Line p \<longrightarrow> (\<exists>line. p = line @ [newline] \<and> newline \<notin> set line))"

lemma write_nothing [simp]: "write_spec d [] = d"
  by (cases d) simp

lemma write_spec_parts:
  "newline \<notin> set xs \<Longrightarrow> write_spec (write_spec d xs) ys = write_spec d (xs @ ys)"
  by (cases d) auto

lemma packet_part:
  assumes "packets rq" "rq i = Line p" "n < length p"
  shows "newline \<notin> set (take n p)"
proof -
  obtain line where "p = line @ [newline]" "newline \<notin> set line"
    using assms(1,2) by (auto simp: packets_def)
  with assms(3) show ?thesis by (auto dest: in_set_takeD)
qed

lemma start_ok_mono: "start_ok d rq h i pos \<Longrightarrow> prefix h h' \<Longrightarrow> start_ok d rq h' i pos"
  by (auto simp: start_ok_def split: request.splits dest: set_mono_prefix intro: prefix_order.trans)

text \<open>Another thread's attempt does not touch a client that does not hold the mutex.\<close>

lemma client_ok_later:
  assumes "client_ok d rq h j out c" "\<not> holds c" "i \<noteq> j"
  shows "client_ok d rq (h @ [(i, bs)]) j out c"
proof (cases c)
  case Finished
  with assms show ?thesis by (auto intro: prefix_order.trans)
qed (use assms in \<open>auto intro: start_ok_mono\<close>)

lemma share_invD:
  assumes "share_inv d rq s"
  shows inv_mutex: "file_mutex s = Some i \<longleftrightarrow> holds (cpc s i)"
    and inv_device: "shared s = write_spec (device_after d (attempts s)) (in_progress rq s)"
    and inv_attempts: "attempts_ok rq s"
    and inv_client: "client_ok d rq (attempts s) i (sent s i) (cpc s i)"
  using assms by (simp_all add: share_inv_def)

text \<open>A holder shuts everyone else out.\<close>

lemma inv_others: "share_inv d rq s \<Longrightarrow> holds (cpc s i) \<Longrightarrow> j \<noteq> i \<Longrightarrow> \<not> holds (cpc s j)"
  using inv_mutex [of d rq s i] inv_mutex [of d rq s j] by auto

lemma inv_free: "share_inv d rq s \<Longrightarrow> file_mutex s = None \<Longrightarrow> \<not> holds (cpc s j)"
  using inv_mutex [of d rq s j] by auto

text \<open>A holder that is not writing sees the device as the attempts have left it.\<close>

lemma inv_holder:
  assumes "share_inv d rq s" "holds (cpc s i)" "\<forall>n. cpc s i \<noteq> Writing n"
  shows "file_mutex s = Some i" "shared s = device_after d (attempts s)" "in_progress rq s = []"
proof -
  show m: "file_mutex s = Some i" using inv_mutex [OF assms(1), of i] assms(2) by simp
  then show p: "in_progress rq s = []"
    using assms(3) by (cases "cpc s i") (simp_all add: in_progress_def)
  show "shared s = device_after d (attempts s)" using inv_device [OF assms(1)] p by simp
qed

text \<open>A writer has put so much of its packet on top of that.\<close>

lemma inv_writer:
  assumes "share_inv d rq s" "cpc s i = Writing n" "rq i = Line p"
  shows "file_mutex s = Some i" "shared s = write_spec (device_after d (attempts s)) (take n p)"
    "i \<notin> fst ` set (attempts s)" "sent s i = []" "n \<le> length p"
proof -
  show m: "file_mutex s = Some i" using inv_mutex [OF assms(1), of i] assms(2) by simp
  then have "in_progress rq s = take n p" using assms(2,3) by (simp add: in_progress_def)
  then show "shared s = write_spec (device_after d (attempts s)) (take n p)"
    using inv_device [OF assms(1)] by simp
  show "i \<notin> fst ` set (attempts s)" "sent s i = []" "n \<le> length p"
    using inv_client [OF assms(1), of i] assms(2,3) by auto
qed

text \<open>Nobody holds the mutex: only whole attempts are on the device.\<close>

lemma inv_unheld:
  assumes "share_inv d rq s" "file_mutex s = None"
  shows "shared s = device_after d (attempts s)" "in_progress rq s = []"
  using inv_device [OF assms(1)] assms(2) by (simp_all add: in_progress_def)

lemma share_inv_start: "share_inv d rq (sharing_start d)"
  by (simp add: share_inv_def sharing_start_def attempts_ok_def in_progress_def)

text \<open>
  A step of the thread \<open>i\<close> that leaves the record of attempts alone, or adds its own, needs only be looked at
  for that thread.
\<close>

lemma share_inv_local:
  assumes inv: "share_inv d rq s"
    and cpc: "cpc t = (cpc s)(i := c)" and sent: "\<forall>j. j \<noteq> i \<longrightarrow> sent t j = sent s j"
    and mutex: "file_mutex t = (if holds c then Some i else None)"
    and alone: "file_mutex s = None \<or> file_mutex s = Some i"
    and dev: "shared t = write_spec (device_after d (attempts t)) (in_progress rq t)"
    and own: "client_ok d rq (attempts t) i (sent t i) c"
    and hist: "attempts t = attempts s \<and> cpc s i \<noteq> Failed \<or>
      (\<exists>bs p. attempts t = attempts s @ [(i, bs)] \<and> i \<notin> fst ` set (attempts s) \<and> rq i = Line p \<and>
        prefix bs p \<and> (bs = p \<or> c = Failed))"
  shows "share_inv d rq t"
proof -
  have others: "\<not> holds (cpc s j)" if "j \<noteq> i" for j
    using alone that inv_mutex [OF inv, of j] by auto
  have "\<forall>j. file_mutex t = Some j \<longleftrightarrow> holds (cpc t j)"
    using mutex others by (auto simp: cpc split: if_splits)
  moreover have "attempts_ok rq t"
    using hist
  proof
    assume "attempts t = attempts s \<and> cpc s i \<noteq> Failed"
    with inv_attempts [OF inv] show ?thesis unfolding attempts_ok_def cpc by auto
  next
    have no: "(i, bs) \<notin> set (attempts s)" if "i \<notin> fst ` set (attempts s)" for bs using that by force
    assume "\<exists>bs p. attempts t = attempts s @ [(i, bs)] \<and> i \<notin> fst ` set (attempts s) \<and> rq i = Line p \<and>
      prefix bs p \<and> (bs = p \<or> c = Failed)"
    with inv_attempts [OF inv] no show ?thesis unfolding attempts_ok_def cpc by auto
  qed
  moreover have "client_ok d rq (attempts t) j (sent t j) (cpc t j)" for j
  proof (cases "j = i")
    case True
    with own show ?thesis by (simp add: cpc)
  next
    case False
    with hist client_ok_later [OF inv_client [OF inv, of j] others [OF False]] inv_client [OF inv, of j]
    show ?thesis by (auto simp: cpc sent)
  qed
  ultimately show ?thesis using dev by (simp add: share_inv_def)
qed

text \<open>A step of a thread outside the mutex.\<close>

lemma share_inv_quiet:
  assumes inv: "share_inv d rq s" and out: "\<not> holds (cpc s i)" "\<not> holds c" "cpc s i \<noteq> Failed"
    and own: "client_ok d rq (attempts s) i (sent s i) c"
  shows "share_inv d rq (s\<lparr>cpc := (cpc s)(i := c)\<rparr>)"
proof -
  let ?t = "s\<lparr>cpc := (cpc s)(i := c)\<rparr>"
  have "file_mutex s \<noteq> Some i" using inv_mutex [OF inv, of i] out(1) by simp
  then have "in_progress rq ?t = in_progress rq s"
    by (auto simp: in_progress_def split: option.split)
  moreover have "attempts_ok rq ?t" using inv_attempts [OF inv] out(3) by (auto simp: attempts_ok_def)
  ultimately show ?thesis using inv out own by (auto simp: share_inv_def)
qed

lemma share_inv_packet:
  assumes "packet_step rq s t" "share_inv d rq s" "packets rq"
  shows "share_inv d rq t"
  using assms
proof (induction rule: packet_step.induct)
  case (lock_write s i p)
  with inv_client [OF lock_write(4), of i] inv_unheld [OF lock_write(4,3)] show ?case
    by (intro share_inv_local [OF lock_write(4), where i = i and c = "Writing 0"])
      (auto simp: in_progress_def)
next
  case (write_some s i n p m)
  note w = inv_writer [OF write_some(5,1,2)]
  have "newline \<notin> set (take n p)" using packet_part [OF write_some(6,2)] write_some(3,4) by simp
  then have "write_spec (shared s) (take m (drop n p)) = write_spec (device_after d (attempts s)) (take (n + m) p)"
    unfolding w(2) by (simp add: write_spec_parts take_add)
  with write_some w show ?case
    by (intro share_inv_local [OF write_some(5), where i = i and c = "Writing (n + m)"])
      (auto simp: in_progress_def)
next
  case (write_fails s i n p)
  with inv_writer [OF write_fails(4,1,2)] show ?case
    by (intro share_inv_local [OF write_fails(4), where i = i and c = Failed])
      (auto simp: in_progress_def take_is_prefix)
next
  case (write_done s i p)
  with inv_writer [OF write_done(3,1,2)] show ?case
    by (intro share_inv_local [OF write_done(3), where i = i and c = Rewinding])
      (auto simp: in_progress_def start_ok_def)
next
  case (lock_seek s i wc off)
  with inv_client [OF lock_seek(4), of i] inv_unheld [OF lock_seek(4,3)] show ?case
    by (intro share_inv_local [OF lock_seek(4), where i = i and c = Seeking])
      (auto simp: in_progress_def)
next
  case (seek_moves s i wc off pos)
  have h: "file_mutex s = Some i" "shared s = device_after d (attempts s)"
    using inv_holder [OF seek_moves(4), of i] seek_moves(1) by simp_all
  then have "start_ok d rq (attempts s) i pos" using seek_moves(2,3) by (auto simp: start_ok_def)
  with seek_moves h inv_client [OF seek_moves(4), of i] show ?case
    by (intro share_inv_local [OF seek_moves(4), where i = i and c = "Ready pos"])
      (auto simp: in_progress_def)
next
  case (seek_fails s i wc off)
  with inv_holder [OF seek_fails(3), of i] show ?case
    by (intro share_inv_local [OF seek_fails(3), where i = i and c = Failed])
      (auto simp: in_progress_def)
qed

lemma share_inv_rewind:
  assumes "rewind_step rq s t" "share_inv d rq s"
  shows "share_inv d rq t"
  using assms
proof (induction rule: rewind_step.induct)
  case (hangup s i)
  with inv_client [OF hangup(3), of i] show ?case
    by (intro share_inv_quiet) (auto simp: start_ok_def)
next
  case (rewind s i)
  with inv_client [OF rewind(2), of i] show ?case by (intro share_inv_quiet) auto
next
  case (rewind_fails s i)
  then show ?case by (intro share_inv_quiet) auto
qed

lemma share_inv_send:
  assumes "send_step stalled s t" "share_inv d rq s"
  shows "share_inv d rq t"
  using assms
proof (induction rule: send_step.induct)
  case (lock_send s i pos)
  with inv_client [OF lock_send(3), of i] inv_unheld [OF lock_send(3,2)] show ?case
    by (intro share_inv_local [OF lock_send(3), where i = i and c = "Reading pos"])
      (auto simp: in_progress_def)
next
  case (send_refused s i pos)
  then show ?case by (intro share_inv_quiet) auto
next
  case (read_chunk s i pos bs rest)
  with inv_client [OF read_chunk(4), of i] inv_holder [OF read_chunk(4), of i] show ?case
    by (intro share_inv_local [OF read_chunk(4), where i = i and c = "Sending pos bs"])
      (auto simp: in_progress_def)
next
  case (read_end s i pos)
  have h: "file_mutex s = Some i" "shared s = device_after d (attempts s)"
    using inv_holder [OF read_end(3), of i] read_end(1) by simp_all
  have "client_ok d rq (attempts s) i (sent s i) Finished"
    using inv_client [OF read_end(3), of i] read_end(1,2) h(2) by auto
  with read_end h show ?case
    by (intro share_inv_local [OF read_end(3), where i = i and c = Finished])
      (auto simp: in_progress_def)
next
  case (read_fails s i pos)
  with inv_holder [OF read_fails(2), of i] show ?case
    by (intro share_inv_local [OF read_fails(2), where i = i and c = Failed])
      (auto simp: in_progress_def)
next
  case (send_chunk s i pos bs)
  obtain st rest where ok: "start_ok d rq (attempts s) i st"
    "drop pos (contents (device_after d (attempts s))) = bs @ rest"
    "sent s i @ bs @ rest = drop st (contents (device_after d (attempts s)))"
    using inv_client [OF send_chunk(3), of i] send_chunk(1) by auto
  have "drop (pos + length bs) (contents (device_after d (attempts s))) = rest"
    using ok(2) by (metis add.commute append_eq_conv_conj drop_drop)
  with ok have "client_ok d rq (attempts s) i (sent s i @ bs) (Reading (pos + length bs))" by auto
  with send_chunk inv_holder [OF send_chunk(3), of i] show ?case
    by (intro share_inv_local [OF send_chunk(3), where i = i and c = "Reading (pos + length bs)"])
      (auto simp: in_progress_def)
next
  case (send_fails s i pos bs bs')
  with inv_holder [OF send_fails(3), of i] show ?case
    by (intro share_inv_local [OF send_fails(3), where i = i and c = Failed])
      (auto simp: in_progress_def)
qed

lemma share_inv_step: "share_step rq stalled s t \<Longrightarrow> share_inv d rq s \<Longrightarrow> packets rq \<Longrightarrow> share_inv d rq t"
  by (elim share_stepE) (blast intro: share_inv_packet share_inv_rewind share_inv_send)+

lemma share_inv_steps: "share_steps rq stalled s t \<Longrightarrow> share_inv d rq s \<Longrightarrow> packets rq \<Longrightarrow> share_inv d rq t"
  by (induction rule: rtranclp_induct) (auto intro: share_inv_step)

end
