(* ===== verification/Sharing_Progress.thy ===== *)
theory Sharing_Progress
  imports File_Sharing
begin

text \<open>
  Who can get on: a peer that has stopped reading while \<open>send\<close> is called for it keeps
  \<open>file_mutex\<close> with its thread for ever; without such a peer every thread can be run to its end.
\<close>

section \<open>Blocked for ever\<close>

definition blocked :: "nat set \<Rightarrow> sharing \<Rightarrow> bool" where
  "blocked stalled s \<longleftrightarrow> (\<exists>j pos bs. j \<in> stalled \<and> cpc s j = Sending pos bs)"

lemma blocked_step:
  assumes step: "share_step rq stalled s t" and inv: "share_inv d rq s"
    and j: "j \<in> stalled" "cpc s j = Sending pos bs"
  shows "cpc t j = Sending pos bs \<and> (\<forall>i. cpc t i = Finished \<longrightarrow> cpc s i = Finished)"
proof -
  have m: "file_mutex s = Some j" using inv_mutex [OF inv, of j] j by simp
  have others: "\<not> holds (cpc s i)" if "i \<noteq> j" for i
    using inv_others [OF inv, of j i] j that by simp
  have only: "cpc s i \<noteq> Writing n" "cpc s i \<noteq> Seeking" "cpc s i \<noteq> Reading p" for i n p
    using others [of i] j by (cases "i = j"; auto)+
  have same: "i = j" if "cpc s i = Sending p b" for i p b using others [of i] that by (cases "i = j") auto
  from step consider "packet_step rq s t" | "rewind_step rq s t" | "send_step stalled s t"
    by (blast elim: share_stepE)
  then show ?thesis
  proof cases
    case 1
    then show ?thesis by (cases rule: packet_step.cases) (simp_all add: m only j)
  next
    case 2
    then show ?thesis by (cases rule: rewind_step.cases) (auto simp: j)
  next
    case 3
    then show ?thesis
    proof (cases rule: send_step.cases)
      case (send_chunk i pos' bs')
      with same [OF send_chunk(2)] j show ?thesis by simp
    next
      case (send_fails i pos' bs' bs'')
      with same [OF send_fails(2)] j show ?thesis by simp
    next
      case (send_refused i pos')
      with j show ?thesis by auto
    qed (simp_all add: m only j)
  qed
qed

lemma blocked_steps:
  assumes "share_steps rq stalled s t" "share_inv d rq s" "packets rq" "j \<in> stalled" "cpc s j = Sending pos bs"
  shows "cpc t j = Sending pos bs \<and> (\<forall>i. cpc t i = Finished \<longrightarrow> cpc s i = Finished)"
  using assms(1)
proof (induction rule: rtranclp_induct)
  case base
  then show ?case using assms(5) by simp
next
  case (step t u)
  have "share_inv d rq t" using share_inv_steps [OF step.hyps(1) assms(2,3)] .
  from blocked_step [OF step.hyps(2) this assms(4)] step.IH show ?case by blast
qed

section \<open>Running on\<close>

lemma step_then:
  "share_step rq stalled s t \<Longrightarrow> \<exists>u. share_steps rq stalled t u \<and> P u \<Longrightarrow> \<exists>u. share_steps rq stalled s u \<and> P u"
  by (blast intro: converse_rtranclp_into_rtranclp)

lemma stay: "P s \<Longrightarrow> \<exists>u. share_steps rq stalled s u \<and> P u"
  by blast

abbreviation over :: "client_pc \<Rightarrow> bool" where
  "over c \<equiv> c = Finished \<or> c = Failed"

text \<open>A reader whose peer reads is sent everything from its position on, and nobody else is touched.\<close>

lemma reading_runs:
  assumes "cpc s i = Reading pos" "i \<notin> stalled"
  shows "\<exists>u. share_steps rq stalled s u \<and> cpc u i = Finished \<and> shared u = shared s \<and>
     sent u i = sent s i @ drop pos (contents (shared s)) \<and> file_mutex u = None \<and> cpc u = (cpc s)(i := Finished)"
proof (cases "drop pos (contents (shared s)) = []")
  case True
  from send_step.read_end [of s i pos, OF assms(1) True] True show ?thesis
    by (intro step_then [OF sends stay]) auto
next
  case False
  let ?bs = "drop pos (contents (shared s))"
  let ?s1 = "s\<lparr>cpc := (cpc s)(i := Sending pos ?bs)\<rparr>"
  let ?s2 = "?s1\<lparr>cpc := (cpc ?s1)(i := Reading (pos + length ?bs)), sent := (sent ?s1)(i := sent ?s1 i @ ?bs)\<rparr>"
  let ?s3 = "?s2\<lparr>file_mutex := None, cpc := (cpc ?s2)(i := Finished)\<rparr>"
  have 1: "send_step stalled s ?s1" using assms(1) False by (intro read_chunk [of _ _ _ _ "[]"]) simp_all
  have 2: "send_step stalled ?s1 ?s2" using assms(2) by (intro send_chunk) simp_all
  have 3: "send_step stalled ?s2 ?s3" by (intro read_end [of _ _ "pos + length ?bs"]) simp_all
  show ?thesis
    by (rule step_then [OF sends [OF 1]], rule step_then [OF sends [OF 2]], rule step_then [OF sends [OF 3]], rule stay) simp
qed

lemma ready_runs:
  assumes "cpc s i = Ready pos" "file_mutex s = None" "i \<notin> stalled"
  shows "\<exists>u. share_steps rq stalled s u \<and> cpc u i = Finished \<and> shared u = shared s \<and>
     sent u i = sent s i @ drop pos (contents (shared s)) \<and> cpc u = (cpc s)(i := Finished)"
proof -
  let ?s = "s\<lparr>file_mutex := Some i, cpc := (cpc s)(i := Reading pos)\<rparr>"
  have 1: "send_step stalled s ?s" using assms(1,2) by (intro lock_send)
  have "cpc ?s i = Reading pos" by simp
  from reading_runs [OF this assms(3), of rq] show ?thesis
    by (intro step_then [OF sends [OF 1]]) auto
qed

lemma rewinding_runs:
  assumes "cpc s i = Rewinding" "file_mutex s = None" "i \<notin> stalled"
  shows "\<exists>u. share_steps rq stalled s u \<and> cpc u i = Finished \<and> shared u = shared s \<and>
     sent u i = sent s i @ contents (shared s) \<and> cpc u = (cpc s)(i := Finished)"
proof -
  let ?s = "s\<lparr>cpc := (cpc s)(i := Ready 0)\<rparr>"
  have 1: "rewind_step rq s ?s" using assms(1) by (rule rewind)
  have "cpc ?s i = Ready 0" "file_mutex ?s = None" using assms(2) by simp_all
  from ready_runs [OF this assms(3), of rq] show ?thesis
    by (intro step_then [OF rewinds [OF 1]]) simp
qed

lemma writing_runs:
  assumes "cpc s i = Writing n" "rq i = Line p" "n \<le> length p"
  shows "\<exists>u. share_steps rq stalled s u \<and> cpc u i = Rewinding \<and> file_mutex u = None \<and>
     shared u = write_spec (shared s) (drop n p) \<and> sent u = sent s \<and> cpc u = (cpc s)(i := Rewinding)"
proof -
  have last: "\<exists>u. share_steps rq stalled t u \<and> cpc u i = Rewinding \<and> file_mutex u = None \<and>
      shared u = shared t \<and> sent u = sent t \<and> cpc u = (cpc t)(i := Rewinding)"
    if "cpc t i = Writing (length p)" for t
    by (rule step_then [OF packet [OF write_done [where rq = rq and i = i and p = p, OF that assms(2)]]], rule stay) simp
  show ?thesis
  proof (cases "n = length p")
    case True
    with assms(1) last [of s] show ?thesis by simp
  next
    case False
    let ?t = "s\<lparr>shared := write_spec (shared s) (take (length p - n) (drop n p)),
        cpc := (cpc s)(i := Writing (n + (length p - n)))\<rparr>"
    have 1: "packet_step rq s ?t" using assms False by (intro write_some) simp_all
    show ?thesis by (rule step_then [OF packet [OF 1]]) (use assms(3) last [of ?t] in simp)
  qed
qed

text \<open>The result of a seek request: it fails exactly when the device lacks the byte.\<close>

abbreviation sought :: "device \<Rightarrow> nat \<Rightarrow> nat \<Rightarrow> client_pc" where
  "sought v wc off \<equiv> (case seekto_spec (fst v) wc off of None \<Rightarrow> Failed | Some pos \<Rightarrow> Ready pos)"

lemma seeking_runs:
  assumes "cpc s i = Seeking" "rq i = Seek wc off"
  shows "\<exists>u. share_steps rq stalled s u \<and> file_mutex u = None \<and> shared u = shared s \<and> sent u = sent s \<and>
     cpc u i = sought (shared s) wc off \<and> cpc u = (cpc s)(i := sought (shared s) wc off) \<and> attempts u = attempts s"
proof (cases "seekto_spec (fst (shared s)) wc off")
  case None
  then show ?thesis
    by (intro step_then [OF packet [OF seek_fails [where rq = rq and i = i, OF assms]]] stay) simp
next
  case (Some pos)
  then show ?thesis
    by (intro step_then [OF packet [OF seek_moves [where rq = rq and i = i, OF assms Some]]] stay) simp
qed

lemma steps_then:
  "\<exists>t. share_steps rq stalled s t \<and> P t \<Longrightarrow> (\<And>t. P t \<Longrightarrow> \<exists>u. share_steps rq stalled t u \<and> Q u) \<Longrightarrow>
     \<exists>u. share_steps rq stalled s u \<and> Q u"
  by (meson rtranclp_trans)

section \<open>Served to the end\<close>

text \<open>
  A client that has been answered: its whole answer was sent, as the device was at one moment, after its own
  packet if it sent one; and a seek request for a byte that the device did not have at a moment
  between \<open>s\<close> and \<open>t\<close>.
\<close>

definition answered :: "device \<Rightarrow> (nat \<Rightarrow> request) \<Rightarrow> sharing \<Rightarrow> nat \<Rightarrow> bool" where
  "answered d rq s i \<longleftrightarrow> cpc s i = Finished \<and>
     (\<exists>h. prefix h (attempts s) \<and>
       (case rq i of
          Line p \<Rightarrow> (i, p) \<in> set h \<and> sent s i = contents (device_after d h)
        | Hangup \<Rightarrow> sent s i = contents (device_after d h)
        | Seek wc off \<Rightarrow> \<exists>h0 pos. prefix h0 h \<and> seekto_spec (fst (device_after d h0)) wc off = Some pos \<and>
            sent s i = drop pos (contents (device_after d h))))"

definition no_such_byte :: "device \<Rightarrow> (nat \<Rightarrow> request) \<Rightarrow> sharing \<Rightarrow> sharing \<Rightarrow> nat \<Rightarrow> bool" where
  "no_such_byte d rq s t i \<longleftrightarrow>
     (\<exists>wc off h. rq i = Seek wc off \<and> prefix (attempts s) h \<and> prefix h (attempts t) \<and>
       seekto_spec (fst (device_after d h)) wc off = None)"

lemma finished_answered:
  assumes inv: "share_inv d rq s" and "cpc s i = Finished"
  shows "answered d rq s i"
proof -
  obtain h st where "prefix h (attempts s)" "start_ok d rq h i st" "sent s i = drop st (contents (device_after d h))"
    using inv_client [OF inv, of i] assms(2) by auto
  then show ?thesis unfolding answered_def using assms(2)
    by (intro conjI exI [of _ h]) (auto simp: start_ok_def split: request.splits)
qed

lemma step_attempts: "share_step rq stalled s t \<Longrightarrow> prefix (attempts s) (attempts t)"
  by (erule share_stepE; erule packet_step.cases rewind_step.cases send_step.cases) auto

lemma steps_attempts: "share_steps rq stalled s t \<Longrightarrow> prefix (attempts s) (attempts t)"
  by (induction rule: rtranclp_induct) (auto dest: step_attempts intro: prefix_order.trans)

lemma no_such_byte_wider:
  "no_such_byte d rq t u i \<Longrightarrow> share_steps rq stalled s t \<Longrightarrow> no_such_byte d rq s u i"
  "no_such_byte d rq s t i \<Longrightarrow> share_steps rq stalled t u \<Longrightarrow> no_such_byte d rq s u i"
  unfolding no_such_byte_def using steps_attempts by (meson prefix_order.trans)+

text \<open>
  A run that serves the client \<open>i\<close>, on which nobody outside \<open>P\<close> fails unless for want of the byte it asks for.
\<close>

definition serves :: "device \<Rightarrow> (nat \<Rightarrow> request) \<Rightarrow> nat set \<Rightarrow> (nat \<Rightarrow> bool) \<Rightarrow> nat \<Rightarrow> sharing \<Rightarrow> sharing \<Rightarrow> bool" where
  "serves d rq stalled P i s t \<longleftrightarrow> share_steps rq stalled s t \<and>
     (answered d rq t i \<or> cpc t i = Failed \<and> no_such_byte d rq s t i) \<and>
     (\<forall>j. cpc t j = Failed \<longrightarrow> cpc s j = Failed \<or> no_such_byte d rq s t j \<or> P j)"

lemma serves_finished:
  assumes "share_inv d rq s" "packets rq"
    and u: "share_steps rq stalled s u" "cpc u = (cpc s)(i := Finished)"
  shows "\<exists>u. serves d rq stalled P i s u"
proof -
  have "share_inv d rq u" by (rule share_inv_steps [OF u(1) assms(1,2)])
  then have "answered d rq u i" by (rule finished_answered) (simp add: u(2))
  with u show ?thesis unfolding serves_def by (intro exI [of _ u]) simp
qed

text \<open>First a run on which only \<open>i\<close> moves, without failing, then one that serves it.\<close>

lemma serves_later:
  assumes "share_steps rq stalled s t" "\<And>j. cpc t j = Failed \<Longrightarrow> cpc s j = Failed \<or> no_such_byte d rq s t j \<or> P j"
    and "\<exists>u. serves d rq stalled P i t u"
  shows "\<exists>u. serves d rq stalled P i s u"
proof -
  obtain u where u: "serves d rq stalled P i t u" using assms(3) by blast
  then have tu: "share_steps rq stalled t u" by (simp add: serves_def)
  have "share_steps rq stalled s u" using assms(1) tu by (rule rtranclp_trans)
  moreover have "cpc s j = Failed \<or> no_such_byte d rq s u j \<or> P j" if "cpc u j = Failed" for j
    using u that assms(2) no_such_byte_wider(1) [OF _ assms(1)] no_such_byte_wider(2) [OF _ tu]
    unfolding serves_def by blast
  ultimately show ?thesis using u no_such_byte_wider(1) [OF _ assms(1)] unfolding serves_def by blast
qed

lemma ready_serves:
  assumes inv: "share_inv d rq s" and rq: "packets rq" and free: "file_mutex s = None" and i: "i \<notin> stalled"
    and c: "cpc s i = Ready pos"
  shows "\<exists>u. serves d rq stalled P i s u"
proof -
  obtain u where "share_steps rq stalled s u" "cpc u = (cpc s)(i := Finished)"
    using ready_runs [OF c free i] by blast
  then show ?thesis by (rule serves_finished [OF inv rq])
qed

lemma rewinding_serves:
  assumes inv: "share_inv d rq s" and rq: "packets rq" and free: "file_mutex s = None" and i: "i \<notin> stalled"
    and c: "cpc s i = Rewinding"
  shows "\<exists>u. serves d rq stalled P i s u"
proof -
  obtain u where "share_steps rq stalled s u" "cpc u = (cpc s)(i := Finished)"
    using rewinding_runs [OF c free i] by blast
  then show ?thesis by (rule serves_finished [OF inv rq])
qed

lemma sought_serves:
  assumes inv: "share_inv d rq s" and rq: "packets rq" "rq i = Seek wc off" and h: "cpc s i = Seeking"
    and i: "i \<notin> stalled"
  shows "\<exists>u. serves d rq stalled P i s u"
proof -
  obtain t where t: "share_steps rq stalled s t" "file_mutex t = None" "shared t = shared s"
    "cpc t = (cpc s)(i := sought (shared s) wc off)" "attempts t = attempts s"
    using seeking_runs [where rq = rq and i = i, OF h rq(2)] by blast
  have dev: "shared s = device_after d (attempts s)" by (rule inv_holder(2) [OF inv, of i]) (simp_all add: h)
  show ?thesis
  proof (cases "seekto_spec (fst (shared s)) wc off")
    case None
    then have "no_such_byte d rq s t i" unfolding no_such_byte_def t(5) using rq(2) dev by auto
    with t(1,4) None show ?thesis unfolding serves_def by (intro exI [of _ t]) simp
  next
    case (Some pos)
    with t(4) have c: "cpc t = (cpc s)(i := Ready pos)" by simp
    have later: "\<exists>u. serves d rq stalled P i t u"
      by (rule ready_serves [OF share_inv_steps [OF t(1) inv rq(1)] rq(1) t(2) i]) (simp add: c)
    show ?thesis by (rule serves_later [OF t(1) _ later]) (auto simp: c split: if_splits)
  qed
qed

lemma alone_serves:
  assumes inv: "share_inv d rq s" and rq: "packets rq" and free: "file_mutex s = None" and i: "i \<notin> stalled"
    and nf: "cpc s i \<noteq> Failed"
  shows "\<exists>u. serves d rq stalled P i s u"
proof (cases "cpc s i")
  case Start
  show ?thesis
  proof (cases "rq i")
    case (Line p)
    let ?t = "s\<lparr>file_mutex := Some i, cpc := (cpc s)(i := Writing 0)\<rparr>"
    have t: "share_steps rq stalled s ?t"
      using packet [OF lock_write [where rq = rq and i = i, OF Start Line free]] by blast
    obtain u where u: "share_steps rq stalled ?t u" "file_mutex u = None" "cpc u = (cpc ?t)(i := Rewinding)"
      using writing_runs [of ?t i 0 rq p stalled] Line by auto
    have su: "share_steps rq stalled s u" by (rule rtranclp_trans [OF t u(1)])
    have later: "\<exists>v. serves d rq stalled P i u v"
      by (rule rewinding_serves [OF share_inv_steps [OF su inv rq] rq u(2) i]) (simp add: u(3))
    show ?thesis by (rule serves_later [OF su _ later]) (auto simp: u(3) split: if_splits)
  next
    case (Seek wc off)
    let ?t = "s\<lparr>file_mutex := Some i, cpc := (cpc s)(i := Seeking)\<rparr>"
    have t: "share_steps rq stalled s ?t"
      using packet [OF lock_seek [where rq = rq and i = i, OF Start Seek free]] by blast
    have later: "\<exists>u. serves d rq stalled P i ?t u"
      by (rule sought_serves [OF share_inv_steps [OF t inv rq] rq Seek _ i]) simp
    show ?thesis by (rule serves_later [OF t _ later]) (auto split: if_splits)
  next
    case Hangup
    let ?t = "s\<lparr>cpc := (cpc s)(i := Rewinding)\<rparr>"
    have t: "share_steps rq stalled s ?t"
      using rewinds [OF hangup [where rq = rq and i = i, OF Start Hangup]] by blast
    have later: "\<exists>u. serves d rq stalled P i ?t u"
      by (rule rewinding_serves [OF share_inv_steps [OF t inv rq] rq _ i]) (simp_all add: free)
    show ?thesis by (rule serves_later [OF t _ later]) (auto split: if_splits)
  qed
next
  case Rewinding
  then show ?thesis by (rule rewinding_serves [OF inv rq free i])
next
  case (Ready pos)
  then show ?thesis by (rule ready_serves [OF inv rq free i])
next
  case Finished
  from finished_answered [OF inv this] Finished show ?thesis
    unfolding serves_def by (intro exI [of _ s]) simp
qed (use inv_free [OF inv free, of i] nf in auto)

text \<open>
  A holder that is not blocked gives the mutex back: it goes on to the end of what it does, unless its peer
  does not read and it has yet to find that out, when only a failing \<open>read\<close> helps.
\<close>

lemma holder_releases:
  assumes inv: "share_inv d rq s" and rq: "packets rq" and nb: "\<not> blocked stalled s" and h: "file_mutex s = Some j"
  shows "\<exists>u. share_steps rq stalled s u \<and> file_mutex u = None \<and> (\<forall>k. k \<noteq> j \<longrightarrow> cpc u k = cpc s k) \<and>
     (cpc u j = Failed \<longrightarrow> no_such_byte d rq s u j \<or> (j \<in> stalled \<and> (\<exists>pos. cpc s j = Reading pos)))"
proof -
  have h: "holds (cpc s j)" using inv_mutex [OF inv, of j] h by simp
  note c = inv_client [OF inv, of j]
  show ?thesis
  proof (cases "cpc s j")
    case (Writing n)
    with c obtain p where "rq j = Line p" "n \<le> length p" by auto
    from writing_runs [where rq = rq and i = j and stalled = stalled, OF Writing this] obtain u where
      "share_steps rq stalled s u" "file_mutex u = None" "cpc u = (cpc s)(j := Rewinding)" by blast
    then show ?thesis by (intro exI [of _ u]) simp
  next
    case Seeking
    with c obtain wc off where q: "rq j = Seek wc off" by auto
    from seeking_runs [where rq = rq and i = j and stalled = stalled, OF Seeking q] obtain u where
      u: "share_steps rq stalled s u" "file_mutex u = None" "cpc u = (cpc s)(j := sought (shared s) wc off)"
      "attempts u = attempts s" by blast
    have "shared s = device_after d (attempts s)" by (rule inv_holder(2) [OF inv, of j]) (simp_all add: Seeking)
    then have "no_such_byte d rq s u j" if "seekto_spec (fst (shared s)) wc off = None"
      unfolding no_such_byte_def u(4) using q that by auto
    with u show ?thesis by (intro exI [of _ u]) (auto split: option.split)
  next
    case (Reading pos)
    show ?thesis
    proof (cases "j \<in> stalled")
      case True
      with Reading show ?thesis by (intro step_then [OF sends [OF read_fails [OF Reading]]] stay) simp
    next
      case False
      from reading_runs [OF Reading False, of rq] obtain u where
        "share_steps rq stalled s u" "file_mutex u = None" "cpc u = (cpc s)(j := Finished)" by blast
      then show ?thesis by (intro exI [of _ u]) simp
    qed
  next
    case (Sending pos bs)
    then have j: "j \<notin> stalled" using nb by (auto simp: blocked_def)
    let ?t = "s\<lparr>cpc := (cpc s)(j := Reading (pos + length bs)), sent := (sent s)(j := sent s j @ bs)\<rparr>"
    have "cpc ?t j = Reading (pos + length bs)" by simp
    from reading_runs [OF this j, of rq] obtain u where
      u: "share_steps rq stalled ?t u" "file_mutex u = None" "cpc u = (cpc ?t)(j := Finished)" by blast
    have "share_steps rq stalled s u"
      by (rule converse_rtranclp_into_rtranclp [OF sends [OF send_chunk [OF Sending j]] u(1)])
    with u(2,3) show ?thesis by (intro exI [of _ u]) simp
  qed (use h in simp_all)
qed

lemma unblocked_serves:
  assumes inv: "share_inv d rq s" and rq: "packets rq" and nb: "\<not> blocked stalled s" and i: "i \<notin> stalled"
    and nf: "cpc s i \<noteq> Failed"
  shows "\<exists>u. serves d rq stalled (\<lambda>j. j \<in> stalled \<and> (\<exists>pos. cpc s j = Reading pos)) i s u"
proof (cases "file_mutex s")
  case None
  then show ?thesis by (rule alone_serves [OF inv rq _ i nf])
next
  case (Some j)
  let ?P = "\<lambda>j. j \<in> stalled \<and> (\<exists>pos. cpc s j = Reading pos)"
  from holder_releases [OF inv rq nb Some] obtain t where t: "share_steps rq stalled s t" "file_mutex t = None"
    "\<forall>k. k \<noteq> j \<longrightarrow> cpc t k = cpc s k" "cpc t j = Failed \<longrightarrow> no_such_byte d rq s t j \<or> ?P j" by blast
  have f: "cpc s k = Failed \<or> no_such_byte d rq s t k \<or> ?P k" if "cpc t k = Failed" for k
    using t(3,4) that by (cases "k = j") auto
  show ?thesis
  proof (cases "cpc t i = Failed")
    case True
    with f [OF True] nf i have "no_such_byte d rq s t i" by blast
    with True t(1) f show ?thesis unfolding serves_def by blast
  next
    case False
    from alone_serves [OF share_inv_steps [OF t(1) inv rq] rq t(2) i False]
    have "\<exists>u. serves d rq stalled ?P i t u" .
    from serves_later [OF t(1) f this] show ?thesis .
  qed
qed

end
