(* ===== verification/Sharing_Properties.thy ===== *)
theory Sharing_Properties
  imports Sharing_Progress
begin

text \<open>
  What the server promises to clients that are served at the same time, for every interleaving
  of their threads, and what it does not.
\<close>

section \<open>A run of two clients\<close>

text \<open>
  A full device.  The first client asks for the second command; between its \<open>ioctl\<close> and its
  answer the other client stores a line, which drops the oldest command.
\<close>

definition race_rq :: "nat \<Rightarrow> request" where
  "race_rq i = (if i = 1 then Seek 1 0 else if i = 2 then Line (''y'' @ [newline]) else Hangup)"

definition race_dev :: device where
  "race_dev = ((''ab'' @ [newline]) # replicate 9 (''x'' @ [newline]), [])"

definition race_answer :: "char list" where
  "race_answer = newline # concat (replicate 7 (''x'' @ [newline])) @ ''y'' @ [newline]"

definition race_dev' :: device where
  "race_dev' = (replicate 9 (''x'' @ [newline]) @ [''y'' @ [newline]], [])"

text \<open>The states of the run: the two clients and what they share.\<close>

definition race_at :: "nat option \<Rightarrow> device \<Rightarrow> client_pc \<Rightarrow> client_pc \<Rightarrow> char list \<Rightarrow> (nat \<times> char list) list \<Rightarrow> sharing" where
  "race_at m v c1 c2 out h =
     \<lparr>file_mutex = m, shared = v, cpc = (\<lambda>_. Start)(1 := c1, 2 := c2), sent = (\<lambda>_. [])(1 := out), attempts = h\<rparr>"

abbreviation race_end :: sharing where
  "race_end \<equiv> race_at None race_dev' Finished Rewinding race_answer [(2, ''y'' @ [newline])]"

lemma race_at_sel [simp]:
  "file_mutex (race_at m v c1 c2 out h) = m" "shared (race_at m v c1 c2 out h) = v"
  "cpc (race_at m v c1 c2 out h) 1 = c1" "cpc (race_at m v c1 c2 out h) 2 = c2"
  "cpc (race_at m v c1 c2 out h) (Suc 0) = c1" "sent (race_at m v c1 c2 out h) (Suc 0) = out"
  "sent (race_at m v c1 c2 out h) 1 = out" "attempts (race_at m v c1 c2 out h) = h"
  by (simp_all add: race_at_def)

lemma race_at_upd:
  "(race_at m v c1 c2 out h)\<lparr>file_mutex := m', cpc := (cpc (race_at m v c1 c2 out h))(1 := c)\<rparr> = race_at m' v c c2 out h"
  "(race_at m v c1 c2 out h)\<lparr>file_mutex := m', cpc := (cpc (race_at m v c1 c2 out h))(2 := c)\<rparr> = race_at m' v c1 c out h"
  "(race_at m v c1 c2 out h)\<lparr>shared := v', cpc := (cpc (race_at m v c1 c2 out h))(2 := c)\<rparr> = race_at m v' c1 c out h"
  "(race_at m v c1 c2 out h)\<lparr>attempts := h'\<rparr> = race_at m v c1 c2 out h'"
  "(race_at m v c1 c2 out h)\<lparr>cpc := (cpc (race_at m v c1 c2 out h))(1 := c)\<rparr> = race_at m v c c2 out h"
  "(race_at m v c1 c2 out h)\<lparr>sent := (sent (race_at m' v' c1' c2' out h))(1 := out')\<rparr> = race_at m v c1 c2 out' h"
  by (simp_all add: race_at_def fun_eq_iff)

lemma race_packets: "packets race_rq"
  by (simp add: packets_def race_rq_def)

lemma race_device:
  "seekto_spec (fst race_dev) 1 0 = Some 3" "write_spec race_dev (''y'' @ [newline]) = race_dev'"
  "drop 3 (contents race_dev') = race_answer" "drop (3 + length race_answer) (contents race_dev') = []"
  by code_simp+

lemma race_reached: "share_steps race_rq {} (sharing_start race_dev) race_end"
proof -
  let ?p = "''y'' @ [newline]" and ?h = "[(2, ''y'' @ [newline])]"
  have rq: "race_rq 1 = Seek 1 0" "race_rq 2 = Line ?p" by (simp_all add: race_rq_def)
  have ne: "race_answer \<noteq> []" by (simp add: race_answer_def)
  have 0: "sharing_start race_dev = race_at None race_dev Start Start [] []"
    by (simp add: sharing_start_def race_at_def fun_eq_iff)
  have 1: "packet_step race_rq (race_at None race_dev Start Start [] []) (race_at (Some 1) race_dev Seeking Start [] [])"
    using lock_seek [where rq = race_rq and i = 1 and s = "race_at None race_dev Start Start [] []", OF _ rq(1)]
    unfolding race_at_upd by simp
  have 2: "packet_step race_rq (race_at (Some 1) race_dev Seeking Start [] []) (race_at None race_dev (Ready 3) Start [] [])"
    using seek_moves [where rq = race_rq and i = 1 and s = "race_at (Some 1) race_dev Seeking Start [] []", OF _ rq(1)]
      race_device(1)
    unfolding race_at_upd by simp
  have 3: "packet_step race_rq (race_at None race_dev (Ready 3) Start [] []) (race_at (Some 2) race_dev (Ready 3) (Writing 0) [] [])"
    using lock_write [where rq = race_rq and i = 2 and s = "race_at None race_dev (Ready 3) Start [] []", OF _ rq(2)]
    unfolding race_at_upd by simp
  have 4: "packet_step race_rq (race_at (Some 2) race_dev (Ready 3) (Writing 0) [] []) (race_at (Some 2) race_dev' (Ready 3) (Writing 2) [] [])"
    using write_some [where rq = race_rq and i = 2 and n = 0 and m = 2 and
        s = "race_at (Some 2) race_dev (Ready 3) (Writing 0) [] []", OF _ rq(2)] race_device(2)
    unfolding race_at_upd by simp (simp add: numeral_2_eq_2)
  have 5: "packet_step race_rq (race_at (Some 2) race_dev' (Ready 3) (Writing 2) [] []) (race_at None race_dev' (Ready 3) Rewinding [] ?h)"
    using write_done [where rq = race_rq and i = 2 and s = "race_at (Some 2) race_dev' (Ready 3) (Writing 2) [] []", OF _ rq(2)]
    unfolding race_at_upd by simp
  have 6: "send_step {} (race_at None race_dev' (Ready 3) Rewinding [] ?h) (race_at (Some 1) race_dev' (Reading 3) Rewinding [] ?h)"
    using lock_send [where i = 1 and pos = 3 and s = "race_at None race_dev' (Ready 3) Rewinding [] ?h"]
    unfolding race_at_upd by simp
  have 7: "send_step {} (race_at (Some 1) race_dev' (Reading 3) Rewinding [] ?h)
      (race_at (Some 1) race_dev' (Sending 3 race_answer) Rewinding [] ?h)"
    using read_chunk [where i = 1 and pos = 3 and bs = race_answer and rest = "[]" and
        s = "race_at (Some 1) race_dev' (Reading 3) Rewinding [] ?h", OF _ ne] race_device(3)
    unfolding race_at_upd by simp
  have 8: "send_step {} (race_at (Some 1) race_dev' (Sending 3 race_answer) Rewinding [] ?h)
      (race_at (Some 1) race_dev' (Reading (3 + length race_answer)) Rewinding race_answer ?h)"
    using send_chunk [where i = 1 and pos = 3 and bs = race_answer and
        s = "race_at (Some 1) race_dev' (Sending 3 race_answer) Rewinding [] ?h"]
    unfolding race_at_upd by simp
  have 9: "send_step {} (race_at (Some 1) race_dev' (Reading (3 + length race_answer)) Rewinding race_answer ?h) race_end"
    using read_end [where i = 1 and pos = "3 + length race_answer" and
        s = "race_at (Some 1) race_dev' (Reading (3 + length race_answer)) Rewinding race_answer ?h"] race_device(4)
    unfolding race_at_upd by simp
  show ?thesis
    unfolding 0
    using packet [OF 1] packet [OF 2] packet [OF 3] packet [OF 4] packet [OF 5]
      sends [OF 6] sends [OF 7] sends [OF 8] sends [OF 9]
    by (meson rtranclp.rtrancl_into_rtrancl rtranclp.rtrancl_refl)
qed

section \<open>Packets\<close>

text \<open>
  C3: however the threads interleave and the writes are cut up or fail, every client stores at
  most once, an unbroken beginning of its packet, the whole of it unless its write failed;
  the device is what these attempts make of it in the order of the mutex, with the packet
  being written at its end.  When no one holds the mutex and no write has failed, the device
  holds the last ten whole packets.
\<close>

theorem packets_never_interleave:
  assumes "packets rq" "share_steps rq stalled (sharing_start d) s"
  shows "distinct (map fst (attempts s)) \<and>
     (\<forall>i bs. (i, bs) \<in> set (attempts s) \<longrightarrow>
       (\<exists>p. rq i = Line p \<and> prefix bs p \<and> (bs = p \<or> cpc s i = Failed))) \<and>
     shared s = write_spec (device_after d (attempts s)) (in_progress rq s) \<and>
     (file_mutex s = None \<and> (\<forall>i. cpc s i \<noteq> Failed) \<and> snd d = [] \<and> length (fst d) \<le> 10 \<longrightarrow>
       shared s = (last_n 10 (fst d @ map snd (attempts s)), []))"
proof -
  have inv: "share_inv d rq s" by (rule share_inv_steps [OF assms(2) share_inv_start assms(1)])
  note a = inv_attempts [OF inv, unfolded attempts_ok_def]
  have "shared s = (last_n 10 (fst d @ map snd (attempts s)), [])"
    if "file_mutex s = None" "\<forall>i. cpc s i \<noteq> Failed" "snd d = []" "length (fst d) \<le> 10"
  proof -
    have "\<forall>bs\<in>set (map snd (attempts s)). newline \<in> set bs"
      using a that(2) assms(1) unfolding packets_def by fastforce
    from device_after_packets [OF this that(3,4)] inv_unheld(1) [OF inv that(1)] show ?thesis by simp
  qed
  with a inv_device [OF inv] show ?thesis by blast
qed

theorem packets_never_interleave_witness:
  "share_steps race_rq {} (sharing_start race_dev) race_end \<and>
   shared race_end = write_spec (device_after race_dev (attempts race_end)) (in_progress race_rq race_end)"
  using packets_never_interleave [OF race_packets race_reached] race_reached by blast

section \<open>Answers\<close>

text \<open>
  C4: a client whose answer is complete has been sent the contents of the device as it was at one moment
  between other threads' packets, after its own packet if it sent one: all of them from the
  start, or, after a seek request, from the position computed for it then or earlier.
\<close>

theorem answers_are_snapshots:
  assumes "packets rq" "share_steps rq stalled (sharing_start d) s" "cpc s i = Finished"
  shows "\<exists>h. prefix h (attempts s) \<and>
     (case rq i of
        Line p \<Rightarrow> (i, p) \<in> set h \<and> sent s i = contents (device_after d h)
      | Hangup \<Rightarrow> sent s i = contents (device_after d h)
      | Seek wc off \<Rightarrow> \<exists>h0 pos. prefix h0 h \<and> seekto_spec (fst (device_after d h0)) wc off = Some pos \<and>
          sent s i = drop pos (contents (device_after d h)))"
proof -
  have inv: "share_inv d rq s" by (rule share_inv_steps [OF assms(2) share_inv_start assms(1)])
  obtain h st where "prefix h (attempts s)" "start_ok d rq h i st" "sent s i = drop st (contents (device_after d h))"
    using inv_client [OF inv, of i] assms(3) by auto
  then show ?thesis by (intro exI [of _ h]) (auto simp: start_ok_def split: request.splits)
qed

theorem answers_are_snapshots_witness:
  "\<exists>h h0 pos. prefix h0 h \<and> seekto_spec (fst (device_after race_dev h0)) 1 0 = Some pos \<and>
     race_answer = drop pos (contents (device_after race_dev h))"
proof -
  have "cpc race_end 1 = Finished" "sent race_end 1 = race_answer" by simp_all
  from answers_are_snapshots [OF race_packets race_reached this(1)] this(2)
  show ?thesis by (auto simp: race_rq_def)
qed

text \<open>
  C29: the two moments of a seek request may differ: there is a run in which a client asks for a
  command that the device still holds when it is answered, and is sent the contents from
  the middle of another one, because a line stored in between moved everything.
\<close>

theorem seek_answer_can_be_shifted:
  "\<exists>rq d s. packets rq \<and> share_steps rq {} (sharing_start d) s \<and> rq 1 = Seek 1 0 \<and> cpc s 1 = Finished \<and>
     sent s 1 \<noteq> [] \<and> hd (sent s 1) \<notin> hd ` set (fst d @ fst (shared s))"
proof -
  have "cpc race_end 1 = Finished" "race_rq 1 = Seek 1 0" "sent race_end 1 \<noteq> []"
    by (simp_all add: race_rq_def race_answer_def)
  moreover have "hd (sent race_end 1) \<notin> hd ` set (fst race_dev @ fst (shared race_end))"
    by (simp add: race_dev'_def race_dev_def race_answer_def)
  ultimately show ?thesis using race_packets race_reached by blast
qed

section \<open>Progress\<close>

text \<open>
  C19: a thread whose peer has stopped reading while it is in \<open>send\<close> holds the mutex for ever, and no
  client that was not answered before ever is.  In every other reachable state the threads can go on so that
  any client whose peer reads and whose session has not failed is served to its end: it is sent
  its complete answer, contents of the device after its own packet, or it has asked to seek to a byte that the
  device then lacks.  On the way no call need fail, except for such seek requests and for a thread
  that already holds the mutex to read the device for a peer that does not read.
\<close>

theorem slow_reader_blocks_iff:
  assumes "packets rq" "share_steps rq stalled (sharing_start d) s"
  shows "(blocked stalled s \<longrightarrow>
       (\<forall>t i. share_steps rq stalled s t \<and> cpc t i = Finished \<longrightarrow> cpc s i = Finished)) \<and>
     (\<not> blocked stalled s \<longrightarrow>
       (\<forall>i. i \<notin> stalled \<and> cpc s i \<noteq> Failed \<longrightarrow>
         (\<exists>t. share_steps rq stalled s t \<and>
           (answered d rq t i \<or> cpc t i = Failed \<and> no_such_byte d rq s t i) \<and>
           (\<forall>j. cpc t j = Failed \<longrightarrow>
              cpc s j = Failed \<or> no_such_byte d rq s t j \<or> j \<in> stalled \<and> (\<exists>pos. cpc s j = Reading pos)))))"
proof (intro conjI impI allI; (elim conjE)?)
  have inv: "share_inv d rq s" by (rule share_inv_steps [OF assms(2) share_inv_start assms(1)])
  show "cpc s i = Finished" if "blocked stalled s" "share_steps rq stalled s t" "cpc t i = Finished" for t i
    using that blocked_steps [OF that(2) inv assms(1)] unfolding blocked_def by blast
  show "\<exists>t. share_steps rq stalled s t \<and> (answered d rq t i \<or> cpc t i = Failed \<and> no_such_byte d rq s t i) \<and>
      (\<forall>j. cpc t j = Failed \<longrightarrow>
         cpc s j = Failed \<or> no_such_byte d rq s t j \<or> j \<in> stalled \<and> (\<exists>pos. cpc s j = Reading pos))"
    if "\<not> blocked stalled s" "i \<notin> stalled" "cpc s i \<noteq> Failed" for i
    using unblocked_serves [OF inv assms(1) that] unfolding serves_def .
qed

text \<open>A client that sends no line, is to be sent the full device, and does not read.\<close>

definition blocked_end :: sharing where
  "blocked_end = \<lparr>file_mutex = Some 5, shared = race_dev,
     cpc = (\<lambda>_. Start)(5 := Sending 0 (contents race_dev)), sent = (\<lambda>_. []), attempts = []\<rparr>"

lemma blocked_reached: "share_steps race_rq {5} (sharing_start race_dev) blocked_end"
proof -
  let ?s = "sharing_start race_dev"
  let ?s1 = "?s\<lparr>cpc := (cpc ?s)(5 := Rewinding)\<rparr>"
  let ?s2 = "?s1\<lparr>cpc := (cpc ?s1)(5 := Ready 0)\<rparr>"
  let ?s3 = "?s2\<lparr>file_mutex := Some 5, cpc := (cpc ?s2)(5 := Reading 0)\<rparr>"
  let ?s4 = "?s3\<lparr>cpc := (cpc ?s3)(5 := Sending 0 (contents race_dev))\<rparr>"
  have 1: "rewind_step race_rq ?s ?s1" by (rule hangup) (simp_all add: sharing_start_def race_rq_def)
  have 2: "rewind_step race_rq ?s1 ?s2" by (rule rewind) simp
  have 3: "send_step {5} ?s2 ?s3" by (rule lock_send) (simp_all add: sharing_start_def)
  have 4: "send_step {5} ?s3 ?s4"
    by (rule read_chunk [of _ _ 0 _ "[]"]) (simp_all add: sharing_start_def, simp add: race_dev_def)
  have "share_steps race_rq {5} ?s ?s4"
    using rewinds [OF 1] rewinds [OF 2] sends [OF 3] sends [OF 4]
    by (meson rtranclp.rtrancl_into_rtrancl rtranclp.rtrancl_refl)
  moreover have "?s4 = blocked_end" by (simp add: blocked_end_def sharing_start_def)
  ultimately show ?thesis by simp
qed

theorem slow_reader_blocks_iff_witness:
  "\<not> (\<exists>t i. share_steps race_rq {5} blocked_end t \<and> cpc t i = Finished) \<and>
   (\<exists>t. share_steps race_rq {5} (sharing_start race_dev) t \<and> answered race_dev race_rq t 2)"
proof
  have b: "blocked {5} blocked_end" by (auto simp: blocked_def blocked_end_def)
  have n: "cpc blocked_end i \<noteq> Finished" for i by (simp add: blocked_end_def)
  show "\<not> (\<exists>t i. share_steps race_rq {5} blocked_end t \<and> cpc t i = Finished)"
    using slow_reader_blocks_iff [OF race_packets blocked_reached] b n by blast
  have "\<not> blocked {5} (sharing_start race_dev)" "2 \<notin> {5::nat} \<and> cpc (sharing_start race_dev) 2 \<noteq> Failed"
    by (simp_all add: blocked_def sharing_start_def)
  with slow_reader_blocks_iff [OF race_packets rtranclp.rtrancl_refl, of "{5}" race_dev] obtain t where
    "share_steps race_rq {5} (sharing_start race_dev) t"
    "answered race_dev race_rq t 2 \<or> no_such_byte race_dev race_rq (sharing_start race_dev) t 2" by meson
  moreover have "\<not> no_such_byte race_dev race_rq (sharing_start race_dev) t 2"
    by (simp add: no_such_byte_def race_rq_def)
  ultimately show "\<exists>t. share_steps race_rq {5} (sharing_start race_dev) t \<and> answered race_dev race_rq t 2"
    by blast
qed

end
