(* ===== verification/Sharing_Others.thy ===== *)
theory Sharing_Others
  imports Sharing_Progress
begin

text \<open>
  The step relation of \<open>File_Sharing\<close> seen from one of its threads: what the others may do between
  two of its own steps, and what is known of the thread (\<open>tracks\<close>) while they do it.
\<close>

section \<open>The steps of the others\<close>

definition others_step :: "nat \<Rightarrow> (nat \<Rightarrow> request) \<Rightarrow> nat set \<Rightarrow> sharing \<Rightarrow> sharing \<Rightarrow> bool" where
  "others_step i rq stalled s t \<longleftrightarrow> share_step rq stalled s t \<and> cpc t i = cpc s i"

abbreviation others_steps :: "nat \<Rightarrow> (nat \<Rightarrow> request) \<Rightarrow> nat set \<Rightarrow> sharing \<Rightarrow> sharing \<Rightarrow> bool" where
  "others_steps i rq stalled \<equiv> (others_step i rq stalled)\<^sup>*\<^sup>*"

text \<open>What everyone but \<open>i\<close> can see of a state.\<close>

definition agree :: "nat \<Rightarrow> sharing \<Rightarrow> sharing \<Rightarrow> bool" where
  "agree i s t \<longleftrightarrow> shared t = shared s \<and> file_mutex t = file_mutex s \<and>
     (\<forall>j. j \<noteq> i \<longrightarrow> cpc t j = cpc s j \<and> sent t j = sent s j)"

lemma agree_refl [simp]: "agree i s s"
  by (simp add: agree_def)

text \<open>A step of another thread is open to it wherever that looks the same, whatever \<open>i\<close> wants.\<close>

lemma others_packet:
  assumes "packet_step rq s s'" "cpc s' i = cpc s i" "agree i s t"
  shows "\<exists>t'. packet_step (rq(i := q)) t t' \<and> agree i s' t' \<and> cpc t' i = cpc t i \<and> sent t' i = sent t i"
  using assms
proof (induction rule: packet_step.induct)
  case (lock_write s j p)
  then have "j \<noteq> i" by auto
  with lock_write show ?case
    by - (intro exI conjI, rule packet_step.lock_write [of t j "rq(i := q)" p], auto simp: agree_def)
next
  case (write_some s j n p m)
  then have "j \<noteq> i" by auto
  with write_some show ?case
    by - (intro exI conjI, rule packet_step.write_some [of t j n "rq(i := q)" p m], auto simp: agree_def)
next
  case (write_fails s j n p)
  then have "j \<noteq> i" by auto
  with write_fails show ?case
    by - (intro exI conjI, rule packet_step.write_fails [of t j n "rq(i := q)" p], auto simp: agree_def)
next
  case (write_done s j p)
  then have "j \<noteq> i" by auto
  with write_done show ?case
    by - (intro exI conjI, rule packet_step.write_done [of t j p "rq(i := q)"], auto simp: agree_def)
next
  case (lock_seek s j wc off)
  then have "j \<noteq> i" by auto
  with lock_seek show ?case
    by - (intro exI conjI, rule packet_step.lock_seek [of t j "rq(i := q)" wc off], auto simp: agree_def)
next
  case (seek_moves s j wc off pos)
  then have "j \<noteq> i" by auto
  with seek_moves show ?case
    by - (intro exI conjI, rule packet_step.seek_moves [of t j "rq(i := q)" wc off pos], auto simp: agree_def)
next
  case (seek_fails s j wc off)
  then have "j \<noteq> i" by auto
  with seek_fails show ?case
    by - (intro exI conjI, rule packet_step.seek_fails [of t j "rq(i := q)" wc off], auto simp: agree_def)
qed

lemma others_rewind:
  assumes "rewind_step rq s s'" "cpc s' i = cpc s i" "agree i s t"
  shows "\<exists>t'. rewind_step (rq(i := q)) t t' \<and> agree i s' t' \<and> cpc t' i = cpc t i \<and> sent t' i = sent t i"
  using assms
proof (induction rule: rewind_step.induct)
  case (hangup s j)
  then have "j \<noteq> i" by auto
  with hangup show ?case
    by - (intro exI conjI, rule rewind_step.hangup [of t j "rq(i := q)"], auto simp: agree_def)
next
  case (rewind s j)
  then have "j \<noteq> i" by auto
  with rewind show ?case
    by - (intro exI conjI, rule rewind_step.rewind [of t j "rq(i := q)"], auto simp: agree_def)
next
  case (rewind_fails s j)
  then have "j \<noteq> i" by auto
  with rewind_fails show ?case
    by - (intro exI conjI, rule rewind_step.rewind_fails [of t j "rq(i := q)"], auto simp: agree_def)
qed

lemma others_send:
  assumes "send_step stalled s s'" "cpc s' i = cpc s i" "agree i s t"
  shows "\<exists>t'. send_step stalled t t' \<and> agree i s' t' \<and> cpc t' i = cpc t i \<and> sent t' i = sent t i"
  using assms
proof (induction rule: send_step.induct)
  case (lock_send s j pos)
  then have "j \<noteq> i" by auto
  with lock_send show ?case
    by - (intro exI conjI, rule send_step.lock_send [of t j pos], auto simp: agree_def)
next
  case (send_refused s j pos)
  then have "j \<noteq> i" by auto
  with send_refused show ?case
    by - (intro exI conjI, rule send_step.send_refused [of t j pos], auto simp: agree_def)
next
  case (read_chunk s j pos bs rest)
  then have "j \<noteq> i" by auto
  with read_chunk show ?case
    by - (intro exI conjI, rule send_step.read_chunk [of t j pos bs rest], auto simp: agree_def)
next
  case (read_end s j pos)
  then have "j \<noteq> i" by auto
  with read_end show ?case
    by - (intro exI conjI, rule send_step.read_end [of t j pos], auto simp: agree_def)
next
  case (read_fails s j pos)
  then have "j \<noteq> i" by auto
  with read_fails show ?case
    by - (intro exI conjI, rule send_step.read_fails [of t j pos], auto simp: agree_def)
next
  case (send_chunk s j pos bs)
  then have "j \<noteq> i" by auto
  with send_chunk show ?case
    by - (intro exI conjI, rule send_step.send_chunk [of t j pos bs], auto simp: agree_def)
next
  case (send_fails s j pos bs bs')
  then have "j \<noteq> i" by auto
  with send_fails show ?case
    by - (intro exI conjI, rule send_step.send_fails [of t j pos bs bs'], auto simp: agree_def)
qed

lemma others_step_replay:
  assumes "others_step i rq stalled s s'" "agree i s t"
  shows "\<exists>t'. share_step (rq(i := q)) stalled t t' \<and> agree i s' t' \<and> cpc t' i = cpc t i \<and> sent t' i = sent t i"
proof -
  have c: "cpc s' i = cpc s i" and st: "share_step rq stalled s s'"
    using assms(1) by (simp_all add: others_step_def)
  from st show ?thesis
  proof (cases rule: share_step.cases)
    case packet
    from others_packet [OF packet c assms(2), of q] show ?thesis by (blast intro: share_step.packet)
  next
    case rewinds
    from others_rewind [OF rewinds c assms(2), of q] show ?thesis by (blast intro: share_step.rewinds)
  next
    case sends
    from others_send [OF sends c assms(2)] show ?thesis by (blast intro: share_step.sends)
  qed
qed

lemma others_replay:
  assumes "others_steps i rq stalled s s'" "agree i s t"
  shows "\<exists>t'. others_steps i (rq(i := q)) stalled t t' \<and> agree i s' t' \<and> cpc t' i = cpc t i \<and> sent t' i = sent t i"
  using assms(1)
proof (induction rule: rtranclp_induct)
  case base
  with assms(2) show ?case by blast
next
  case (step s1 s2)
  then obtain t1 where t1: "others_steps i (rq(i := q)) stalled t t1" "agree i s1 t1" "cpc t1 i = cpc t i" "sent t1 i = sent t i"
    by blast
  obtain t2 where t2: "share_step (rq(i := q)) stalled t1 t2" "agree i s2 t2" "cpc t2 i = cpc t1 i" "sent t2 i = sent t1 i"
    using others_step_replay [OF step.hyps(2) t1(2), of q] by blast
  then have "others_step i (rq(i := q)) stalled t1 t2" by (simp add: others_step_def)
  with t1 t2 show ?case by (metis rtranclp.rtrancl_into_rtrancl)
qed

lemma others_are_steps: "others_steps i rq stalled s t \<Longrightarrow> share_steps rq stalled s t"
  by (induction rule: rtranclp_induct) (auto simp: others_step_def intro: rtranclp.rtrancl_into_rtrancl)

text \<open>While a thread has the mutex no other gets at the device.\<close>

lemma others_step_device:
  assumes "others_step i rq stalled s t" "share_inv d rq s" "holds (cpc s i)"
  shows "shared t = shared s"
proof -
  have st: "share_step rq stalled s t" "cpc t i = cpc s i" using assms(1) by (simp_all add: others_step_def)
  have no: "j = i" if "cpc s j = Writing n" for j n
    using inv_others [OF assms(2,3), of j] that by (cases "j = i") simp_all
  from st(1) consider "packet_step rq s t" | "rewind_step rq s t" | "send_step stalled s t"
    by (blast elim: share_stepE)
  then show ?thesis
  proof cases
    case 1
    then show ?thesis
    proof (cases rule: packet_step.cases)
      case (write_some j n p m)
      with no [OF write_some(2)] st(2) show ?thesis by simp
    qed simp_all
  qed (auto elim: rewind_step.cases send_step.cases)
qed

lemma others_steps_device:
  assumes "others_steps i rq stalled s t" "share_inv d rq s" "packets rq" "holds (cpc s i)"
  shows "shared t = shared s \<and> share_inv d rq t \<and> cpc t i = cpc s i"
  using assms(1)
proof (induction rule: rtranclp_induct)
  case (step t u)
  then have "share_inv d rq u" using share_inv_step assms(3) unfolding others_step_def by blast
  moreover have "shared u = shared t"
    by (rule others_step_device [OF step.hyps(2), of d]) (use step.IH assms(4) in simp_all)
  ultimately show ?case using step by (simp add: others_step_def)
qed (use assms(2) in simp)

text \<open>Until a thread moves, only the others have.\<close>

lemma never_back: "share_step rq stalled s t \<Longrightarrow> cpc t i = Start \<Longrightarrow> cpc s i = Start"
  by (auto elim!: share_stepE packet_step.cases rewind_step.cases send_step.cases split: if_splits)

lemma others_before:
  "share_steps rq stalled s t \<Longrightarrow> cpc t i = Start \<Longrightarrow> others_steps i rq stalled s t"
proof (induction rule: rtranclp_induct)
  case (step t u)
  then have "cpc t i = Start" by (blast intro: never_back)
  with step show ?case by (metis others_step_def rtranclp.rtrancl_into_rtrancl)
qed simp

section \<open>Following one thread\<close>

text \<open>
  Unlocking is no call that takes time: a thread that has released the mutex is seen to have
  done so when it next calls something.
\<close>

definition release :: "nat \<Rightarrow> sharing \<Rightarrow> sharing" where
  "release i s = (if file_mutex s = Some i then s\<lparr>file_mutex := None\<rparr> else s)"

definition seen :: "nat \<Rightarrow> client_pc \<Rightarrow> sharing \<Rightarrow> sharing" where
  "seen i c s = (if holds c then s else release i s)"

text \<open>
  In the state \<open>s\<close> of everyone else, the thread \<open>i\<close>, whose client sends \<open>q\<close>, can be at \<open>c\<close> and have
  sent \<open>out\<close>: there is a run that ends so.
\<close>

definition tracks :: "nat \<Rightarrow> (nat \<Rightarrow> request) \<Rightarrow> nat set \<Rightarrow> device \<Rightarrow> request \<Rightarrow> client_pc \<Rightarrow> char list \<Rightarrow> sharing \<Rightarrow> bool" where
  "tracks i rq stalled d q c out s \<longleftrightarrow>
     packets (rq(i := q)) \<and> (holds c \<longrightarrow> file_mutex s = Some i) \<and>
     (\<exists>t. share_steps (rq(i := q)) stalled (sharing_start d) t \<and> cpc t i = c \<and> sent t i = out \<and>
       agree i (seen i c s) t)"

lemma release_free [simp]: "file_mutex s \<noteq> Some i \<Longrightarrow> release i s = s"
  by (simp add: release_def)

lemma release_sel [simp]:
  "shared (release i s) = shared s" "cpc (release i s) = cpc s" "sent (release i s) = sent s"
  "file_mutex s = Some i \<Longrightarrow> file_mutex (release i s) = None"
  by (simp_all add: release_def)

lemma agree_inv:
  "share_steps rq stalled (sharing_start d) t \<Longrightarrow> packets rq \<Longrightarrow> share_inv d rq t"
  by (rule share_inv_steps [OF _ share_inv_start])

lemma tracks_others:
  assumes tr: "tracks i rq stalled d q c out s" and env: "others_steps i rq stalled (seen i c s) s'"
  shows "tracks i rq stalled d q c out s'" "seen i c s' = s'" "holds c \<Longrightarrow> shared s' = shared s"
proof -
  obtain t where t: "share_steps (rq(i := q)) stalled (sharing_start d) t" "cpc t i = c" "sent t i = out"
    "agree i (seen i c s) t" and pk: "packets (rq(i := q))"
    using tr unfolding tracks_def by blast
  obtain t' where t': "others_steps i (rq(i := q)) stalled t t'" "agree i s' t'" "cpc t' i = c" "sent t' i = out"
    using others_replay [OF env t(4), of q] t(2,3) by auto
  have run: "share_steps (rq(i := q)) stalled (sharing_start d) t'"
    using t(1) others_are_steps [OF t'(1)] by (rule rtranclp_trans)
  have m: "file_mutex s' = Some i \<longleftrightarrow> holds c"
    using inv_mutex [OF agree_inv [OF run pk], of i] t'(2,3) by (simp add: agree_def)
  then show *: "seen i c s' = s'" by (simp add: seen_def)
  show "tracks i rq stalled d q c out s'" using run t' m pk unfolding tracks_def * by blast
  show "shared s' = shared s" if h: "holds c"
    using others_steps_device [OF t'(1) agree_inv [OF t(1) pk] pk] t(2,4) t'(2) h by (simp add: agree_def seen_def)
qed

lemma tracks_outside:
  "tracks i rq stalled d q c out s \<Longrightarrow> \<not> holds c \<Longrightarrow> others_steps i rq stalled (release i s) s' \<Longrightarrow>
     tracks i rq stalled d q c out s'"
  by (rule tracks_others(1)) (simp_all add: seen_def)

lemma tracks_inside:
  "tracks i rq stalled d q c out s \<Longrightarrow> holds c \<Longrightarrow> others_steps i rq stalled s s' \<Longrightarrow>
     tracks i rq stalled d q c out s'"
  by (rule tracks_others(1)) (simp_all add: seen_def)

lemma tracks_device:
  "tracks i rq stalled d q c out s \<Longrightarrow> holds c \<Longrightarrow> others_steps i rq stalled s s' \<Longrightarrow> shared s' = shared s"
  by (rule tracks_others(3)) (simp_all add: seen_def)

lemma tracks_step:
  assumes tr: "tracks i rq stalled d q c out s" and hold: "holds c' \<Longrightarrow> file_mutex s' = Some i"
    and step: "\<And>t. cpc t i = c \<Longrightarrow> sent t i = out \<Longrightarrow> agree i (seen i c s) t \<Longrightarrow>
      \<exists>t'. share_step (rq(i := q)) stalled t t' \<and> cpc t' i = c' \<and> sent t' i = out' \<and> agree i (seen i c' s') t'"
  shows "tracks i rq stalled d q c' out' s'"
proof -
  obtain t where t: "share_steps (rq(i := q)) stalled (sharing_start d) t" "cpc t i = c" "sent t i = out"
    "agree i (seen i c s) t" and pk: "packets (rq(i := q))"
    using tr unfolding tracks_def by blast
  from step [OF t(2-4)] t(1) pk hold show ?thesis
    unfolding tracks_def by (metis rtranclp.rtrancl_into_rtrancl)
qed

lemmas tracks_by_packet = tracks_step [OF _ _ exI, OF _ _ conjI, OF _ _ share_step.packet]
lemmas tracks_by_rewind = tracks_step [OF _ _ exI, OF _ _ conjI, OF _ _ share_step.rewinds]
lemmas tracks_by_send = tracks_step [OF _ _ exI, OF _ _ conjI, OF _ _ share_step.sends]

text \<open>The thread's own steps: those that only move it, \<close>

lemma tracks_hangup: "tracks i rq stalled d Hangup Start out s \<Longrightarrow> tracks i rq stalled d Hangup Rewinding out s"
  by (erule tracks_by_rewind, simp, rule hangup) (auto simp: agree_def seen_def)

lemma tracks_rewind: "tracks i rq stalled d q Rewinding out s \<Longrightarrow> tracks i rq stalled d q (Ready 0) out s"
  by (erule tracks_by_rewind, simp, rule rewind) (auto simp: agree_def seen_def)

lemma tracks_rewind_fails: "tracks i rq stalled d q Rewinding out s \<Longrightarrow> tracks i rq stalled d q Failed out s"
  by (erule tracks_by_rewind, simp, rule rewind_fails) (auto simp: agree_def seen_def)

lemma tracks_refused: "tracks i rq stalled d q (Ready pos) out s \<Longrightarrow> tracks i rq stalled d q Failed out s"
  by (erule tracks_by_send, simp, rule send_refused) (auto simp: agree_def seen_def)

text \<open>those that let go of the mutex, \<close>

lemma tracks_mutex: "tracks i rq stalled d q c out s \<Longrightarrow> holds c \<Longrightarrow> file_mutex s = Some i"
  by (simp add: tracks_def)

lemma tracks_write_fails:
  assumes "tracks i rq stalled d (Line p) (Writing n) out s" "n < length p"
  shows "tracks i rq stalled d (Line p) Failed out s"
  by (rule tracks_by_packet [OF assms(1)], simp, rule write_fails)
    (use assms(2) tracks_mutex [OF assms(1)] in \<open>auto simp: agree_def seen_def\<close>)

lemma tracks_write_done:
  assumes "tracks i rq stalled d (Line p) (Writing (length p)) out s"
  shows "tracks i rq stalled d (Line p) Rewinding out s"
  by (rule tracks_by_packet [OF assms(1)], simp, rule write_done)
    (use tracks_mutex [OF assms(1)] in \<open>auto simp: agree_def seen_def\<close>)

lemma tracks_seek_fails:
  assumes "tracks i rq stalled d (Seek wc off) Seeking out s"
  shows "tracks i rq stalled d (Seek wc off) Failed out s"
  by (rule tracks_by_packet [OF assms(1)], simp, rule seek_fails)
    (use tracks_mutex [OF assms(1)] in \<open>auto simp: agree_def seen_def\<close>)

lemma tracks_seek_moves:
  assumes "tracks i rq stalled d (Seek wc off) Seeking out s" "seekto_spec (fst (shared s)) wc off = Some pos"
  shows "tracks i rq stalled d (Seek wc off) (Ready pos) out s"
  by (rule tracks_by_packet [OF assms(1)], simp, rule seek_moves)
    (use assms(2) tracks_mutex [OF assms(1)] in \<open>auto simp: agree_def seen_def\<close>)

lemma tracks_read_end:
  assumes "tracks i rq stalled d q (Reading pos) out s" "drop pos (contents (shared s)) = []"
  shows "tracks i rq stalled d q Finished out s"
  by (rule tracks_by_send [OF assms(1)], simp, rule read_end)
    (use assms(2) tracks_mutex [OF assms(1)] in \<open>auto simp: agree_def seen_def\<close>)

lemma tracks_read_fails:
  assumes "tracks i rq stalled d q (Reading pos) out s"
  shows "tracks i rq stalled d q Failed out s"
  by (rule tracks_by_send [OF assms(1)], simp, rule read_fails)
    (use tracks_mutex [OF assms(1)] in \<open>auto simp: agree_def seen_def\<close>)

lemma tracks_send_fails:
  assumes "tracks i rq stalled d q (Sending pos (bs @ bs')) out s" "i \<notin> stalled"
  shows "tracks i rq stalled d q Failed (out @ bs) s"
  by (rule tracks_by_send [OF assms(1)], simp, rule send_fails)
    (use assms(2) tracks_mutex [OF assms(1)] in \<open>auto simp: agree_def seen_def\<close>)

text \<open>those that take it, \<close>

lemma tracks_lock_write:
  assumes "tracks i rq stalled d (Line p) Start out s" "file_mutex s = None"
  shows "tracks i rq stalled d (Line p) (Writing 0) out (s\<lparr>file_mutex := Some i\<rparr>)"
  by (rule tracks_by_packet [OF assms(1)], simp, rule lock_write) (use assms(2) in \<open>auto simp: agree_def seen_def\<close>)

lemma tracks_lock_seek:
  assumes "tracks i rq stalled d (Seek wc off) Start out s" "file_mutex s = None"
  shows "tracks i rq stalled d (Seek wc off) Seeking out (s\<lparr>file_mutex := Some i\<rparr>)"
  by (rule tracks_by_packet [OF assms(1)], simp, rule lock_seek) (use assms(2) in \<open>auto simp: agree_def seen_def\<close>)

lemma tracks_lock_send:
  assumes "tracks i rq stalled d q (Ready pos) out s" "file_mutex s = None"
  shows "tracks i rq stalled d q (Reading pos) out (s\<lparr>file_mutex := Some i\<rparr>)"
  by (rule tracks_by_send [OF assms(1)], simp, rule lock_send) (use assms(2) in \<open>auto simp: agree_def seen_def\<close>)

text \<open>and those inside.\<close>

lemma tracks_write_some:
  assumes "tracks i rq stalled d (Line p) (Writing n) out s" "n + m \<le> length p"
  shows "tracks i rq stalled d (Line p) (Writing (n + m)) out
    (s\<lparr>shared := write_spec (shared s) (take m (drop n p))\<rparr>)"
proof (cases "m = 0")
  case False
  show ?thesis
      by (rule tracks_by_packet [OF assms(1)], use tracks_mutex [OF assms(1)] in simp, rule write_some [where m = m])
      (use False assms(2) in \<open>auto simp: agree_def seen_def\<close>)
qed (use assms(1) in simp)

lemma tracks_read_chunk:
  assumes "tracks i rq stalled d q (Reading pos) out s" "bs \<noteq> []" "drop pos (contents (shared s)) = bs @ rest"
  shows "tracks i rq stalled d q (Sending pos bs) out s"
  by (rule tracks_by_send [OF assms(1)], use tracks_mutex [OF assms(1)] in simp, rule read_chunk [where bs = bs and rest = rest])
    (use assms(2,3) in \<open>auto simp: agree_def seen_def\<close>)

lemma tracks_send_chunk:
  assumes "tracks i rq stalled d q (Sending pos bs) out s" "i \<notin> stalled"
  shows "tracks i rq stalled d q (Reading (pos + length bs)) (out @ bs) s"
  by (rule tracks_by_send [OF assms(1)], use tracks_mutex [OF assms(1)] in simp, rule send_chunk [where bs = bs])
    (use assms(2) in \<open>auto simp: agree_def seen_def\<close>)

text \<open>A thread that has not moved can still want anything.\<close>

lemma tracks_start:
  assumes "share_steps rq stalled (sharing_start d) s" "cpc s i = Start" "packets rq" "packets (rq(i := q))"
  shows "tracks i rq stalled d q Start [] s"
proof -
  have "file_mutex s \<noteq> Some i" using inv_mutex [OF agree_inv [OF assms(1,3)], of i] assms(2) by simp
  then have s: "seen i Start s = s" by (simp add: seen_def)
  from others_replay [OF others_before [OF assms(1,2)] agree_refl, of q] obtain t where
    "others_steps i (rq(i := q)) stalled (sharing_start d) t" "agree i s t" "cpc t i = Start" "sent t i = []"
    by (auto simp: sharing_start_def)
  then show ?thesis unfolding tracks_def s using assms(4) others_are_steps by (intro conjI exI [of _ t]) auto
qed

end
