(* ===== verification/Shared_Session.thy ===== *)
theory Shared_Session
  imports Sharing_Others Session_History
begin

text \<open>
  A session among others: the contract of a device that other threads use between the calls of the
  session, and the proof that under it whatever \<open>client_handler\<close> does, on every path
  on which it returns, is a run of one client of the step relation of \<open>File_Sharing\<close>.
\<close>

section \<open>The request in what was received\<close>

definition request_of :: "char list \<Rightarrow> char list \<Rightarrow> request" where
  "request_of stream extra =
     (case first_packet stream of
        None \<Rightarrow> Hangup
      | Some (line, rest) \<Rightarrow>
          (case packet_request (packet_string line extra) of
             Some (wc, off) \<Rightarrow> Seek wc off
           | None \<Rightarrow> Line (line @ [newline])))"

text \<open>The bytes received decide, those after the newline too.\<close>

definition received_request :: "char list \<Rightarrow> request" where
  "received_request bs = request_of bs (case first_packet bs of None \<Rightarrow> [] | Some (line, rest) \<Rightarrow> rest)"

lemma request_packets: "packets rq \<Longrightarrow> packets (rq(i := request_of stream extra))"
proof -
  assume "packets rq"
  moreover have "\<exists>line. p = line @ [newline] \<and> newline \<notin> set line" if "request_of stream extra = Line p" for p
    using that first_packet_Some [of stream]
    by (auto simp: request_of_def split: option.splits prod.splits)
  ultimately show ?thesis by (simp add: packets_def)
qed

lemma string_of_line:
  "NUL \<notin> set line \<Longrightarrow> takeWhile (\<lambda>c. c \<noteq> NUL) (line @ newline # rest) = line @ newline # takeWhile (\<lambda>c. c \<noteq> NUL) rest"
  by (subst takeWhile_append2) auto

lemma no_packet_yet:
  assumes "strchr (takeWhile (\<lambda>c. c \<noteq> NUL) bs) newline = None"
  shows "first_packet bs = None" "received_request bs = Hangup"
proof -
  show "first_packet bs = None"
  proof (cases "first_packet bs")
    case (Some a)
    then obtain line rest where "first_packet bs = Some (line, rest)" by (cases a) auto
    note fp = first_packet_Some [OF this]
    then have "newline \<in> set (takeWhile (\<lambda>c. c \<noteq> NUL) bs)" using string_of_line by simp
    with assms show ?thesis by (simp add: strchr_None_iff)
  qed
  then show "received_request bs = Hangup" by (simp add: received_request_def request_of_def)
qed

lemma first_packet_line:
  assumes "newline \<notin> set line" "NUL \<notin> set line"
  shows "first_packet (line @ newline # rest) = Some (line, rest)"
proof -
  have "takeWhile (\<lambda>c. c \<noteq> newline \<and> c \<noteq> NUL) (line @ newline # rest) = line"
    using assms by (subst takeWhile_append2) auto
  then show ?thesis by (simp add: first_packet_def)
qed

lemma packet_received:
  assumes "strchr (takeWhile (\<lambda>c. c \<noteq> NUL) bs) newline = Some pos"
  shows "received_request bs =
    (case packet_request (takeWhile (\<lambda>c. c \<noteq> NUL) bs) of
       Some (wc, off) \<Rightarrow> Seek wc off | None \<Rightarrow> Line (take (pos + 1) bs))"
    "pos < length bs"
proof -
  let ?s = "takeWhile (\<lambda>c. c \<noteq> NUL) bs"
  have s: "pos < length ?s" "?s ! pos = newline" "newline \<notin> set (take pos ?s)"
    using assms by (simp_all add: strchr_Some_iff)
  have t: "take n ?s = take n bs" if "n \<le> length ?s" for n
    using that by (metis takeWhile_eq_take take_take min.absorb1)
  show pos: "pos < length bs" using s(1) length_takeWhile_le order_less_le_trans by blast
  have "bs ! pos = newline" using s(1,2) by (simp add: takeWhile_nth)
  then have bs: "bs = take pos bs @ newline # drop (Suc pos) bs" using pos by (metis id_take_nth_drop)
  have line: "newline \<notin> set (take pos bs)" "NUL \<notin> set (take pos bs)"
    using s(3) t [of pos] s(1) by (simp_all, metis (full_types) in_set_takeD set_takeWhileD)
  have "first_packet bs = Some (take pos bs, drop (Suc pos) bs)"
    using first_packet_line [OF line] bs by metis
  moreover have "packet_string (take pos bs) (drop (Suc pos) bs) = ?s"
    using bs by (simp add: packet_string_def)
  moreover have "take (pos + 1) bs = take pos bs @ [newline]"
    using pos \<open>bs ! pos = newline\<close> by (simp add: take_Suc_conv_app_nth)
  ultimately show "received_request bs =
    (case packet_request ?s of Some (wc, off) \<Rightarrow> Seek wc off | None \<Rightarrow> Line (take (pos + 1) bs))"
    by (simp add: received_request_def request_of_def split: option.split)
qed

section \<open>The contract\<close>

text \<open>
  What can be seen of the outside: the state of the other clients, the mutex and the device; the
  position of the open file; the peer's bytes that are still to be received, and those sent to it.
\<close>

record among =
  a_sh :: sharing
  a_pos :: nat
  a_in :: "char list"
  a_out :: "char list"

text \<open>A call outside the mutex, before which anything may happen; a call inside; getting in.\<close>

definition idle :: "nat \<Rightarrow> (nat \<Rightarrow> request) \<Rightarrow> nat set \<Rightarrow> among \<Rightarrow> among \<Rightarrow> bool" where
  "idle i rq stalled v v' \<longleftrightarrow>
     others_steps i rq stalled (release i (a_sh v)) (a_sh v') \<and> v' = v\<lparr>a_sh := a_sh v'\<rparr>"

definition busy :: "nat \<Rightarrow> (nat \<Rightarrow> request) \<Rightarrow> nat set \<Rightarrow> among \<Rightarrow> among \<Rightarrow> bool" where
  "busy i rq stalled v v' \<longleftrightarrow>
     others_steps i rq stalled (a_sh v) (a_sh v') \<and> v' = v\<lparr>a_sh := a_sh v'\<rparr>"

definition takes_mutex :: "nat \<Rightarrow> (nat \<Rightarrow> request) \<Rightarrow> nat set \<Rightarrow> among \<Rightarrow> among \<Rightarrow> bool" where
  "takes_mutex i rq stalled v v' \<longleftrightarrow>
     (\<exists>s. others_steps i rq stalled (release i (a_sh v)) s \<and> file_mutex s = None \<and>
       v' = v\<lparr>a_sh := s\<lparr>file_mutex := Some i\<rparr>\<rparr>)"

locale shared_device =
  fixes os :: "'w os" and cfd ffd :: int and i :: nat and rq :: "nat \<Rightarrow> request" and stalled :: "nat set"
    and d :: device and good :: "'w \<Rightarrow> bool" and view :: "'w \<Rightarrow> among"
  assumes reads: "i \<notin> stalled"
    and active: "good w \<Longrightarrow> os_active os w = (act, w') \<Longrightarrow> good w' \<and> idle i rq stalled (view w) (view w')"
    and locked: "good w \<Longrightarrow> good (os_lock_file os w) \<and> takes_mutex i rq stalled (view w) (view (os_lock_file os w))"
    and list_locked: "good w \<Longrightarrow> good (os_lock_list os w) \<and> idle i rq stalled (view w) (view (os_lock_list os w))"
    and closed: "good w \<Longrightarrow> good (os_close os fd w) \<and> idle i rq stalled (view w) (view (os_close os fd w))"
    and malloc: "good w \<Longrightarrow> os_malloc os n w = (r, w') \<Longrightarrow>
      good w' \<and> idle i rq stalled (view w) (view w') \<and> (\<forall>b. r = Some b \<longrightarrow> length b = n)"
    and reallocate: "good w \<Longrightarrow> length buf \<le> n \<Longrightarrow> os_realloc os buf n w = (r, w') \<Longrightarrow>
      good w' \<and> idle i rq stalled (view w) (view w') \<and>
      (\<forall>b. r = Some b \<longrightarrow> length b = n \<and> take (length buf) b = buf)"
    and no_recv: "good w \<Longrightarrow> os_recv os cfd n w = (None, w') \<Longrightarrow> good w' \<and> idle i rq stalled (view w) (view w')"
    and recv: "good w \<Longrightarrow> os_recv os cfd n w = (Some bs, w') \<Longrightarrow>
      good w' \<and> length bs \<le> n \<and> a_in (view w) = bs @ a_in (view w') \<and>
      idle i rq stalled (view w\<lparr>a_in := a_in (view w')\<rparr>) (view w')"
    and opened: "good w \<Longrightarrow> os_open os w = (fd, w') \<Longrightarrow>
      good w' \<and> (fd = - 1 \<or> fd = ffd) \<and> (\<exists>p. idle i rq stalled (view w\<lparr>a_pos := p\<rparr>) (view w'))"
    and seeked: "good w \<Longrightarrow> os_lseek os ffd 0 0 w = (x, w') \<Longrightarrow>
      good w' \<and> (\<exists>p. idle i rq stalled (view w\<lparr>a_pos := p\<rparr>) (view w') \<and> (x \<noteq> - 1 \<longrightarrow> p = 0))"
    and controlled: "good w \<Longrightarrow> file_mutex (a_sh (view w)) = Some i \<Longrightarrow>
      os_ioctl os ffd AESDCHAR_IOCSEEKTO arg w = (x, w') \<Longrightarrow>
      good w' \<and> (\<exists>p. busy i rq stalled (view w\<lparr>a_pos := p\<rparr>) (view w') \<and>
        (0 \<le> x \<longrightarrow> seekto_spec (fst (shared (a_sh (view w')))) (unat (write_cmd arg)) (unat (write_cmd_offset arg)) = Some p))"
    and no_write: "good w \<Longrightarrow> file_mutex (a_sh (view w)) = Some i \<Longrightarrow> bs \<noteq> [] \<Longrightarrow> length bs \<le> INT_MAX \<Longrightarrow>
      os_write os ffd bs w = (None, w') \<Longrightarrow> good w' \<and> (\<exists>p. busy i rq stalled (view w\<lparr>a_pos := p\<rparr>) (view w'))"
    and written: "good w \<Longrightarrow> file_mutex (a_sh (view w)) = Some i \<Longrightarrow> bs \<noteq> [] \<Longrightarrow> length bs \<le> INT_MAX \<Longrightarrow>
      os_write os ffd bs w = (Some n, w') \<Longrightarrow>
      good w' \<and> 0 < n \<and> n \<le> length bs \<and> (\<exists>p s. others_steps i rq stalled (a_sh (view w)) s \<and>
        view w' = view w\<lparr>a_pos := p, a_sh := s\<lparr>shared := write_spec (shared s) (take n bs)\<rparr>\<rparr>)"
    and no_read: "good w \<Longrightarrow> file_mutex (a_sh (view w)) = Some i \<Longrightarrow> os_read os ffd 1024 w = (None, w') \<Longrightarrow>
      good w' \<and> (\<exists>p. busy i rq stalled (view w\<lparr>a_pos := p\<rparr>) (view w'))"
    and read: "good w \<Longrightarrow> file_mutex (a_sh (view w)) = Some i \<Longrightarrow> os_read os ffd 1024 w = (Some bs, w') \<Longrightarrow>
      good w' \<and> busy i rq stalled (view w\<lparr>a_pos := a_pos (view w) + length bs\<rparr>) (view w') \<and>
      (\<exists>rest. drop (a_pos (view w)) (contents (shared (a_sh (view w')))) = bs @ rest \<and> (bs = [] \<longrightarrow> rest = []))"
    and no_send: "good w \<Longrightarrow> file_mutex (a_sh (view w)) = Some i \<Longrightarrow> os_send os cfd bs w = (None, w') \<Longrightarrow>
      good w' \<and> busy i rq stalled (view w) (view w')"
    and send: "good w \<Longrightarrow> file_mutex (a_sh (view w)) = Some i \<Longrightarrow> bs \<noteq> [] \<Longrightarrow>
      os_send os cfd bs w = (Some n, w') \<Longrightarrow> good w' \<and> 0 < n \<and> n \<le> length bs \<and>
      busy i rq stalled (view w\<lparr>a_out := a_out (view w) @ take n bs\<rparr>) (view w')"
begin

abbreviation at :: "request \<Rightarrow> client_pc \<Rightarrow> char list \<Rightarrow> 'w \<Rightarrow> bool" where
  "at q c out w \<equiv> tracks i rq stalled d q c out (a_sh (view w))"

abbreviation same_io :: "'w \<Rightarrow> 'w \<Rightarrow> bool" where
  "same_io w w' \<equiv> a_in (view w') = a_in (view w) \<and> a_out (view w') = a_out (view w)"

section \<open>Calls\<close>

lemma idle_at:
  assumes "idle i rq stalled v (view w')" "a_sh v = a_sh (view w)" "at q c out w" "\<not> holds c"
  shows "at q c out w'" "a_in (view w') = a_in v" "a_out (view w') = a_out v" "a_pos (view w') = a_pos v"
proof -
  have v: "view w' = v\<lparr>a_sh := a_sh (view w')\<rparr>" using assms(1) by (simp add: idle_def)
  show "a_in (view w') = a_in v" "a_out (view w') = a_out v" "a_pos (view w') = a_pos v"
    by (subst v, simp)+
  show "at q c out w'"
    using tracks_outside [OF assms(3,4)] assms(1,2) by (simp add: idle_def)
qed

lemma busy_at:
  assumes "busy i rq stalled v (view w')" "a_sh v = a_sh (view w)" "at q c out w" "holds c"
  shows "at q c out w'" "a_in (view w') = a_in v" "a_out (view w') = a_out v" "a_pos (view w') = a_pos v"
proof -
  have v: "view w' = v\<lparr>a_sh := a_sh (view w')\<rparr>" using assms(1) by (simp add: busy_def)
  show "a_in (view w') = a_in v" "a_out (view w') = a_out v" "a_pos (view w') = a_pos v"
    by (subst v, simp)+
  show "at q c out w'"
    using tracks_inside [OF assms(3,4)] assms(1,2) by (simp add: busy_def)
qed

text \<open>Getting the mutex, for each of its three uses.\<close>

lemma locked_at:
  assumes "good w" "at q c out w" "\<not> holds c"
    and lock: "\<And>s. tracks i rq stalled d q c out s \<Longrightarrow> file_mutex s = None \<Longrightarrow>
      tracks i rq stalled d q c' out (s\<lparr>file_mutex := Some i\<rparr>)"
  shows "good (os_lock_file os w)" "at q c' out (os_lock_file os w)" "same_io w (os_lock_file os w)"
    "a_pos (view (os_lock_file os w)) = a_pos (view w)"
proof -
  show "good (os_lock_file os w)" using locked assms(1) by blast
  have "takes_mutex i rq stalled (view w) (view (os_lock_file os w))" using locked assms(1) by blast
  then obtain s where s: "others_steps i rq stalled (release i (a_sh (view w))) s" "file_mutex s = None"
    "view (os_lock_file os w) = view w\<lparr>a_sh := s\<lparr>file_mutex := Some i\<rparr>\<rparr>"
    unfolding takes_mutex_def by blast
  from lock [OF tracks_outside [OF assms(2,3) s(1)] s(2)]
  show "at q c' out (os_lock_file os w)" "same_io w (os_lock_file os w)"
    "a_pos (view (os_lock_file os w)) = a_pos (view w)"
    by (simp_all add: s(3))
qed

lemma locked_write:
  assumes "good w" "at (Line p) Start out w"
  shows "good (os_lock_file os w)" "at (Line p) (Writing 0) out (os_lock_file os w)" "same_io w (os_lock_file os w)"
  using locked_at [OF assms, of "Writing 0"] tracks_lock_write [of i rq stalled d p out] by simp_all

lemma locked_seek:
  assumes "good w" "at (Seek wc off) Start out w"
  shows "good (os_lock_file os w)" "at (Seek wc off) Seeking out (os_lock_file os w)" "same_io w (os_lock_file os w)"
  using locked_at [OF assms, of Seeking] tracks_lock_seek [of i rq stalled d wc off out] by simp_all

lemma locked_send:
  assumes "good w" "at q (Ready pos) out w"
  shows "good (os_lock_file os w)" "at q (Reading pos) out (os_lock_file os w)" "same_io w (os_lock_file os w)"
    "a_pos (view (os_lock_file os w)) = a_pos (view w)"
  using locked_at [OF assms, of "Reading pos"] tracks_lock_send [of i rq stalled d q pos out] by simp_all

section \<open>Receiving\<close>

lemma write_call_at:
  assumes good: "good w" and at: "at (Line p) (Writing n) out w" and n: "n < length p" "length p \<le> INT_MAX"
    and call: "os_write os ffd (drop n p) w = (r, w')"
  shows "good w' \<and> same_io w w' \<and>
    (case r of None \<Rightarrow> at (Line p) Failed out w'
     | Some x \<Rightarrow> 0 < x \<and> n + x \<le> length p \<and> at (Line p) (Writing (n + x)) out w')"
proof -
  have m: "file_mutex (a_sh (view w)) = Some i" using tracks_mutex [OF at] by simp
  have bs: "drop n p \<noteq> []" "length (drop n p) \<le> INT_MAX" using n by simp_all
  show ?thesis
  proof (cases r)
    case None
    with no_write [OF good m bs] call obtain p' where w: "good w'" "busy i rq stalled (view w\<lparr>a_pos := p'\<rparr>) (view w')"
      by blast
    note b = busy_at [OF w(2) _ at]
    have "at (Line p) Failed out w'" by (rule tracks_write_fails [OF b(1) n(1)]) simp_all
    with None w(1) b(2,3) show ?thesis by simp
  next
    case (Some x)
    with written [OF good m bs] call obtain p' s where w: "good w'" "0 < x" "x \<le> length (drop n p)"
      "others_steps i rq stalled (a_sh (view w)) s"
      "view w' = view w\<lparr>a_pos := p', a_sh := s\<lparr>shared := write_spec (shared s) (take x (drop n p))\<rparr>\<rparr>"
      by blast
    have "tracks i rq stalled d (Line p) (Writing n) out s" by (rule tracks_inside [OF at _ w(4)]) simp
    from tracks_write_some [OF this, of x] Some w n show ?thesis by simp
  qed
qed

lemma write_loop_at:
  "write_loop k os ffd buf n (length p) st = Some r \<Longrightarrow> good (env st) \<Longrightarrow> at (Line p) (Writing n) out (env st) \<Longrightarrow>
     take (length p) buf = p \<Longrightarrow> length p \<le> INT_MAX \<Longrightarrow> n \<le> length p \<Longrightarrow>
     \<exists>b st'. r = Ret b st' \<and> good (env st') \<and> at (Line p) (if b then Writing (length p) else Failed) out (env st') \<and>
       same_io (env st) (env st')"
proof (induction k arbitrary: n st)
  case (Suc k)
  have bs: "get_bytes buf n (length p - n) = Some (drop n p)" if "n < length p"
    using that by (intro get_packet [OF Suc.prems(4)]) simp
  show ?case
  proof (cases "n < length p")
    case False
    with Suc.prems show ?thesis by (auto intro!: exI [of _ True])
  next
    case True
    obtain res w where res: "os_write os ffd (drop n p) (env st) = (res, w)" by fastforce
    note c = write_call_at [OF Suc.prems(2,3) True Suc.prems(5) res]
    show ?thesis
    proof (cases res)
      case None
      with Suc.prems(1) res True bs c show ?thesis
        by (intro exI [of _ False]) (auto simp: srv_simps free_buf_def unlock_file_def)
    next
      case (Some x)
      with Suc.prems(1) res True bs have "write_loop k os ffd buf (n + x) (length p) (st\<lparr>env := w\<rparr>) = Some r" by simp
      with Suc.IH [of "n + x" "st\<lparr>env := w\<rparr>"] Suc.prems(4,5) c Some show ?thesis by simp
    qed
  qed
qed simp

text \<open>Where a thread is after it has handled a packet.\<close>

abbreviation after_packet :: "request \<Rightarrow> char list \<Rightarrow> packet_result \<Rightarrow> 'w \<Rightarrow> bool" where
  "after_packet q out x w \<equiv>
     (case x of Packet_failed \<Rightarrow> at q Failed out w | Packet_written \<Rightarrow> at q Rewinding out w
      | Packet_seek \<Rightarrow> at q (Ready (a_pos (view w))) out w)"

lemma write_packet_at:
  assumes good: "good (env st)" and at: "at (Line p) Start out (env st)"
    and buf: "take (length p) buf = p" "length p \<le> INT_MAX"
    and run: "(case write_loop k os ffd buf 0 (length p) (lock_file os st) of
            None \<Rightarrow> None
          | Some (Undefined u) \<Rightarrow> Some (Undefined u)
          | Some (Ret False st) \<Rightarrow> Some (Ret Packet_failed st)
          | Some (Ret True st) \<Rightarrow> Some (Ret Packet_written (unlock_file st))) = Some r"
  shows "\<exists>x st'. r = Ret x st' \<and> good (env st') \<and> same_io (env st) (env st') \<and> after_packet (Line p) out x (env st')"
proof -
  obtain y where y: "write_loop k os ffd buf 0 (length p) (lock_file os st) = Some y"
    using run by (auto split: option.splits)
  note l = locked_write [OF good at]
  from write_loop_at [OF y _ _ buf, of out] l obtain b st' where b: "y = Ret b st'" "good (env st')"
    "at (Line p) (if b then Writing (length p) else Failed) out (env st')" "same_io (env st) (env st')"
    by (auto simp: lock_file_def)
  show ?thesis
  proof (cases b)
    case True
    with b(3) tracks_write_done have "at (Line p) Rewinding out (env st')" by simp
    with run y b True show ?thesis
      by (intro exI [of _ Packet_written] exI [of _ "unlock_file st'"]) (simp add: unlock_file_def)
  next
    case False
    with run y b show ?thesis by (intro exI [of _ Packet_failed] exI [of _ st']) simp
  qed
qed

lemma handle_packet_at:
  assumes run: "handle_packet k os ffd buf s pl st = Some r" and good: "good (env st)" and at: "at q Start out (env st)"
    and q: "q = (case packet_request s of Some (wc, off) \<Rightarrow> Seek wc off | None \<Rightarrow> Line (take pl buf))"
    and pl: "pl \<le> length buf" "pl \<le> INT_MAX"
  shows "\<exists>x st'. r = Ret x st' \<and> good (env st') \<and> same_io (env st) (env st') \<and> after_packet q out x (env st')"
proof (cases "packet_request s")
  case None
  then have q: "q = Line (take pl buf)" and len: "length (take pl buf) = pl" using q pl by simp_all
  have "(case write_loop k os ffd buf 0 pl (lock_file os st) of
            None \<Rightarrow> None
          | Some (Undefined u) \<Rightarrow> Some (Undefined u)
          | Some (Ret False st) \<Rightarrow> Some (Ret Packet_failed st)
          | Some (Ret True st) \<Rightarrow> Some (Ret Packet_written (unlock_file st))) = Some r"
    using run None unfolding handle_packet_def packet_request_def Let_def
    by (simp split: option.splits if_splits prod.splits)
  with write_packet_at [OF good at [unfolded q], of buf k r] len pl show ?thesis unfolding q by simp
next
  case (Some a)
  then obtain wc off where a: "packet_request s = Some (wc, off)" by (cases a) auto
  then have q: "q = Seek wc off" using q by simp
  obtain c o' where c: "sscanf_seekto s = Some (''AESDCHAR_IOCSEEKTO'', c, o')" "unat c = wc" "unat o' = off"
    by (rule packet_request_Some [OF a])
  note l = locked_seek [OF good at [unfolded q]]
  let ?w = "os_lock_file os (env st)" and ?arg = "\<lparr>write_cmd = c, write_cmd_offset = o'\<rparr>"
  obtain x w where x: "os_ioctl os ffd AESDCHAR_IOCSEEKTO ?arg ?w = (x, w)" by fastforce
  have m: "file_mutex (a_sh (view ?w)) = Some i" using tracks_mutex [OF l(2)] by simp
  obtain p where p: "good w" "busy i rq stalled (view ?w\<lparr>a_pos := p\<rparr>) (view w)"
    "0 \<le> x \<Longrightarrow> seekto_spec (fst (shared (a_sh (view w)))) wc off = Some p"
    using controlled [OF l(1) m x] c(2,3) by auto
  note b = busy_at [OF p(2) _ l(2)]
  let ?r = "if x < 0 then Packet_failed else Packet_seek"
  have r: "r = Ret ?r (if x < 0 then free_buf (unlock_file ((lock_file os st)\<lparr>env := w\<rparr>))
      else unlock_file ((lock_file os st)\<lparr>env := w\<rparr>))"
    using run c(1) x unfolding handle_packet_def by (auto simp: Let_def lock_file_def split: if_splits)
  have "after_packet q out ?r w"
  proof (cases "x < 0")
    case True
    with tracks_seek_fails [OF b(1)] q show ?thesis by simp
  next
    case False
    with p(3) have "seekto_spec (fst (shared (a_sh (view w)))) wc off = Some p" by simp
    from tracks_seek_moves [OF b(1) this] b(4) False q show ?thesis by simp
  qed
  with r p(1) b(2,3) l(3) show ?thesis
    by (intro exI [of _ ?r]) (auto simp: unlock_file_def free_buf_def)
qed

text \<open>A thread that has not moved, whatever its client has sent; and where the receive loop leaves it.\<close>

abbreviation fresh :: "'w \<Rightarrow> bool" where
  "fresh w \<equiv> \<forall>bs. at (received_request bs) Start [] w"

abbreviation after_loop :: "request \<Rightarrow> loop_exit \<Rightarrow> 'w \<Rightarrow> bool" where
  "after_loop q x w \<equiv>
     (case x of Loop_failed \<Rightarrow> at q Failed [] w
      | Loop_left _ seek \<Rightarrow> if seek then at q (Ready (a_pos (view w))) [] w else at q Rewinding [] w)"

lemma idle_fresh:
  assumes "idle i rq stalled v (view w')" "a_sh v = a_sh (view w)" "fresh w"
  shows "fresh w'" "a_in (view w') = a_in v" "a_out (view w') = a_out v" "a_pos (view w') = a_pos v"
  using idle_at [OF assms(1,2) spec [OF assms(3)]] by simp_all

text \<open>Without a packet the thread goes the way of a client that closes.\<close>

lemma fresh_hangup:
  assumes "fresh w" "strchr (takeWhile (\<lambda>c. c \<noteq> NUL) got) newline = None"
  shows "at (received_request got) Rewinding [] w" "at (received_request got) Failed [] w"
proof -
  show r: "at (received_request got) Rewinding [] w"
    using assms tracks_hangup by (metis no_packet_yet(2))
  show "at (received_request got) Failed [] w" by (rule tracks_rewind_fails [OF r])
qed

lemma after_packet_loop:
  assumes "packet_exit n (Some (Ret y st2)) = Some (Ret x st')" "after_packet q [] y (env st2)"
  shows "after_loop q x (env st') \<and> st' = st2"
  using assms by (auto simp: packet_exit_def split: packet_result.splits)

lemma received_packet_at:
  assumes pos: "strchr (takeWhile (\<lambda>c. c \<noteq> NUL) got) newline = Some pos"
    and run: "packet_exit n (handle_packet k os ffd buf (takeWhile (\<lambda>c. c \<noteq> NUL) got) (pos + 1) st) = Some (Ret x st')"
    and good: "good (env st)" and fresh: "fresh (env st)"
    and buf: "take (length got) buf = got" "length buf \<le> INT_MAX"
  shows "good (env st') \<and> same_io (env st) (env st') \<and> after_loop (received_request got) x (env st')"
proof -
  obtain r where r: "handle_packet k os ffd buf (takeWhile (\<lambda>c. c \<noteq> NUL) got) (pos + 1) st = Some r"
    using run by (auto simp: packet_exit_def split: option.splits)
  have p: "pos + 1 \<le> length got" using packet_received(2) [OF pos] by simp
  then have "take (pos + 1) buf = take (pos + 1) got" using buf(1) by (metis min.absorb1 take_take)
  then have q: "received_request got = (case packet_request (takeWhile (\<lambda>c. c \<noteq> NUL) got) of
      Some (wc, off) \<Rightarrow> Seek wc off | None \<Rightarrow> Line (take (pos + 1) buf))"
    using packet_received(1) [OF pos] by (simp split: option.split)
  have len: "pos + 1 \<le> length buf" using p buf(1) by (metis length_take min.cobounded1 order_trans)
  then have "pos + 1 \<le> INT_MAX" using buf(2) by simp
  from handle_packet_at [OF r good spec [OF fresh] q len this] obtain y st2 where
    "r = Ret y st2" "good (env st2)" "same_io (env st) (env st2)" "after_packet (received_request got) [] y (env st2)"
    by blast
  with after_packet_loop [of n y st2 x st' "received_request got"] run r show ?thesis by simp
qed

lemma recv_loop_at:
  "recv_loop k os cfd ffd buf bsz psz br st = Some (Ret x st') \<Longrightarrow> good (env st) \<Longrightarrow> fresh (env st) \<Longrightarrow>
     buf_inv buf bsz psz \<Longrightarrow> bsz \<le> INT_MAX \<Longrightarrow>
     strchr (takeWhile (\<lambda>c. c \<noteq> NUL) (take psz buf)) newline = None \<Longrightarrow>
     \<exists>bs. good (env st') \<and> a_in (view (env st)) = bs @ a_in (view (env st')) \<and>
       a_out (view (env st')) = a_out (view (env st)) \<and>
       after_loop (received_request (take psz buf @ bs)) x (env st')"
proof (induction k arbitrary: buf bsz psz br st)
  case (Suc k)
  let ?got = "take psz buf" and ?v = "view (env st)"
  obtain act w0 where act: "os_active os (env st) = (act, w0)" by fastforce
  note a = active [OF Suc.prems(2) act]
  note f0 = idle_fresh [OF conjunct2 [OF a] refl Suc.prems(3)]
  obtain res w1 where res: "os_recv os cfd (bsz - psz - 1) w0 = (res, w1)" by fastforce
  show ?case
  proof (cases "act \<and> res \<noteq> None \<and> res \<noteq> Some []")
    case False
    have "\<exists>w br'. x = Loop_left br' False \<and> st' = st\<lparr>env := w\<rparr> \<and> good w \<and> fresh w \<and>
      a_in (view w) = a_in ?v \<and> a_out (view w) = a_out ?v"
    proof (cases act)
      case False
      with Suc.prems(1) act a f0 show ?thesis by auto
    next
      case True
      show ?thesis
      proof (cases res)
        case None
        with no_recv res a have r: "good w1" "idle i rq stalled (view w0) (view w1)" by blast+
        from idle_fresh [OF r(2) refl f0(1)] f0 r(1) Suc.prems(1) act res True None show ?thesis by auto
      next
        case (Some bs)
        with False True have "res = Some []" by simp
        with recv res a have r: "good w1" "a_in (view w0) = a_in (view w1)"
          "idle i rq stalled (view w0\<lparr>a_in := a_in (view w1)\<rparr>) (view w1)" by force+
        from idle_fresh [OF r(3) _ f0(1)] f0 r(1,2) Suc.prems(1) act res True \<open>res = Some []\<close> show ?thesis by auto
      qed
    qed
    with fresh_hangup(1) [OF _ Suc.prems(6)] show ?thesis by (intro exI [of _ "[]"]) auto
  next
    case True
    then obtain bs where bs: "res = Some bs" "bs \<noteq> []" by auto
    have act': "os_active os (env st) = (True, w0)" using act True by simp
    have rcv: "os_recv os cfd (bsz - psz - 1) w0 = (Some bs, w1)" using res bs by simp
    from recv [OF conjunct1 [OF a] rcv] have r: "good w1" "length bs \<le> bsz - psz - 1"
      "a_in (view w0) = bs @ a_in (view w1)" "idle i rq stalled (view w0\<lparr>a_in := a_in (view w1)\<rparr>) (view w1)"
      by blast+
    note f1 = idle_fresh [OF r(4) _ f0(1), simplified]
    obtain buf2 where b: "buf_inv buf2 bsz (psz + length bs) \<or> psz + length bs = bsz - 1" "length buf2 = bsz"
      "take (psz + length bs) buf2 = ?got @ bs"
      and eq: "recv_loop (Suc k) os cfd ffd buf bsz psz br st =
       after_recv k os cfd ffd buf2 bsz (psz + length bs) (length bs)
         (takeWhile (\<lambda>c. c \<noteq> NUL) (?got @ bs)) (st\<lparr>env := w1\<rparr>)"
      by (rule recv_loop_received [OF Suc.prems(4) act' rcv bs(2) r(2)])
    have len: "length (?got @ bs) = psz + length bs" using Suc.prems(4) by (simp add: buf_inv_def)
    let ?s = "takeWhile (\<lambda>c. c \<noteq> NUL) (?got @ bs)" and ?psz = "psz + length bs"
    have io: "a_in ?v = bs @ a_in (view w1)" "a_out (view w1) = a_out ?v" using r(3) f0 f1 by simp_all
    show ?thesis
    proof (cases "strchr ?s newline")
      case (Some pos)
      with eq Suc.prems(1) have "packet_exit (length bs) (handle_packet k os ffd buf2 ?s (pos + 1) (st\<lparr>env := w1\<rparr>)) = Some (Ret x st')"
        by (simp add: after_recv_def)
      from received_packet_at [OF Some this] r(1) f1(1) b(2,3) len Suc.prems(5) io show ?thesis
        by (intro exI [of _ bs]) simp
    next
      case None
      have again: ?thesis
        if l: "recv_loop k os cfd ffd buf' bsz' ?psz br' (st\<lparr>env := w\<rparr>) = Some (Ret x st')"
          and w: "good w" "fresh w" "a_in (view w) = a_in (view w1)" "a_out (view w) = a_out (view w1)"
          and b': "buf_inv buf' bsz' ?psz" "bsz' \<le> INT_MAX" "take ?psz buf' = ?got @ bs" for buf' bsz' br' w
      proof -
        obtain bs' where "good (env st')" "a_in (view w) = bs' @ a_in (view (env st'))"
          "a_out (view (env st')) = a_out (view w)" "after_loop (received_request (?got @ bs @ bs')) x (env st')"
          using Suc.IH [OF l _ _ b'(1,2), unfolded b'(3) append_assoc] w(1,2) None by auto
        with io w(3,4) show ?thesis by (intro exI [of _ "bs @ bs'"]) simp
      qed
      show ?thesis
      proof (cases "?psz \<ge> bsz - 1")
        case False
        with b have "buf_inv buf2 bsz ?psz" by auto
        from again [OF _ r(1) f1(1) refl refl this Suc.prems(5) b(3)] eq Suc.prems(1) None False
        show ?thesis by (simp add: after_recv_def)
      next
        case True
        obtain m w where m: "os_realloc os buf2 (bsz * 2) w1 = (m, w)" by fastforce
        have le: "length buf2 \<le> bsz * 2" using b(2) by simp
        note ra = reallocate [OF r(1) le m]
        note f2 = idle_fresh [OF conjunct1 [OF conjunct2 [OF ra]] refl f1(1)]
        show ?thesis
        proof (cases m)
          case m': None
          with eq Suc.prems(1) None True m have "x = Loop_failed" "st' = free_buf (st\<lparr>env := w\<rparr>)"
            by (auto simp: after_recv_def split: if_splits)
          with ra f2 io fresh_hangup(2) [OF f2(1) None] show ?thesis
            by (intro exI [of _ bs]) (simp add: free_buf_def)
        next
          case (Some temp)
          with ra have t: "length temp = bsz * 2" "take (length buf2) temp = buf2" by auto
          have "take ?psz temp = take ?psz buf2"
            using t(2) b(1,2) by (metis buf_inv_def diff_le_self le_add1 le_trans less_imp_le_nat min.absorb1 take_take)
          then have "take ?psz temp = ?got @ bs" using b(3) by simp
          moreover have "buf_inv temp (bsz * 2) ?psz"
            using b t(1) Suc.prems(4) by (auto simp: buf_inv_def)
          moreover have "recv_loop k os cfd ffd temp (bsz * 2) ?psz (Some (int (length bs))) (st\<lparr>env := w\<rparr>) = Some (Ret x st')"
            "bsz * 2 \<le> INT_MAX"
            using eq Suc.prems(1) None True m Some by (auto simp: after_recv_def split: if_splits)
          ultimately show ?thesis using again ra f2 by blast
        qed
      qed
    qed
  qed
qed simp

text \<open>At the end of \<open>receive_data\<close>, with the value it returns.\<close>

abbreviation after_data :: "request \<Rightarrow> int \<Rightarrow> 'w \<Rightarrow> bool" where
  "after_data q x w \<equiv> (if x = - 1 then at q Failed [] w else at q (Ready (a_pos (view w))) [] w)"

lemma receive_data_at:
  assumes run: "receive_data k os cfd ffd st = Some (Ret x st')" and good: "good (env st)" and fresh: "fresh (env st)"
  shows "\<exists>bs. good (env st') \<and> a_in (view (env st)) = bs @ a_in (view (env st')) \<and>
     a_out (view (env st')) = a_out (view (env st)) \<and> after_data (received_request bs) x (env st')"
proof -
  obtain m w where m: "os_malloc os 1024 (env st) = (m, w)" by fastforce
  note ma = malloc [OF good m]
  note f = idle_fresh [OF conjunct1 [OF conjunct2 [OF ma]] refl fresh]
  show ?thesis
  proof (cases m)
    case None
    with run m have "x = - 1" "st' = st\<lparr>env := w\<rparr>" by (simp_all add: receive_data_def)
    with fresh_hangup(2) [OF f(1), of "[]"] f ma show ?thesis by (intro exI [of _ "[]"]) simp
  next
    case (Some buf)
    let ?st = "st\<lparr>env := w, bufs := bufs st + 1\<rparr>"
    obtain y st2 where y: "recv_loop k os cfd ffd buf 1024 0 None ?st = Some (Ret y st2)"
      using run m Some by (auto simp: receive_data_def split: option.splits outcome.splits)
    have "buf_inv buf 1024 0" "(1024::nat) \<le> INT_MAX"
      using ma Some by (auto simp: buf_inv_def INT_MAX_def)
    from recv_loop_at [OF y _ _ this, unfolded take_0 append_Nil] ma f(1) obtain bs where bs: "good (env st2)"
      "a_in (view w) = bs @ a_in (view (env st2))" "a_out (view (env st2)) = a_out (view w)"
      "after_loop (received_request bs) y (env st2)" by auto
    have "good (env st') \<and> same_io (env st2) (env st') \<and> after_data (received_request bs) x (env st')"
    proof (cases y)
      case Loop_failed
      with run m Some y bs(1,4) show ?thesis by (simp add: receive_data_def)
    next
      case (Loop_left br seek)
      then obtain n where n: "br = Some n"
        using run m Some y by (cases br) (simp_all add: receive_data_def)
      have fail: "at (received_request bs) Failed [] (env st2)"
        using bs(4) Loop_left tracks_refused tracks_rewind_fails by (auto split: if_splits)
      show ?thesis
      proof (cases "n = - 1 \<or> seek")
        case True
        have "x = (if n = - 1 then - 1 else 0)" "st' = free_buf st2"
          using run m Some y Loop_left n True by (auto simp: receive_data_def split: if_splits)
        with bs(1,4) Loop_left fail True show ?thesis by (simp add: free_buf_def split: if_splits)
      next
        case False
        obtain r w3 where r: "os_lseek os ffd 0 0 (env st2) = (r, w3)" by fastforce
        with seeked bs(1) obtain p where p: "good w3" "idle i rq stalled (view (env st2)\<lparr>a_pos := p\<rparr>) (view w3)"
          "r \<noteq> - 1 \<Longrightarrow> p = 0" by blast
        have "at (received_request bs) Rewinding [] (env st2)" using bs(4) Loop_left False by simp
        note l = idle_at [OF p(2) _ this, simplified]
        have "x = (if r = - 1 then - 1 else 0)" "st' = free_buf (st2\<lparr>env := w3\<rparr>)"
          using run m Some y Loop_left n False r by (simp_all add: receive_data_def)
        with l p(1,3) tracks_rewind [OF l(1)] tracks_rewind_fails [OF l(1)] show ?thesis
          by (simp add: free_buf_def)
      qed
    qed
    with bs f show ?thesis by (intro exI [of _ bs]) simp
  qed
qed

section \<open>Sending\<close>

lemma send_call_at:
  assumes good: "good w" and at: "at q (Sending pos bs) out w" and n: "n < length bs"
    and call: "os_send os cfd (drop n bs) w = (r, w')"
  shows "good w' \<and> at q (Sending pos bs) out w' \<and> a_in (view w') = a_in (view w) \<and> a_pos (view w') = a_pos (view w) \<and>
    shared (a_sh (view w')) = shared (a_sh (view w)) \<and>
    (case r of None \<Rightarrow> a_out (view w') = a_out (view w)
     | Some x \<Rightarrow> 0 < x \<and> n + x \<le> length bs \<and> a_out (view w') = a_out (view w) @ take x (drop n bs))"
proof -
  have m: "file_mutex (a_sh (view w)) = Some i" using tracks_mutex [OF at] by simp
  have dev: "shared (a_sh (view w')) = shared (a_sh (view w))"
    if "busy i rq stalled v (view w')" "a_sh v = a_sh (view w)" for v
    by (rule tracks_device [OF at]) (use conjunct1 [OF that(1) [unfolded busy_def]] that(2) in simp_all)
  show ?thesis
  proof (cases r)
    case None
    with no_send [OF good m] call have w: "good w'" "busy i rq stalled (view w) (view w')" by blast+
    from None w(1) busy_at [OF w(2) refl at] dev [OF w(2) refl] show ?thesis by simp
  next
    case (Some x)
    have "drop n bs \<noteq> []" using n by simp
    with Some send [OF good m] call have w: "good w'" "0 < x" "x \<le> length (drop n bs)"
      "busy i rq stalled (view w\<lparr>a_out := a_out (view w) @ take x (drop n bs)\<rparr>) (view w')" by blast+
    from Some w(1-3) busy_at [OF w(4) _ at] dev [OF w(4)] show ?thesis by simp
  qed
qed

lemma send_loop_at:
  "send_loop k os cfd bs n st = Some r \<Longrightarrow> good (env st) \<Longrightarrow> at q (Sending pos bs) out (env st) \<Longrightarrow> n \<le> length bs \<Longrightarrow>
     a_out (view (env st)) = o0 @ out @ take n bs \<Longrightarrow>
     \<exists>b st' out'. r = Ret b st' \<and> good (env st') \<and> a_in (view (env st')) = a_in (view (env st)) \<and>
       a_pos (view (env st')) = a_pos (view (env st)) \<and> a_out (view (env st')) = o0 @ out' \<and>
       at q (if b then Reading (pos + length bs) else Failed) out' (env st')"
proof (induction k arbitrary: n st)
  case (Suc k)
  show ?case
  proof (cases "n < length bs")
    case False
    with Suc.prems have "r = Ret True st" "take n bs = bs" by auto
    with Suc.prems(2,5) tracks_send_chunk [OF Suc.prems(3) reads] show ?thesis
      by (intro exI [of _ True] exI [of _ st] exI [of _ "out @ bs"]) simp
  next
    case True
    obtain x w where x: "os_send os cfd (drop n bs) (env st) = (x, w)" by fastforce
    note c = send_call_at [OF Suc.prems(2,3) True x]
    show ?thesis
    proof (cases x)
      case None
      have "at q (Sending pos (take n bs @ drop n bs)) out w" using c by simp
      from tracks_send_fails [OF this reads] None Suc.prems(1,5) x True c show ?thesis
        by (intro exI [of _ False] exI [of _ "unlock_file (free_buf (st\<lparr>env := w\<rparr>))"] exI [of _ "out @ take n bs"])
          (simp add: unlock_file_def free_buf_def)
    next
      case (Some y)
      have "send_loop k os cfd bs (n + y) (st\<lparr>env := w\<rparr>) = Some r" using Suc.prems(1) x Some True by simp
      with Suc.IH [of "n + y" "st\<lparr>env := w\<rparr>"] c Some Suc.prems(5) show ?thesis by (simp add: take_add)
    qed
  qed
qed simp

lemma read_call_at:
  assumes good: "good w" and at: "at q (Reading (a_pos (view w))) out w"
    and call: "os_read os ffd 1024 w = (r, w')"
  shows "good w' \<and> same_io w w' \<and> shared (a_sh (view w')) = shared (a_sh (view w)) \<and>
    (case r of None \<Rightarrow> at q Failed out w'
     | Some bs \<Rightarrow>
         if bs = [] then at q Finished out w'
         else at q (Sending (a_pos (view w)) bs) out w' \<and> a_pos (view w') = a_pos (view w) + length bs \<and>
           prefix bs (drop (a_pos (view w)) (contents (shared (a_sh (view w))))))"
proof -
  have m: "file_mutex (a_sh (view w)) = Some i" using tracks_mutex [OF at] by simp
  have dev: "shared (a_sh (view w')) = shared (a_sh (view w))"
    if "busy i rq stalled (view w\<lparr>a_pos := p\<rparr>) (view w')" for p
    by (rule tracks_device [OF at]) (use conjunct1 [OF that [unfolded busy_def]] in simp_all)
  show ?thesis
  proof (cases r)
    case None
    with no_read [OF good m] call obtain p where w: "good w'" "busy i rq stalled (view w\<lparr>a_pos := p\<rparr>) (view w')"
      by blast
    note b = busy_at [OF w(2) _ at, simplified]
    from None b(2,3) w(1) dev [OF w(2)] tracks_read_fails [OF b(1)] show ?thesis by simp
  next
    case (Some bs)
    with read [OF good m] call obtain rest where w: "good w'"
      "busy i rq stalled (view w\<lparr>a_pos := a_pos (view w) + length bs\<rparr>) (view w')"
      "drop (a_pos (view w)) (contents (shared (a_sh (view w')))) = bs @ rest" "bs = [] \<Longrightarrow> rest = []" by blast
    note b = busy_at [OF w(2) _ at, simplified] and d = dev [OF w(2)]
    show ?thesis
    proof (cases "bs = []")
      case True
      with w(3,4) have "drop (a_pos (view w)) (contents (shared (a_sh (view w')))) = []" by simp
      from tracks_read_end [OF b(1) this] Some True b(2,3) w(1) d show ?thesis by simp
    next
      case False
      from tracks_read_chunk [OF b(1) False w(3)] Some False b w(1,3) d show ?thesis by simp
    qed
  qed
qed

lemma read_loop_at:
  "read_loop k os cfd ffd 1024 st = Some r \<Longrightarrow> good (env st) \<Longrightarrow> at q (Reading (a_pos (view (env st)))) out (env st) \<Longrightarrow>
     a_out (view (env st)) = o0 @ out \<Longrightarrow>
     \<exists>b st' out'. r = Ret b st' \<and> good (env st') \<and> a_in (view (env st')) = a_in (view (env st)) \<and>
       a_out (view (env st')) = o0 @ out' \<and> at q (if b = Some True then Finished else Failed) out' (env st')"
proof (induction k arbitrary: st out)
  case (Suc k)
  obtain x w where x: "os_read os ffd 1024 (env st) = (x, w)" by fastforce
  note c = read_call_at [OF Suc.prems(2,3) x]
  show ?case
  proof (cases x)
    case None
    with Suc.prems(1,4) x c show ?thesis
      by (intro exI [of _ "Some False"] exI [of _ "st\<lparr>env := w\<rparr>"] exI [of _ out]) simp
  next
    case (Some bs)
    show ?thesis
    proof (cases bs)
      case Nil
      with Some Suc.prems(1,4) x c show ?thesis
        by (intro exI [of _ "Some True"] exI [of _ "st\<lparr>env := w\<rparr>"] exI [of _ out]) simp
    next
      case (Cons b bs')
      obtain y where y: "send_loop k os cfd bs 0 (st\<lparr>env := w\<rparr>) = Some y"
        using Suc.prems(1) x Some Cons by (auto split: option.splits)
      from send_loop_at [OF y, of q "a_pos (view (env st))" out o0] c Some Cons Suc.prems(4)
      obtain c' st2 out2 where s: "y = Ret c' st2" "good (env st2)" "a_in (view (env st2)) = a_in (view w)"
        "a_pos (view (env st2)) = a_pos (view w)" "a_out (view (env st2)) = o0 @ out2"
        "at q (if c' then Reading (a_pos (view (env st)) + length bs) else Failed) out2 (env st2)" by auto
      show ?thesis
      proof (cases c')
        case True
        with s c Some Cons have "at q (Reading (a_pos (view (env st2)))) out2 (env st2)" by simp
        moreover have "read_loop k os cfd ffd 1024 st2 = Some r" using Suc.prems(1) x Some Cons y s(1) True by simp
        ultimately show ?thesis using Suc.IH [of st2 out2] s c by simp
      next
        case False
        with Suc.prems(1) x Some Cons y s c show ?thesis
          by (intro exI [of _ None] exI [of _ st2] exI [of _ out2]) simp
      qed
    qed
  qed
qed simp

lemma send_data_at:
  assumes run: "send_data k os cfd ffd st = Some r" and good: "good (env st)"
    and at: "at q (Ready (a_pos (view (env st)))) [] (env st)" and o0: "a_out (view (env st)) = o0"
  shows "\<exists>x st' out. r = Ret x st' \<and> good (env st') \<and> a_in (view (env st')) = a_in (view (env st)) \<and>
     a_out (view (env st')) = o0 @ out \<and> at q (if x = 0 then Finished else Failed) out (env st')"
proof -
  obtain m w where m: "os_malloc os 1024 (env st) = (m, w)" by fastforce
  note ma = malloc [OF good m]
  note f = idle_at [OF conjunct1 [OF conjunct2 [OF ma]] refl at, simplified]
  show ?thesis
  proof (cases m)
    case None
    with run m f ma o0 tracks_refused [OF f(1)] show ?thesis
      by (intro exI [of _ "- 1"] exI [of _ "st\<lparr>env := w\<rparr>"] exI [of _ "[]"]) (simp add: send_data_def)
  next
    case (Some buf)
    let ?st = "lock_file os (st\<lparr>env := w, bufs := bufs st + 1\<rparr>)"
    have "at q (Ready (a_pos (view w))) [] w" using f(1,4) by simp
    note l = locked_send [OF conjunct1 [OF ma] this]
    obtain y where y: "read_loop k os cfd ffd 1024 ?st = Some y"
      using run m Some by (auto simp: send_data_def split: option.splits)
    have "good (env ?st)" "at q (Reading (a_pos (view (env ?st)))) [] (env ?st)" "a_out (view (env ?st)) = o0 @ []"
      using l f o0 by (simp_all add: lock_file_def)
    from read_loop_at [OF y this] obtain b st2 out where b: "y = Ret b st2" "good (env st2)"
      "a_in (view (env st2)) = a_in (view (env ?st))" "a_out (view (env st2)) = o0 @ out"
      "at q (if b = Some True then Finished else Failed) out (env st2)" by blast
    let ?x = "if b = Some True then 0 else - 1" and ?st' = "if b = None then st2 else free_buf (unlock_file st2)"
    have "r = Ret ?x ?st'"
      using run m Some y b(1) by (auto simp: send_data_def split: option.splits)
    moreover have "env ?st' = env st2" by (simp add: unlock_file_def free_buf_def)
    moreover have "a_in (view (env st2)) = a_in (view (env st))" using b(3) l(3) f(2) by (simp add: lock_file_def)
    moreover have "at q (if ?x = (0::int) then Finished else Failed) out (env st2)" using b(5) by (cases "b = Some True") simp_all
    ultimately show ?thesis using b(2,4) by (intro exI [of _ ?x] exI [of _ ?st'] exI [of _ out]) (simp only: simp_thms)
  qed
qed

section \<open>The session\<close>

abbreviation ended :: "request \<Rightarrow> client_pc \<Rightarrow> char list \<Rightarrow> 'w \<Rightarrow> 'w \<Rightarrow> bool" where
  "ended q c out w w' \<equiv> good w' \<and> at q c out w' \<and> same_io w w'"

lemma close_at:
  assumes "good (env st)" "at q c out (env st)" "over c"
  shows "ended q c out (env st) (env (close_fd os fd st))"
proof -
  have c: "good (os_close os fd (env st))" "idle i rq stalled (view (env st)) (view (os_close os fd (env st)))"
    using closed assms(1) by blast+
  have "\<not> holds c" using assms(3) by auto
  from idle_at [OF c(2) refl assms(2) this] c(1) show ?thesis by (simp add: close_fd_def)
qed

lemma mark_complete_at:
  assumes "good (env st)" "at q c out (env st)" "over c"
  shows "ended q c out (env st) (env (mark_complete os st))"
proof -
  have l: "good (os_lock_list os (env st))" "idle i rq stalled (view (env st)) (view (os_lock_list os (env st)))"
    using list_locked assms(1) by blast+
  have "\<not> holds c" using assms(3) by auto
  from idle_at [OF l(2) refl assms(2) this] l(1) show ?thesis by (simp add: mark_complete_def Let_def)
qed

text \<open>The ends of \<open>client_handler\<close>, with and without an open device.\<close>

lemma finish_at:
  assumes "good (env st)" "at q c out (env st)" "over c"
  shows "ended q c out (env st) (env (mark_complete os (close_fd os fd st)))"
    "ended q c out (env st) (env (mark_complete os (close_fd os fd (close_fd os fd' st))))"
proof -
  have one: "ended q c out (env st1) (env (mark_complete os (close_fd os fd st1)))"
    if "good (env st1)" "at q c out (env st1)" for st1 fd
    using close_at [OF that assms(3), of fd] mark_complete_at [of "close_fd os fd st1" q c out] assms(3) by simp
  show "ended q c out (env st) (env (mark_complete os (close_fd os fd st)))"
    using one assms(1,2) by blast
  show "ended q c out (env st) (env (mark_complete os (close_fd os fd (close_fd os fd' st))))"
    using close_at [OF assms, of fd'] one [of "close_fd os fd' st"] by simp
qed

text \<open>
  However it went, the thread is at its end in a run in which its client sent the request
  that stands in the bytes it has received, and what the peer got is what this run has sent.
\<close>

lemma client_handler_at:
  assumes run: "client_handler k os cfd st = Some (Ret u st')" and good: "good (env st)" and fresh: "fresh (env st)"
  shows "\<exists>bs c out. good (env st') \<and> a_in (view (env st)) = bs @ a_in (view (env st')) \<and>
     a_out (view (env st')) = a_out (view (env st)) @ out \<and> over c \<and> at (received_request bs) c out (env st')"
proof -
  obtain fd w where fd: "os_open os (env st) = (fd, w)" by fastforce
  with opened good obtain p where w: "good w" "fd = - 1 \<or> fd = ffd" "idle i rq stalled (view (env st)\<lparr>a_pos := p\<rparr>) (view w)"
    by blast
  note f = idle_fresh [OF w(3) _ fresh, simplified]
  show ?thesis
  proof (cases "fd = - 1")
    case True
    have "at (received_request []) Failed [] w" by (rule fresh_hangup(2)) (use f in simp_all)
    with finish_at(1) [of "st\<lparr>env := w\<rparr>" "received_request []" Failed "[]" cfd] w(1) f run fd True show ?thesis
      by (intro exI [of _ "[]"] exI [of _ Failed]) (simp add: client_handler_def)
  next
    case False
    let ?st = "st\<lparr>env := w, open_fds := fd # open_fds st\<rparr>"
    obtain x st2 where x: "receive_data k os cfd ffd ?st = Some (Ret x st2)"
      using run fd w(2) False by (auto simp: client_handler_def Let_def split: option.splits outcome.splits)
    from receive_data_at [OF x] w(1) f(1) obtain bs where bs: "good (env st2)"
      "a_in (view w) = bs @ a_in (view (env st2))" "a_out (view (env st2)) = a_out (view w)"
      "after_data (received_request bs) x (env st2)" by auto
    let ?finish = "\<lambda>st. mark_complete os (close_fd os cfd (close_fd os ffd st))"
    obtain st3 c out where st3: "st' = ?finish st3" "over c" "good (env st3)" "a_in (view (env st3)) = a_in (view (env st2))"
      "a_out (view (env st3)) = a_out (view (env st2)) @ out" "at (received_request bs) c out (env st3)"
    proof (cases "x = - 1")
      case True
      with run fd w(2) False x bs that [of st2 Failed "[]"] show thesis
        by (auto simp: client_handler_def Let_def)
    next
      case ok: False
      obtain y where y: "send_data k os cfd ffd st2 = Some y"
        using run fd w(2) False x ok by (auto simp: client_handler_def Let_def split: option.splits)
      have "at (received_request bs) (Ready (a_pos (view (env st2)))) [] (env st2)" using bs(4) ok by simp
      from send_data_at [OF y bs(1) this refl] obtain z st3 out where z: "y = Ret z st3" "good (env st3)"
        "a_in (view (env st3)) = a_in (view (env st2))" "a_out (view (env st3)) = a_out (view (env st2)) @ out"
        "at (received_request bs) (if z = 0 then Finished else Failed) out (env st3)" by blast
      have "st' = ?finish st3" using run fd w(2) False x ok y z(1) by (auto simp: client_handler_def Let_def)
      from that [OF this _ z(2-5)] show thesis by simp
    qed
    from finish_at(2) [OF st3(3,6,2), of cfd ffd] st3(1,2,4,5) bs f show ?thesis
      by (intro exI [of _ bs] exI [of _ c] exI [of _ out]) simp
  qed
qed

end

end
