(* ===== verification/Sharing_World.thy ===== *)
theory Sharing_World
  imports Shared_Session
begin

text \<open>
  The session of one client on the driver while other clients use it: the calls of \<open>Session_World\<close>,
  before each of which the rest of the system moves.  What the rest does is a parameter, two functions on
  the whole state, of which \<open>others_run\<close> asks what \<open>Shared_Session\<close> proves of a session: to
  make only steps of other clients.
\<close>

section \<open>The world and the others\<close>

text \<open>
  Next to the world of the session: whether the server is active, whether the next call fails (for
  want of memory, a signal, a lost connection), and the other clients with the mutex.
\<close>

record crowd =
  c_world :: world
  c_active :: bool
  c_faulty :: bool
  c_sh :: sharing

text \<open>The state of the step relation; its device is the driver's.\<close>

definition in_sync :: "crowd \<Rightarrow> sharing" where
  "in_sync x = (c_sh x)\<lparr>shared := device_of (w_kst (c_world x))\<rparr>"

text \<open>
  \<open>run\<close> is what happens before a call, \<open>wait\<close> what happens until the mutex is free.
\<close>

definition let_go :: "nat \<Rightarrow> crowd \<Rightarrow> crowd" where
  "let_go i x = x\<lparr>c_sh := release i (c_sh x)\<rparr>"

definition call :: "(world \<Rightarrow> 'a \<times> world) \<Rightarrow> 'a \<Rightarrow> crowd \<Rightarrow> 'a \<times> crowd" where
  "call f failure x =
     (if c_faulty x then (failure, x) else (case f (c_world x) of (r, w) \<Rightarrow> (r, x\<lparr>c_world := w\<rparr>)))"

definition crowd_os :: "kernel_api \<Rightarrow> (crowd \<Rightarrow> crowd) \<Rightarrow> (crowd \<Rightarrow> crowd) \<Rightarrow> nat \<Rightarrow> crowd os" where
  "crowd_os K run wait i =
     (let os = aesd_os K; away = (\<lambda>x. run (let_go i x)) in
      \<lparr>os_active = (\<lambda>x. let x = away x in (c_active x, x)),
       os_lock_file = (\<lambda>x. let x = wait (let_go i x) in x\<lparr>c_sh := (c_sh x)\<lparr>file_mutex := Some i\<rparr>\<rparr>),
       os_lock_list = away,
       os_malloc = (\<lambda>n x. call (os_malloc os n) None (away x)),
       os_realloc = (\<lambda>buf n x. call (os_realloc os buf n) None (away x)),
       os_recv = (\<lambda>fd n x. call (os_recv os fd n) None (away x)),
       os_send = (\<lambda>fd bs x. call (os_send os fd bs) None (run x)),
       os_open = (\<lambda>x. call (os_open os) (- 1) (away x)),
       os_read = (\<lambda>fd n x. call (os_read os fd n) None (run x)),
       os_write = (\<lambda>fd bs x. call (os_write os fd bs) None (run x)),
       os_lseek = (\<lambda>fd off wh x. call (os_lseek os fd off wh) (- 1) (away x)),
       os_ioctl = (\<lambda>fd cmd arg x. call (os_ioctl os fd cmd arg) (- 1) (run x)),
       os_close = (\<lambda>fd. away)\<rparr>)"

section \<open>What is asked of the rest of the system\<close>

text \<open>No kernel hands out blocks without bound; so the entries of the device stay small.\<close>

definition page_limit :: "kernel_api \<Rightarrow> bool" where
  "page_limit K \<longleftrightarrow> (\<forall>h p n q h'. krealloc K h p n = Some (q, h') \<longrightarrow> q \<noteq> 0 \<longrightarrow> n < 2 ^ 59)"

definition small :: "device \<Rightarrow> bool" where
  "small d \<longleftrightarrow> length (fst d) \<le> 10 \<and> (\<forall>c\<in>set (fst d). length c < 2 ^ 59) \<and> length (snd d) < 2 ^ 59"

text \<open>The threads inside the mutex are where they can be, so that they can leave it.\<close>

definition others_sane :: "nat \<Rightarrow> (nat \<Rightarrow> request) \<Rightarrow> sharing \<Rightarrow> bool" where
  "others_sane i rq s \<longleftrightarrow>
     (\<forall>j. j \<noteq> i \<longrightarrow> (file_mutex s = Some j \<longleftrightarrow> holds (cpc s j)) \<and>
       (\<forall>n. cpc s j = Writing n \<longrightarrow> (\<exists>p. rq j = Line p \<and> n \<le> length p)) \<and>
       (cpc s j = Seeking \<longrightarrow> (\<exists>wc off. rq j = Seek wc off)))"

definition crowd_good :: "nat \<Rightarrow> (nat \<Rightarrow> request) \<Rightarrow> crowd \<Rightarrow> bool" where
  "crowd_good i rq x \<longleftrightarrow>
     world_good (c_world x) \<and> small (device_of (w_kst (c_world x))) \<and> others_sane i rq (c_sh x)"

definition others_run :: "nat \<Rightarrow> (nat \<Rightarrow> request) \<Rightarrow> (crowd \<Rightarrow> crowd) \<Rightarrow> bool" where
  "others_run i rq run \<longleftrightarrow>
     (\<forall>x. crowd_good i rq x \<longrightarrow>
        crowd_good i rq (run x) \<and> others_steps i rq {} (in_sync x) (in_sync (run x)) \<and>
        w_in (c_world (run x)) = w_in (c_world x) \<and> w_out (c_world (run x)) = w_out (c_world x) \<and>
        w_filp (c_world (run x)) = w_filp (c_world x))"

definition others_leave :: "nat \<Rightarrow> (nat \<Rightarrow> request) \<Rightarrow> (crowd \<Rightarrow> crowd) \<Rightarrow> bool" where
  "others_leave i rq wait \<longleftrightarrow>
     others_run i rq wait \<and>
     (\<forall>x. crowd_good i rq x \<longrightarrow> file_mutex (c_sh x) \<noteq> Some i \<longrightarrow> file_mutex (c_sh (wait x)) = None)"

definition crowd_view :: "crowd \<Rightarrow> among" where
  "crowd_view x =
     \<lparr>a_sh = in_sync x, a_pos = unat (f_pos (w_filp (c_world x))), a_in = concat (w_in (c_world x)),
      a_out = w_out (c_world x)\<rparr>"

section \<open>The contract holds\<close>

lemma small_room:
  assumes "small d" "length bs \<le> INT_MAX"
  shows "room d bs"
proof -
  have "length (concat cs) \<le> length cs * 2 ^ 59" if "\<forall>c\<in>set cs. length c < 2 ^ 59" for cs :: "char list list"
    using that by (induction cs) auto
  from this [of "fst d"] assms have "length (concat (fst d)) \<le> 10 * 2 ^ 59"
    by (auto simp: small_def)
  with assms show ?thesis by (simp add: small_def room_def INT_MAX_def)
qed

lemma small_write:
  assumes "small d" "length (snd d @ bs) < 2 ^ 59"
  shows "small (write_spec d bs)"
proof -
  obtain cmds pend where d: "d = (cmds, pend)" by (cases d)
  with assms show ?thesis
    by (auto simp: small_def last_n_def dest: in_set_dropD)
qed

lemma sync_sel [simp]:
  "in_sync (let_go i x) = release i (in_sync x)" "c_world (let_go i x) = c_world x"
  "file_mutex (in_sync x) = file_mutex (c_sh x)" "cpc (in_sync x) = cpc (c_sh x)"
  "shared (in_sync x) = device_of (w_kst (c_world x))"
  by (simp_all add: in_sync_def let_go_def release_def)

lemma let_go_good: "crowd_good i rq x \<Longrightarrow> crowd_good i rq (let_go i x)"
  by (auto simp: crowd_good_def let_go_def others_sane_def release_def)

lemma let_go_free: "file_mutex (c_sh (let_go i x)) \<noteq> Some i"
  by (simp add: let_go_def release_def)

text \<open>Before a call inside the mutex, and outside it.\<close>

lemma run_busy:
  assumes "others_run i rq run" "crowd_good i rq x"
  shows "crowd_good i rq (run x)" "busy i rq {} (crowd_view x) (crowd_view (run x))"
  using assms by (simp_all add: others_run_def busy_def crowd_view_def)

lemma run_idle:
  assumes "others_run i rq run" "crowd_good i rq x"
  shows "crowd_good i rq (run (let_go i x))" "idle i rq {} (crowd_view x) (crowd_view (run (let_go i x)))"
  using assms(1) [unfolded others_run_def, rule_format, OF let_go_good [OF assms(2)]]
  by (simp_all add: idle_def crowd_view_def)

text \<open>What a call does to the world of the session shows in the view.\<close>

lemma among_upd:
  "(v :: among)\<lparr>a_pos := a_pos v, a_in := q, a_out := a_out v\<rparr> = v\<lparr>a_in := q\<rparr>"
  "(v :: among)\<lparr>a_pos := p, a_in := a_in v, a_out := a_out v\<rparr> = v\<lparr>a_pos := p\<rparr>"
  "(v :: among)\<lparr>a_pos := a_pos v, a_in := a_in v, a_out := o'\<rparr> = v\<lparr>a_out := o'\<rparr>"
  by (cases v, simp)+

lemma idle_call:
  assumes "idle i rq stalled v (crowd_view y)" "device_of (w_kst w) = device_of (w_kst (c_world y))"
  shows "idle i rq stalled (v\<lparr>a_pos := unat (f_pos (w_filp w)), a_in := concat (w_in w), a_out := w_out w\<rparr>)
      (crowd_view (y\<lparr>c_world := w\<rparr>))"
    "a_pos v = unat (f_pos (w_filp (c_world y)))" "a_in v = concat (w_in (c_world y))" "a_out v = w_out (c_world y)"
  using assms by (cases v, simp add: idle_def crowd_view_def in_sync_def)+

lemma busy_call:
  assumes "busy i rq stalled v (crowd_view y)" "device_of (w_kst w) = device_of (w_kst (c_world y))"
  shows "busy i rq stalled (v\<lparr>a_pos := unat (f_pos (w_filp w)), a_in := concat (w_in w), a_out := w_out w\<rparr>)
      (crowd_view (y\<lparr>c_world := w\<rparr>))"
    "a_pos v = unat (f_pos (w_filp (c_world y)))" "a_in v = concat (w_in (c_world y))" "a_out v = w_out (c_world y)"
  using assms by (cases v, simp add: busy_def crowd_view_def in_sync_def)+

text \<open>A call changes the world only, and a failing one nothing.\<close>

lemma callE:
  assumes "call f failure x = (r, x')"
  obtains (fails) "r = failure" "x' = x"
  | (works) w where "f (c_world x) = (r, w)" "x' = x\<lparr>c_world := w\<rparr>"
  using assms by (cases "f (c_world x)") (auto simp: call_def split: if_splits)

lemma world_good_frame:
  "crowd_good i rq x \<Longrightarrow> world_good w \<Longrightarrow> device_of (w_kst w) = device_of (w_kst (c_world x)) \<Longrightarrow> crowd_good i rq (x\<lparr>c_world := w\<rparr>)"
  by (simp add: crowd_good_def)

text \<open>Receiving and sending on the world, in full or in part.\<close>

lemma w_recv_gets:
  assumes "world_good w" "w_recv n w = (r, w')"
  shows "\<exists>bs. r = Some bs \<and> length bs \<le> n \<and> concat (w_in w) = bs @ concat (w_in w')"
    "world_good w'" "w_kst w' = w_kst w" "w_filp w' = w_filp w" "w_out w' = w_out w"
proof -
  have "\<exists>bs. r = Some bs \<and> length bs \<le> n \<and> concat (w_in w) = bs @ concat (w_in w') \<and>
    world_good w' \<and> w_kst w' = w_kst w \<and> w_filp w' = w_filp w \<and> w_out w' = w_out w"
  proof (cases "w_in w")
    case Nil
    with assms show ?thesis by (simp add: w_recv_def)
  next
    case (Cons seg segs)
    have "concat (w_in w) = take n seg @ drop n seg @ concat segs" using Cons by simp
    with assms Cons show ?thesis
      by (intro exI [of _ "take n seg"]) (auto simp: w_recv_def world_good_def peer_ok_def split: if_splits)
  qed
  then show "\<exists>bs. r = Some bs \<and> length bs \<le> n \<and> concat (w_in w) = bs @ concat (w_in w')"
    "world_good w'" "w_kst w' = w_kst w" "w_filp w' = w_filp w" "w_out w' = w_out w" by blast+
qed

lemma w_send_takes:
  assumes "world_good w" "bs \<noteq> []" "w_send bs w = (r, w')"
  obtains n where "r = Some n" "0 < n" "n \<le> length bs" "w' = w\<lparr>w_out := w_out w @ take n bs\<rparr>"
  using assms that [of "min (length bs) (w_window w)"] by (simp add: w_send_def Let_def world_good_def peer_ok_def)

lemma w_write_stores:
  assumes K: "kernel_api_ok K" "page_limit K" and w: "world_good w" "small (device_of (w_kst w))"
    and bs: "bs \<noteq> []" "length bs \<le> INT_MAX" and run: "w_write K bs w = (r, w')"
  obtains (refused) "r = None" "w' = w"
  | (stored) "r = Some (length bs)" "world_good w'" "w_in w' = w_in w" "w_out w' = w_out w"
      "device_of (w_kst w') = write_spec (device_of (w_kst w)) bs" "small (device_of (w_kst w'))"
proof (cases "grants (world_view K w) (length bs)")
  case False
  with w_write_law [OF K(1) w(1) bs(1) small_room [OF w(2) bs(2)]] run show thesis
    by (intro refused) simp_all
next
  case True
  with w_write_law [OF K(1) w(1) bs(1) small_room [OF w(2) bs(2)]] run
  have 1: "r = Some (length bs)" "world_good w'" "w_in w' = w_in w" "w_out w' = w_out w"
    "device_of (w_kst w') = write_spec (device_of (w_kst w)) bs" by auto
  obtain q h where "krealloc K (heap (w_kst w)) (work_ptr (w_kst w)) (length (pending (w_kst w)) + length bs) = Some (q, h)"
    "q \<noteq> 0"
    using True by (auto simp: world_view_def split: option.splits prod.splits)
  from K(2) [unfolded page_limit_def, rule_format, OF this]
  have "length (snd (device_of (w_kst w)) @ bs) < 2 ^ 59" by (simp add: device_of_def)
  from stored [OF 1] small_write [OF w(2) this] 1(5) show thesis by simp
qed

lemma w_ioctl_moves:
  assumes w: "world_good w" and run: "w_ioctl AESDCHAR_IOCSEEKTO arg w = (r, w')"
  obtains p where "world_good w'" "w_kst w' = w_kst w" "w_in w' = w_in w" "w_out w' = w_out w"
    "unat (f_pos (w_filp w')) = p"
    "0 \<le> r \<longrightarrow> seekto_spec (fst (device_of (w_kst w))) (unat (write_cmd arg)) (unat (write_cmd_offset arg)) = Some p"
proof (cases "seekto_spec (commands (w_kst w)) (unat (write_cmd arg)) (unat (write_cmd_offset arg))")
  case None
  with w_ioctl_law [OF w] run w that show thesis by auto
next
  case (Some p)
  have "p < length (content (w_kst w))" using seekto_in_content [OF Some] by (simp add: content_def)
  moreover have "length (content (w_kst w)) < 2 ^ 63" using w by (simp add: world_good_def peer_ok_def room_device)
  ultimately have "unat (word_of_nat p :: size_t) = p" by (simp add: unat_size_of_nat)
  then have "w' = w\<lparr>w_filp := (w_filp w)\<lparr>f_pos := word_of_nat p\<rparr>\<rparr>" "unat (f_pos (w_filp w')) = p"
    using w_ioctl_law [OF w] run Some by auto
  with w Some show thesis by (intro that [of p]) (simp_all add: device_of_def world_good_def peer_ok_def)
qed

lemma w_read_gets:
  assumes w: "world_good w" and run: "w_read 1024 w = (r, w')"
  shows "\<exists>bs rest. r = Some bs \<and> world_good w' \<and> device_of (w_kst w') = device_of (w_kst w) \<and>
      w_in w' = w_in w \<and> w_out w' = w_out w \<and> unat (f_pos (w_filp w')) = unat (f_pos (w_filp w)) + length bs \<and>
      drop (unat (f_pos (w_filp w))) (contents (device_of (w_kst w))) = bs @ rest \<and> (bs = [] \<longrightarrow> rest = [])"
proof -
  have io: "w_in w' = w_in w" "w_out w' = w_out w"
    using run by (auto simp: w_read_def split: option.splits sum.splits prod.splits)
  let ?K = "undefined :: kernel_api"
  obtain bs rest where r: "r = Some bs" "world_good w'"
    "world_view ?K w' = (world_view ?K w)\<lparr>fpos := unat (f_pos (w_filp w)) + length bs\<rparr>"
    "drop (unat (f_pos (w_filp w))) (content (w_kst w)) = bs @ rest" "bs = [] \<longrightarrow> rest = []"
    using w_read_law [OF w, of ?K] run by auto
  have "device_of (w_kst w') = device_of (w_kst w)" "unat (f_pos (w_filp w')) = unat (f_pos (w_filp w)) + length bs"
    using r(3) by (simp_all add: world_view_def)
  with r(1,2,4,5) io show ?thesis by (intro exI [of _ bs] exI [of _ rest]) (simp add: device_of_def content_def)
qed

lemma shared_world:
  assumes K: "kernel_api_ok K" "page_limit K" and run: "others_run i rq run" and wait: "others_leave i rq wait"
  shows "shared_device (crowd_os K run wait i) cfd device_fd i rq {} (crowd_good i rq) crowd_view"
proof
  let ?os = "crowd_os K run wait i" and ?good = "crowd_good i rq" and ?v = crowd_view
  have os: "?os = \<lparr>os_active = (\<lambda>x. (c_active (run (let_go i x)), run (let_go i x))),
       os_lock_file = (\<lambda>x. (wait (let_go i x))\<lparr>c_sh := (c_sh (wait (let_go i x)))\<lparr>file_mutex := Some i\<rparr>\<rparr>),
       os_lock_list = (\<lambda>x. run (let_go i x)),
       os_malloc = (\<lambda>n x. call (\<lambda>w. (Some (junk n), w)) None (run (let_go i x))),
       os_realloc = (\<lambda>buf n x. call (\<lambda>w. (Some (take n (buf @ junk n)), w)) None (run (let_go i x))),
       os_recv = (\<lambda>fd n x. call (w_recv n) None (run (let_go i x))),
       os_send = (\<lambda>fd bs x. call (w_send bs) None (run x)),
       os_open = (\<lambda>x. call w_open (- 1) (run (let_go i x))),
       os_read = (\<lambda>fd n x. call (w_read n) None (run x)),
       os_write = (\<lambda>fd bs x. call (w_write K bs) None (run x)),
       os_lseek = (\<lambda>fd off wh x. call (w_lseek off wh) (- 1) (run (let_go i x))),
       os_ioctl = (\<lambda>fd cmd arg x. call (w_ioctl cmd arg) (- 1) (run x)),
       os_close = (\<lambda>fd x. run (let_go i x))\<rparr>"
    by (simp add: crowd_os_def aesd_os_def Let_def)
  fix x assume x: "?good x"
  note idle = run_idle [OF run x] and busy = run_busy [OF run x]
  let ?y = "run (let_go i x)" and ?z = "run x"
  have y: "world_good (c_world ?y)" and z: "world_good (c_world ?z)" "small (device_of (w_kst (c_world ?z)))"
    using idle(1) busy(1) by (simp_all add: crowd_good_def)
  show "?good x' \<and> idle i rq {} (?v x) (?v x')" if "os_active ?os x = (act, x')" for act x'
    using that idle by (simp add: os)
  show "?good (os_lock_list ?os x) \<and> idle i rq {} (?v x) (?v (os_lock_list ?os x))"
    using idle by (simp add: os)
  show "?good (os_close ?os fd x) \<and> idle i rq {} (?v x) (?v (os_close ?os fd x))" for fd
    using idle by (simp add: os)
  show "?good x' \<and> idle i rq {} (?v x) (?v x') \<and> (\<forall>b. r = Some b \<longrightarrow> length b = n)"
    if "os_malloc ?os n x = (r, x')" for n r x'
    using that idle by (auto simp: os elim!: callE)
  show "?good x' \<and> idle i rq {} (?v x) (?v x') \<and> (\<forall>b. r = Some b \<longrightarrow> length b = n \<and> take (length buf) b = buf)"
    if "length buf \<le> n" "os_realloc ?os buf n x = (r, x')" for buf n r x'
    using that idle by (auto simp: os elim!: callE)
  show "?good x' \<and> idle i rq {} (?v x) (?v x')" if "os_recv ?os cfd n x = (None, x')" for n x'
    using that [unfolded os, simplified]
  proof (cases rule: callE)
    case (works w)
    from w_recv_gets(1) [OF y works(1)] show ?thesis by simp
  qed (use idle in simp)
  show "?good x' \<and> length bs \<le> n \<and> a_in (?v x) = bs @ a_in (?v x') \<and> idle i rq {} (?v x\<lparr>a_in := a_in (?v x')\<rparr>) (?v x')"
    if "os_recv ?os cfd n x = (Some bs, x')" for n bs x'
    using that [unfolded os, simplified]
  proof (cases rule: callE)
    case (works w)
    note w = w_recv_gets [OF y works(1)]
    note c = idle_call [OF idle(2) arg_cong [where f = device_of, OF w(3)], unfolded w(4,5)]
    have "idle i rq {} (?v x\<lparr>a_in := concat (w_in w)\<rparr>) (?v x')"
      using c(1) unfolding c(2,4) [symmetric] among_upd works(2) .
    moreover have "a_in (?v x') = concat (w_in w)" by (simp add: works(2) crowd_view_def)
    ultimately show ?thesis using c(3) w(1) world_good_frame [OF idle(1) w(2)] w(3) works(2) by simp
  qed simp
  show "?good x' \<and> (fd = - 1 \<or> fd = device_fd) \<and> (\<exists>p. idle i rq {} (?v x\<lparr>a_pos := p\<rparr>) (?v x'))"
    if "os_open ?os x = (fd, x')" for fd x'
    using that [unfolded os, simplified]
  proof (cases rule: callE)
    case fails
    with idle show ?thesis by (intro conjI exI [of _ "a_pos (?v x)"]) simp_all
  next
    case (works w)
    then have w: "fd = device_fd" "world_good w" "w_kst w = w_kst (c_world ?y)" "w_in w = w_in (c_world ?y)"
      "w_out w = w_out (c_world ?y)"
      using y by (auto simp: w_open_def aesd_open_def world_good_def peer_ok_def)
    note c = idle_call [OF idle(2) arg_cong [where f = device_of, OF w(3)], unfolded w(4,5)]
    have "idle i rq {} (?v x\<lparr>a_pos := unat (f_pos (w_filp w))\<rparr>) (?v x')"
      using c(1) unfolding c(3,4) [symmetric] among_upd works(2) .
    with w(1) world_good_frame [OF idle(1) w(2)] w(3) works(2) show ?thesis by auto
  qed
  show "?good x' \<and> (\<exists>p. idle i rq {} (?v x\<lparr>a_pos := p\<rparr>) (?v x') \<and> (r \<noteq> - 1 \<longrightarrow> p = 0))"
    if "os_lseek ?os device_fd 0 0 x = (r, x')" for r x'
    using that [unfolded os, simplified]
  proof (cases rule: callE)
    case fails
    with idle show ?thesis by (intro conjI exI [of _ "a_pos (?v x)"]) simp_all
  next
    case (works w)
    then have w: "world_good w" "w_kst w = w_kst (c_world ?y)" "w_in w = w_in (c_world ?y)"
      "w_out w = w_out (c_world ?y)" "unat (f_pos (w_filp w)) = 0"
      using y by (auto simp: w_lseek_law [OF y] world_good_def peer_ok_def)
    note c = idle_call [OF idle(2) arg_cong [where f = device_of, OF w(2)], unfolded w(3-5)]
    have "idle i rq {} (?v x\<lparr>a_pos := 0\<rparr>) (?v x')"
      using c(1) unfolding c(3,4) [symmetric] among_upd works(2) .
    with world_good_frame [OF idle(1) w(1)] w(2) works(2) show ?thesis by auto
  qed
  show "?good (os_lock_file ?os x) \<and> takes_mutex i rq {} (?v x) (?v (os_lock_file ?os x))"
  proof -
    have wr: "others_run i rq wait" using wait by (simp add: others_leave_def)
    note w = run_idle [OF wr x]
    have free: "file_mutex (c_sh (wait (let_go i x))) = None"
      using wait let_go_good [OF x] let_go_free unfolding others_leave_def by blast
    let ?u = "wait (let_go i x)"
    have "?good (?u\<lparr>c_sh := (c_sh ?u)\<lparr>file_mutex := Some i\<rparr>\<rparr>)"
      using w(1) free by (auto simp: crowd_good_def others_sane_def)
    moreover have "takes_mutex i rq {} (?v x) (?v (?u\<lparr>c_sh := (c_sh ?u)\<lparr>file_mutex := Some i\<rparr>\<rparr>))"
      unfolding takes_mutex_def using w(2) free
      by (intro exI [of _ "in_sync ?u"]) (auto simp: idle_def crowd_view_def in_sync_def)
    ultimately show ?thesis by (simp add: os)
  qed
  show "?good x' \<and> (\<exists>p. busy i rq {} (?v x\<lparr>a_pos := p\<rparr>) (?v x') \<and>
        (0 \<le> r \<longrightarrow> seekto_spec (fst (shared (a_sh (?v x')))) (unat (write_cmd arg)) (unat (write_cmd_offset arg)) = Some p))"
    if "os_ioctl ?os device_fd AESDCHAR_IOCSEEKTO arg x = (r, x')" for arg r x'
    using that [unfolded os, simplified]
  proof (cases rule: callE)
    case fails
    with busy show ?thesis by (intro conjI exI [of _ "a_pos (?v x)"]) simp_all
  next
    case (works w)
    obtain p where w: "world_good w" "w_kst w = w_kst (c_world ?z)" "w_in w = w_in (c_world ?z)"
      "w_out w = w_out (c_world ?z)" "unat (f_pos (w_filp w)) = p"
      "0 \<le> r \<longrightarrow> seekto_spec (fst (device_of (w_kst (c_world ?z)))) (unat (write_cmd arg)) (unat (write_cmd_offset arg)) = Some p"
      by (rule w_ioctl_moves [OF z(1) works(1)])
    note c = busy_call [OF busy(2) arg_cong [where f = device_of, OF w(2)], unfolded w(3-5)]
    have "busy i rq {} (?v x\<lparr>a_pos := p\<rparr>) (?v x')"
      using c(1) unfolding c(3,4) [symmetric] among_upd works(2) .
    with world_good_frame [OF busy(1) w(1)] w(2,6) works(2) show ?thesis
      by (intro conjI exI [of _ p]) (simp_all add: crowd_view_def)
  qed
  show "?good x' \<and> (\<exists>p. busy i rq {} (?v x\<lparr>a_pos := p\<rparr>) (?v x'))"
    if "bs \<noteq> []" "length bs \<le> INT_MAX" and w: "os_write ?os device_fd bs x = (None, x')" for bs x'
  proof -
    have "x' = ?z"
      using w [unfolded os, simplified]
    proof (cases rule: callE)
      case (works w)
      from works(1) show ?thesis by (rule w_write_stores [OF K z that(1,2)]) (use works(2) in simp_all)
    qed simp
    with busy show ?thesis by (intro conjI exI [of _ "a_pos (?v x)"]) simp_all
  qed
  show "?good x' \<and> 0 < n \<and> n \<le> length bs \<and> (\<exists>p s. others_steps i rq {} (a_sh (?v x)) s \<and>
        ?v x' = ?v x\<lparr>a_pos := p, a_sh := s\<lparr>shared := write_spec (shared s) (take n bs)\<rparr>\<rparr>)"
    if bs: "bs \<noteq> []" "length bs \<le> INT_MAX" and w: "os_write ?os device_fd bs x = (Some n, x')" for bs n x'
    using w [unfolded os, simplified]
  proof (cases rule: callE)
    case (works w)
    obtain w: "n = length bs" "world_good w" "w_in w = w_in (c_world ?z)" "w_out w = w_out (c_world ?z)"
      "device_of (w_kst w) = write_spec (device_of (w_kst (c_world ?z))) bs" "small (device_of (w_kst w))"
      by (rule w_write_stores [OF K z bs works(1)]) simp_all
    have "a_sh (?v ?z) = in_sync ?z" by (simp add: crowd_view_def)
    then have "others_steps i rq {} (a_sh (?v x)) (in_sync ?z)" "?v ?z = ?v x\<lparr>a_sh := in_sync ?z\<rparr>"
      using busy(2) unfolding busy_def by metis+
    moreover have "?good x'" using busy(1) w(2,6) works(2) by (simp add: crowd_good_def)
    moreover have "?v x' = ?v ?z\<lparr>a_pos := unat (f_pos (w_filp w)),
        a_sh := (in_sync ?z)\<lparr>shared := write_spec (shared (in_sync ?z)) (take n bs)\<rparr>\<rparr>"
      using w works(2) by (simp add: crowd_view_def in_sync_def)
    ultimately show ?thesis using w(1) bs(1)
      by (intro conjI exI [of _ "unat (f_pos (w_filp w))"] exI [of _ "in_sync ?z"]) simp_all
  qed simp
  note rd = w_read_gets [OF z(1)]
  show "?good x' \<and> (\<exists>p. busy i rq {} (?v x\<lparr>a_pos := p\<rparr>) (?v x'))"
    if "os_read ?os device_fd 1024 x = (None, x')" for x'
    using that [unfolded os, simplified]
  proof (cases rule: callE)
    case fails
    with busy show ?thesis by (intro conjI exI [of _ "a_pos (?v x)"]) simp_all
  next
    case (works w)
    from rd [OF works(1)] show ?thesis by simp
  qed
  show "?good x' \<and> busy i rq {} (?v x\<lparr>a_pos := a_pos (?v x) + length bs\<rparr>) (?v x') \<and>
      (\<exists>rest. drop (a_pos (?v x)) (contents (shared (a_sh (?v x')))) = bs @ rest \<and> (bs = [] \<longrightarrow> rest = []))"
    if "os_read ?os device_fd 1024 x = (Some bs, x')" for bs x'
    using that [unfolded os, simplified]
  proof (cases rule: callE)
    case (works w)
    obtain rest where w: "world_good w" "device_of (w_kst w) = device_of (w_kst (c_world ?z))"
      "w_in w = w_in (c_world ?z)" "w_out w = w_out (c_world ?z)"
      "unat (f_pos (w_filp w)) = unat (f_pos (w_filp (c_world ?z))) + length bs"
      "drop (unat (f_pos (w_filp (c_world ?z)))) (contents (device_of (w_kst (c_world ?z)))) = bs @ rest"
      "bs = [] \<longrightarrow> rest = []"
      using rd [OF works(1)] by blast
    note c = busy_call [OF busy(2) w(2), unfolded w(3-5)]
    have "busy i rq {} (?v x\<lparr>a_pos := a_pos (?v x) + length bs\<rparr>) (?v x')"
      using c(1) unfolding c(2-4) [symmetric] among_upd works(2) .
    moreover have "drop (a_pos (?v x)) (contents (shared (a_sh (?v x')))) = bs @ rest"
      using w(2,6) c(2) works(2) by (simp add: crowd_view_def)
    ultimately show ?thesis using world_good_frame [OF busy(1) w(1,2)] w(7) works(2) by blast
  qed simp
  show "?good x' \<and> busy i rq {} (?v x) (?v x')" if "os_send ?os cfd bs x = (None, x')" for bs x'
    using that [unfolded os, simplified] busy by (cases rule: callE) (auto simp: w_send_def Let_def)
  show "?good x' \<and> 0 < n \<and> n \<le> length bs \<and> busy i rq {} (?v x\<lparr>a_out := a_out (?v x) @ take n bs\<rparr>) (?v x')"
    if bs: "bs \<noteq> []" and s: "os_send ?os cfd bs x = (Some n, x')" for bs n x'
    using s [unfolded os, simplified]
  proof (cases rule: callE)
    case (works w)
    obtain w: "0 < n" "n \<le> length bs" "w = (c_world ?z)\<lparr>w_out := w_out (c_world ?z) @ take n bs\<rparr>"
      by (rule w_send_takes [OF z(1) bs works(1)]) simp
    have k: "device_of (w_kst w) = device_of (w_kst (c_world ?z))" "w_in w = w_in (c_world ?z)"
      "w_filp w = w_filp (c_world ?z)" "w_out w = w_out (c_world ?z) @ take n bs" "world_good w"
      using w(3) z(1) by (simp_all add: world_good_def peer_ok_def)
    note c = busy_call [OF busy(2) k(1), unfolded k(2-4)]
    have "busy i rq {} (?v x\<lparr>a_out := a_out (?v x) @ take n bs\<rparr>) (?v x')"
      using c(1) unfolding c(2-4) [symmetric] among_upd works(2) .
    with w(1,2) world_good_frame [OF busy(1) k(5,1)] works(2) show ?thesis by simp
  qed simp
qed simp

text \<open>The sizes the C library promises.\<close>

lemma crowd_sized: "os_sized (crowd_os K run wait i)"
proof -
  have "length bs \<le> n" if "w_recv n w = (Some bs, w')" for n bs w w'
    using that by (auto simp: w_recv_def split: list.splits)
  then show ?thesis
    by (auto simp: os_sized_def crowd_os_def aesd_os_def Let_def elim!: callE)
qed

section \<open>Others to run with\<close>

text \<open>An allocator with a largest block.\<close>

definition limited :: "kernel_api \<Rightarrow> kernel_api" where
  "limited K = K\<lparr>krealloc := (\<lambda>h p n. if n < 2 ^ 59 then krealloc K h p n else Some (0, h))\<rparr>"

lemma limited_ok: "kernel_api_ok K \<Longrightarrow> kernel_api_ok (limited K)"
  by (simp add: limited_def kernel_api_ok_def krealloc_spec_def kfree_spec_def krealloc_post_def)

lemma limited_limit: "page_limit (limited K)"
  by (auto simp: limited_def page_limit_def split: if_splits)

text \<open>A client \<open>j\<close> that stores its line as soon as the mutex is free, in one write.\<close>

definition neighbour :: "kernel_api \<Rightarrow> nat \<Rightarrow> char list \<Rightarrow> crowd \<Rightarrow> crowd" where
  "neighbour K j p x =
     (if cpc (c_sh x) j = Start \<and> file_mutex (c_sh x) = None
      then case w_write K p ((c_world x)\<lparr>w_filp := \<lparr>f_pos = 0, private_data = 0\<rparr>\<rparr>) of
             (Some n, w) \<Rightarrow> x\<lparr>c_world := (c_world x)\<lparr>w_kst := w_kst w\<rparr>,
                c_sh := (c_sh x)\<lparr>cpc := (cpc (c_sh x))(j := Rewinding), attempts := attempts (c_sh x) @ [(j, p)]\<rparr>\<rparr>
           | (None, w) \<Rightarrow> x
      else x)"

text \<open>Whoever has the mutex gives up.\<close>

fun leaving :: "request \<Rightarrow> client_pc \<Rightarrow> client_pc \<times> char list list" where
  "leaving (Line p) (Writing n) = (if n < length p then (Failed, [take n p]) else (Rewinding, [p]))"
| "leaving r c = (Failed, [])"

definition others_give_up :: "nat \<Rightarrow> (nat \<Rightarrow> request) \<Rightarrow> crowd \<Rightarrow> crowd" where
  "others_give_up i rq x =
     (case file_mutex (c_sh x) of
        None \<Rightarrow> x
      | Some j \<Rightarrow>
          if j = i then x else (case leaving (rq j) (cpc (c_sh x) j) of
             (c, added) \<Rightarrow> x\<lparr>c_sh := (c_sh x)\<lparr>file_mutex := None, cpc := (cpc (c_sh x))(j := c),
               attempts := attempts (c_sh x) @ map (Pair j) added\<rparr>\<rparr>))"

lemma others_stepI: "share_step rq stalled s t \<Longrightarrow> cpc t i = cpc s i \<Longrightarrow> others_step i rq stalled s t"
  by (simp add: others_step_def)

lemma leaving_step:
  assumes "others_sane i rq s" "file_mutex s = Some j" "j \<noteq> i" "leaving (rq j) (cpc s j) = (c, added)"
  shows "share_step rq {} s (s\<lparr>file_mutex := None, cpc := (cpc s)(j := c), attempts := attempts s @ map (Pair j) added\<rparr>)"
    "\<not> holds c"
proof -
  have h: "holds (cpc s j)" using assms(1-3) unfolding others_sane_def by blast
  have "share_step rq {} s (s\<lparr>file_mutex := None, cpc := (cpc s)(j := c), attempts := attempts s @ map (Pair j) added\<rparr>) \<and>
    \<not> holds c"
  proof (cases "cpc s j")
    case (Writing n)
    then obtain p where p: "rq j = Line p" "n \<le> length p" using assms(1,3) unfolding others_sane_def by blast
    show ?thesis
    proof (cases "n < length p")
      case True
      with packet [OF write_fails [of s j n rq p]] Writing p assms(4) show ?thesis by auto
    next
      case False
      then have "n = length p" using p(2) by simp
      with packet [OF write_done [of s j p rq]] Writing p assms(4) show ?thesis by auto
    qed
  next
    case Seeking
    then obtain wc off where p: "rq j = Seek wc off" using assms(1,3) unfolding others_sane_def by blast
    with packet [OF seek_fails [of s j rq wc off]] Seeking assms(4) show ?thesis by auto
  next
    case (Reading pos)
    with sends [OF read_fails [of s j pos]] assms(4) show ?thesis by (cases "rq j") auto
  next
    case (Sending pos bs)
    with sends [OF send_fails [of s j pos "[]" bs]] assms(4) show ?thesis by (cases "rq j") auto
  qed (use h in simp_all)
  then show "share_step rq {} s (s\<lparr>file_mutex := None, cpc := (cpc s)(j := c), attempts := attempts s @ map (Pair j) added\<rparr>)"
    "\<not> holds c" by blast+
qed

lemma give_up_leaves: "others_leave i rq (others_give_up i rq)"
proof -
  have run: "crowd_good i rq (others_give_up i rq x) \<and>
      others_steps i rq {} (in_sync x) (in_sync (others_give_up i rq x)) \<and>
      c_world (others_give_up i rq x) = c_world x"
    if x: "crowd_good i rq x" for x
  proof (cases "file_mutex (c_sh x) = None \<or> file_mutex (c_sh x) = Some i")
    case True
    with x show ?thesis by (auto simp: others_give_up_def)
  next
    case False
    then obtain j where Some: "file_mutex (c_sh x) = Some j" and j: "j \<noteq> i" by auto
    obtain c added where l: "leaving (rq j) (cpc (c_sh x) j) = (c, added)" by fastforce
    have sane: "others_sane i rq (in_sync x)" using x by (simp add: crowd_good_def others_sane_def)
    have l': "leaving (rq j) (cpc (in_sync x) j) = (c, added)" using l by simp
    have m': "file_mutex (in_sync x) = Some j" using Some by simp
    note st = leaving_step [OF sane m' j l']
    let ?y = "x\<lparr>c_sh := (c_sh x)\<lparr>file_mutex := None, cpc := (cpc (c_sh x))(j := c),
               attempts := attempts (c_sh x) @ map (Pair j) added\<rparr>\<rparr>"
    have y: "others_give_up i rq x = ?y" by (simp add: others_give_up_def Some l j)
    have "in_sync ?y = (in_sync x)\<lparr>file_mutex := None, cpc := (cpc (in_sync x))(j := c),
        attempts := attempts (in_sync x) @ map (Pair j) added\<rparr>"
      by (simp add: in_sync_def)
    then have "others_step i rq {} (in_sync x) (in_sync ?y)" using st(1) j by (intro others_stepI) simp_all
    moreover have "crowd_good i rq ?y"
      using x Some st(2) j by (auto simp: crowd_good_def others_sane_def)
    ultimately show ?thesis unfolding y by auto
  qed
  moreover have "file_mutex (c_sh (others_give_up i rq x)) = None" if "file_mutex (c_sh x) \<noteq> Some i" for x
    using that by (auto simp: others_give_up_def split: option.split prod.split)
  ultimately show ?thesis by (simp add: others_leave_def others_run_def)
qed

lemma neighbour_runs:
  assumes K: "kernel_api_ok K" "page_limit K" and j: "j \<noteq> i" "rq j = Line p" and p: "p \<noteq> []" "length p \<le> INT_MAX"
  shows "others_run i rq (neighbour K j p)"
proof -
  have "crowd_good i rq (neighbour K j p x) \<and> others_steps i rq {} (in_sync x) (in_sync (neighbour K j p x)) \<and>
      (\<exists>k. c_world (neighbour K j p x) = (c_world x)\<lparr>w_kst := k\<rparr>)"
    if x: "crowd_good i rq x" for x
  proof -
    let ?w = "(c_world x)\<lparr>w_filp := \<lparr>f_pos = 0, private_data = 0\<rparr>\<rparr>"
    obtain r w where w: "w_write K p ?w = (r, w)" by fastforce
    have good: "world_good ?w" "small (device_of (w_kst ?w))"
      using x by (simp_all add: crowd_good_def world_good_def peer_ok_def)
    show ?thesis
    proof (cases "cpc (c_sh x) j = Start \<and> file_mutex (c_sh x) = None \<and> r \<noteq> None")
      case False
      then have "neighbour K j p x = x" using w by (auto simp: neighbour_def split: option.split)
      moreover have "\<exists>k. c_world x = (c_world x)\<lparr>w_kst := k\<rparr>" by (intro exI [of _ "w_kst (c_world x)"]) simp
      ultimately show ?thesis using x by simp
    next
      case True
      then have s: "cpc (c_sh x) j = Start" "file_mutex (c_sh x) = None" by simp_all
      obtain n where n: "r = Some n" using True by auto
      from w have d: "world_good w" "device_of (w_kst w) = write_spec (device_of (w_kst (c_world x))) p"
        "small (device_of (w_kst w))"
        by (rule w_write_stores [OF K good p]; use n in simp)+
      let ?y = "x\<lparr>c_world := (c_world x)\<lparr>w_kst := w_kst w\<rparr>,
                c_sh := (c_sh x)\<lparr>cpc := (cpc (c_sh x))(j := Rewinding), attempts := attempts (c_sh x) @ [(j, p)]\<rparr>\<rparr>"
      have y: "neighbour K j p x = ?y" using s w n by (simp add: neighbour_def)
      let ?s0 = "in_sync x"
      let ?s1 = "?s0\<lparr>file_mutex := Some j, cpc := (cpc ?s0)(j := Writing 0)\<rparr>"
      let ?s2 = "?s1\<lparr>shared := write_spec (shared ?s1) (take (length p) (drop 0 p)),
          cpc := (cpc ?s1)(j := Writing (0 + length p))\<rparr>"
      let ?s3 = "?s2\<lparr>file_mutex := None, cpc := (cpc ?s2)(j := Rewinding), attempts := attempts ?s2 @ [(j, p)]\<rparr>"
      have "packet_step rq ?s0 ?s1" by (rule lock_write) (use s j in simp_all)
      moreover have "packet_step rq ?s1 ?s2" by (rule write_some) (use j p in simp_all)
      moreover have "packet_step rq ?s2 ?s3" by (rule write_done) (use j in simp_all)
      ultimately have "others_step i rq {} ?s0 ?s1" "others_step i rq {} ?s1 ?s2" "others_step i rq {} ?s2 ?s3"
        using j(1) by (auto intro!: others_stepI intro: packet)
      then have "others_steps i rq {} ?s0 ?s3" by (meson rtranclp.rtrancl_into_rtrancl rtranclp.rtrancl_refl)
      moreover have "?s3 = in_sync ?y" using d(2) s(2) by (simp add: in_sync_def)
      moreover have "crowd_good i rq ?y"
        using x d s(2) j(1) by (auto simp: crowd_good_def others_sane_def world_good_def peer_ok_def)
      ultimately show ?thesis unfolding y by auto
    qed
  qed
  then have *: "crowd_good i rq (neighbour K j p x)" "others_steps i rq {} (in_sync x) (in_sync (neighbour K j p x))"
    "\<exists>k. c_world (neighbour K j p x) = (c_world x)\<lparr>w_kst := k\<rparr>" if "crowd_good i rq x" for x
    using that by blast+
  show ?thesis unfolding others_run_def
  proof (intro allI impI conjI)
    fix x assume x: "crowd_good i rq x"
    show "crowd_good i rq (neighbour K j p x)" "others_steps i rq {} (in_sync x) (in_sync (neighbour K j p x))"
      using * x by blast+
    obtain k where "c_world (neighbour K j p x) = (c_world x)\<lparr>w_kst := k\<rparr>" using *(3) [OF x] by blast
    then show "w_in (c_world (neighbour K j p x)) = w_in (c_world x)" "w_out (c_world (neighbour K j p x)) = w_out (c_world x)"
      "w_filp (c_world (neighbour K j p x)) = w_filp (c_world x)" by simp_all
  qed
qed

section \<open>The interpretation\<close>

text \<open>The client 1 among a client 2 that stores a line, on the first-fit allocator.\<close>

definition neighbours :: "nat \<Rightarrow> request" where
  "neighbours j = (if j = 2 then Line (''y'' @ [newline]) else Hangup)"

abbreviation neighbour_2 :: "crowd \<Rightarrow> crowd" where
  "neighbour_2 \<equiv> neighbour (limited first_fit) 2 (''y'' @ [newline])"

lemma neighbour_2_runs: "others_run 1 neighbours neighbour_2"
  by (rule neighbour_runs) (simp_all add: limited_ok first_fit_ok limited_limit neighbours_def INT_MAX_def)

interpretation among: shared_device "crowd_os (limited first_fit) neighbour_2 (others_give_up 1 neighbours) 1"
    4 device_fd 1 neighbours "{}" d "crowd_good 1 neighbours" crowd_view for d
  by (rule shared_world [OF limited_ok [OF first_fit_ok] limited_limit neighbour_2_runs give_up_leaves])

end
