(* ===== verification/Session_Fuel.thy ===== *)
theory Session_Fuel
  imports Client_Session
begin

text \<open>
  Fuel: a loop of the session that ends, ends in the same way with more of it.  So a result
  found with one number of iterations is the result of the code.
\<close>

lemma write_loop_more:
  "write_loop k os fd buf n pl st = Some r \<Longrightarrow> k \<le> k' \<Longrightarrow> write_loop k' os fd buf n pl st = Some r"
proof (induction k arbitrary: k' n st)
  case (Suc k)
  then obtain j where j: "k' = Suc j" "k \<le> j" by (cases k') auto
  with Suc show ?case by (auto split: if_splits option.splits prod.splits)
qed simp

lemma handle_packet_more:
  "handle_packet k os fd buf s pl st = Some r \<Longrightarrow> k \<le> k' \<Longrightarrow> handle_packet k' os fd buf s pl st = Some r"
  unfolding handle_packet_def Let_def
  by (auto split: option.splits outcome.splits bool.splits if_splits prod.splits dest: write_loop_more)

lemma recv_loop_more:
  "recv_loop k os cfd ffd buf bsz psz br st = Some r \<Longrightarrow> k \<le> k' \<Longrightarrow>
     recv_loop k' os cfd ffd buf bsz psz br st = Some r"
proof (induction k arbitrary: k' buf bsz psz br st)
  case (Suc k)
  then obtain j where j: "k' = Suc j" "k \<le> j" by (cases k') auto
  have more: "handle_packet j os ffd buf s pl st = Some r"
    if "handle_packet k os ffd buf s pl st = Some r" for buf s pl st r
    using handle_packet_more that j(2) .
  have again: "recv_loop j os cfd ffd buf bsz psz br st = Some r"
    if "recv_loop k os cfd ffd buf bsz psz br st = Some r" for buf bsz psz br st
    using Suc.IH that j(2) .
  from Suc.prems(1) show ?case unfolding j(1)
    by (auto simp: Let_def more again split: if_split_asm option.split_asm prod.split_asm list.split_asm outcome.split_asm)
qed simp

lemma receive_data_more:
  "receive_data k os cfd ffd st = Some r \<Longrightarrow> k \<le> k' \<Longrightarrow> receive_data k' os cfd ffd st = Some r"
  unfolding receive_data_def
  by (auto split: option.splits prod.splits dest: recv_loop_more)

lemma send_loop_more:
  "send_loop k os fd bs n st = Some r \<Longrightarrow> k \<le> k' \<Longrightarrow> send_loop k' os fd bs n st = Some r"
proof (induction k arbitrary: k' n st)
  case (Suc k)
  then obtain j where j: "k' = Suc j" "k \<le> j" by (cases k') auto
  with Suc show ?case by (auto split: if_splits option.splits prod.splits)
qed simp

lemma read_loop_more:
  "read_loop k os cfd ffd sz st = Some r \<Longrightarrow> k \<le> k' \<Longrightarrow> read_loop k' os cfd ffd sz st = Some r"
proof (induction k arbitrary: k' st)
  case (Suc k)
  then obtain j where j: "k' = Suc j" "k \<le> j" by (cases k') auto
  with Suc show ?case
    by (auto split: if_splits option.splits prod.splits list.splits outcome.splits bool.splits dest: send_loop_more)
qed simp

lemma send_data_more:
  "send_data k os cfd ffd st = Some r \<Longrightarrow> k \<le> k' \<Longrightarrow> send_data k' os cfd ffd st = Some r"
  unfolding send_data_def
  by (auto split: option.splits prod.splits dest: read_loop_more)

lemma client_handler_more:
  assumes "client_handler k os cfd st = Some r" "k \<le> k'"
  shows "client_handler k' os cfd st = Some r"
proof -
  have "receive_data k' os cfd fd st = Some r" if "receive_data k os cfd fd st = Some r" for fd st r
    using receive_data_more that assms(2) .
  moreover have "send_data k' os cfd fd st = Some r" if "send_data k os cfd fd st = Some r" for fd st r
    using send_data_more that assms(2) .
  ultimately show ?thesis
    using assms(1) unfolding client_handler_def Let_def
    by (auto split: option.split_asm prod.split_asm outcome.split_asm if_split_asm)
qed

end
