(* ===== verification/Shared_Returns.thy ===== *)
theory Shared_Returns
  imports Shared_Session Session_Fuel
begin

text \<open>
  A session among others returns, whatever the others do between its calls and whichever calls
  fail, as long as every call returns: what bounds each loop is the bytes the peer
  sends, the length of the packet, and what the device holds once the mutex is taken.
\<close>

context shared_device
begin

section \<open>Receiving\<close>

lemma write_loop_ends:
  "good (env st) \<Longrightarrow> at (Line p) (Writing n) out (env st) \<Longrightarrow> take (length p) buf = p \<Longrightarrow> length p \<le> INT_MAX \<Longrightarrow>
     length p - n < k \<Longrightarrow> write_loop k os ffd buf n (length p) st \<noteq> None"
proof (induction k arbitrary: n st)
  case (Suc k)
  have bs: "get_bytes buf n (length p - n) = Some (drop n p)" if "n < length p"
    using that by (intro get_packet [OF Suc.prems(3)]) simp
  show ?case
  proof (cases "n < length p")
    case True
    obtain res w where res: "os_write os ffd (drop n p) (env st) = (res, w)" by fastforce
    note c = write_call_at [OF Suc.prems(1,2) True Suc.prems(4) res]
    show ?thesis
    proof (cases res)
      case (Some x)
      with c have "0 < x" by simp
      with Suc.prems(5) True have "length p - (n + x) < k" by linarith
      with Suc.IH [of "st\<lparr>env := w\<rparr>" "n + x"] Suc.prems(3,4) c Some res bs True show ?thesis by simp
    qed (use res bs True in simp)
  qed simp
qed simp

lemma handle_packet_ends:
  assumes good: "good (env st)" and at: "at q Start out (env st)"
    and q: "q = (case packet_request s of Some (wc, off) \<Rightarrow> Seek wc off | None \<Rightarrow> Line (take pl buf))"
    and pl: "pl \<le> length buf" "pl \<le> INT_MAX" "pl < k"
  shows "handle_packet k os ffd buf s pl st \<noteq> None"
proof (cases "packet_request s")
  case (Some a)
  then obtain wc off where a: "packet_request s = Some (wc, off)" by (cases a) auto
  obtain c o' where "sscanf_seekto s = Some (''AESDCHAR_IOCSEEKTO'', c, o')"
    by (rule packet_request_Some [OF a]) blast
  then show ?thesis by (simp add: handle_packet_def Let_def split: prod.split)
next
  case None
  then have q: "q = Line (take pl buf)" and len: "length (take pl buf) = pl" using q pl by simp_all
  note l = locked_write [OF good at [unfolded q]]
  have "write_loop k os ffd buf 0 (length (take pl buf)) (lock_file os st) \<noteq> None"
    by (rule write_loop_ends) (use l pl len in \<open>simp_all add: lock_file_def\<close>)
  then obtain y where "write_loop k os ffd buf 0 pl (lock_file os st) = Some y" unfolding len by auto
  with None show ?thesis unfolding handle_packet_def packet_request_def Let_def
    by (auto split: option.splits outcome.splits bool.splits if_splits prod.splits)
qed

lemma recv_loop_ends:
  "good (env st) \<Longrightarrow> fresh (env st) \<Longrightarrow> buf_inv buf bsz psz \<Longrightarrow> bsz \<le> INT_MAX \<Longrightarrow>
     2 * length (a_in (view (env st))) + psz + 1 < k \<Longrightarrow> recv_loop k os cfd ffd buf bsz psz br st \<noteq> None"
proof (induction k arbitrary: buf bsz psz br st)
  case (Suc k)
  let ?got = "take psz buf" and ?v = "view (env st)"
  obtain act w0 where act: "os_active os (env st) = (act, w0)" by fastforce
  note a = active [OF Suc.prems(1) act]
  note f0 = idle_fresh [OF conjunct2 [OF a] refl Suc.prems(2)]
  obtain res w1 where res: "os_recv os cfd (bsz - psz - 1) w0 = (res, w1)" by fastforce
  show ?case
  proof (cases "act \<and> res \<noteq> None \<and> res \<noteq> Some []")
    case False
    with act res show ?thesis by (cases act; cases res) auto
  next
    case True
    then obtain bs where bs: "res = Some bs" "bs \<noteq> []" by auto
    have act': "os_active os (env st) = (True, w0)" using act True by simp
    have rcv: "os_recv os cfd (bsz - psz - 1) w0 = (Some bs, w1)" using res bs by simp
    from recv [OF conjunct1 [OF a] rcv] have r: "good w1" "length bs \<le> bsz - psz - 1"
      "a_in (view w0) = bs @ a_in (view w1)" "idle i rq stalled (view w0\<lparr>a_in := a_in (view w1)\<rparr>) (view w1)"
      by blast+
    note f1 = idle_fresh [OF r(4) _ f0(1), simplified]
    have pos: "1 \<le> length bs" using bs(2) by (cases bs) simp_all
    have gone: "length (a_in ?v) = length bs + length (a_in (view w1))" using arg_cong [OF r(3), of length] f0(2) by simp
    have n: "2 * length (a_in (view w1)) + (psz + length bs) + 1 < k"
      using Suc.prems(5) pos gone by linarith
    obtain buf2 where b: "buf_inv buf2 bsz (psz + length bs) \<or> psz + length bs = bsz - 1" "length buf2 = bsz"
      "take (psz + length bs) buf2 = ?got @ bs"
      and eq: "recv_loop (Suc k) os cfd ffd buf bsz psz br st =
       after_recv k os cfd ffd buf2 bsz (psz + length bs) (length bs)
         (takeWhile (\<lambda>c. c \<noteq> NUL) (?got @ bs)) (st\<lparr>env := w1\<rparr>)"
      by (rule recv_loop_received [OF Suc.prems(3) act' rcv bs(2) r(2)])
    have len: "length (?got @ bs) = psz + length bs" using Suc.prems(3) by (simp add: buf_inv_def)
    let ?s = "takeWhile (\<lambda>c. c \<noteq> NUL) (?got @ bs)" and ?psz = "psz + length bs"
    show ?thesis
    proof (cases "strchr ?s newline")
      case (Some p)
      have p: "p + 1 \<le> ?psz" using packet_received(2) [OF Some] len by simp
      then have tk: "take (p + 1) buf2 = take (p + 1) (?got @ bs)" using b(3) by (metis min.absorb1 take_take)
      have "handle_packet k os ffd buf2 ?s (p + 1) (st\<lparr>env := w1\<rparr>) \<noteq> None"
      proof (rule handle_packet_ends)
        show "received_request (?got @ bs) = (case packet_request ?s of
            Some (wc, off) \<Rightarrow> Seek wc off | None \<Rightarrow> Line (take (p + 1) buf2))"
          using packet_received(1) [OF Some] tk by (simp split: option.split)
        show "at (received_request (?got @ bs)) Start [] (env (st\<lparr>env := w1\<rparr>))" using f1(1) by simp
        show "p + 1 \<le> length buf2" using p b(1,2) by (auto simp: buf_inv_def)
        then show "p + 1 \<le> INT_MAX" using b(2) Suc.prems(4) by simp
        show "p + 1 < k" using p n by simp
      qed (use r(1) in simp)
      with eq Some show ?thesis by (auto simp: after_recv_def packet_exit_def split: option.split outcome.split)
    next
      case None
      show ?thesis
      proof (cases "?psz \<ge> bsz - 1")
        case False
        with b have "buf_inv buf2 bsz ?psz" by auto
        from Suc.IH [of "st\<lparr>env := w1\<rparr>", OF _ _ this Suc.prems(4)] r(1) f1(1) n eq None False
        show ?thesis by (simp add: after_recv_def)
      next
        case True
        obtain m w where m: "os_realloc os buf2 (bsz * 2) w1 = (m, w)" by fastforce
        have le: "length buf2 \<le> bsz * 2" using b(2) by simp
        note ra = reallocate [OF r(1) le m]
        note f2 = idle_fresh [OF conjunct1 [OF conjunct2 [OF ra]] refl f1(1)]
        show ?thesis
        proof (cases "m = None \<or> INT_MAX < bsz * 2")
          case True
          with eq None \<open>?psz \<ge> bsz - 1\<close> m show ?thesis by (auto simp: after_recv_def)
        next
          case False
          then obtain temp where t: "m = Some temp" "bsz * 2 \<le> INT_MAX" by auto
          have "buf_inv temp (bsz * 2) ?psz" using ra t(1) b Suc.prems(3) by (auto simp: buf_inv_def)
          from Suc.IH [of "st\<lparr>env := w\<rparr>", OF _ _ this t(2)] ra f2 n have
            "recv_loop k os cfd ffd temp (bsz * 2) ?psz (Some (int (length bs))) (st\<lparr>env := w\<rparr>) \<noteq> None" by simp
          with eq None True m t show ?thesis by (simp add: after_recv_def)
        qed
      qed
    qed
  qed
qed simp

lemma receive_data_ends:
  assumes good: "good (env st)" and fresh: "fresh (env st)" and k: "2 * length (a_in (view (env st))) + 1 < k"
  shows "receive_data k os cfd ffd st \<noteq> None"
proof -
  obtain m w where m: "os_malloc os 1024 (env st) = (m, w)" by fastforce
  note ma = malloc [OF good m]
  note f = idle_fresh [OF conjunct1 [OF conjunct2 [OF ma]] refl fresh]
  show ?thesis
  proof (cases m)
    case None
    with m show ?thesis by (simp add: receive_data_def)
  next
    case (Some buf)
    have "buf_inv buf 1024 0" "(1024::nat) \<le> INT_MAX" using ma Some by (auto simp: buf_inv_def INT_MAX_def)
    with recv_loop_ends [of "st\<lparr>env := w, bufs := bufs st + 1\<rparr>" buf 1024 0 k None] ma f k
    have "recv_loop k os cfd ffd buf 1024 0 None (st\<lparr>env := w, bufs := bufs st + 1\<rparr>) \<noteq> None" by simp
    then obtain y where "recv_loop k os cfd ffd buf 1024 0 None (st\<lparr>env := w, bufs := bufs st + 1\<rparr>) = Some y" by auto
    with m Some show ?thesis
      by (auto simp: receive_data_def Let_def split: outcome.splits loop_exit.splits option.splits prod.splits)
  qed
qed

section \<open>Sending\<close>

lemma send_loop_ends:
  "good (env st) \<Longrightarrow> at q (Sending pos bs) out (env st) \<Longrightarrow> length bs - n < k \<Longrightarrow> send_loop k os cfd bs n st \<noteq> None"
proof (induction k arbitrary: n st)
  case (Suc k)
  show ?case
  proof (cases "n < length bs")
    case True
    obtain x w where x: "os_send os cfd (drop n bs) (env st) = (x, w)" by fastforce
    note c = send_call_at [OF Suc.prems(1,2) True x]
    show ?thesis
    proof (cases x)
      case (Some y)
      with c have "0 < y" by simp
      with Suc.prems(3) True have "length bs - (n + y) < k" by linarith
      with Suc.IH [of "st\<lparr>env := w\<rparr>" "n + y"] c Some x True show ?thesis by simp
    qed (use x True in simp)
  qed simp
qed simp

text \<open>Nothing is added to the device while it is read: the mutex is held.\<close>

lemma send_loop_device:
  "send_loop k os cfd bs n st = Some (Ret b st') \<Longrightarrow> good (env st) \<Longrightarrow> at q (Sending pos bs) out (env st) \<Longrightarrow>
     shared (a_sh (view (env st'))) = shared (a_sh (view (env st)))"
proof (induction k arbitrary: n st)
  case (Suc k)
  show ?case
  proof (cases "n < length bs")
    case True
    obtain x w where x: "os_send os cfd (drop n bs) (env st) = (x, w)" by fastforce
    note c = send_call_at [OF Suc.prems(2,3) True x]
    show ?thesis
    proof (cases x)
      case None
      with c x True Suc.prems(1) show ?thesis by (auto simp: unlock_file_def free_buf_def)
    next
      case (Some y)
      with x True Suc.prems(1) have "send_loop k os cfd bs (n + y) (st\<lparr>env := w\<rparr>) = Some (Ret b st')" by simp
      with Suc.IH c Some show ?thesis by fastforce
    qed
  qed (use Suc.prems in auto)
qed simp

lemma read_loop_ends:
  "good (env st) \<Longrightarrow> at q (Reading (a_pos (view (env st)))) out (env st) \<Longrightarrow>
     length (drop (a_pos (view (env st))) (contents (shared (a_sh (view (env st)))))) + 1 < k \<Longrightarrow>
     a_out (view (env st)) = o0 @ out \<Longrightarrow> read_loop k os cfd ffd 1024 st \<noteq> None"
proof (induction k arbitrary: st out)
  case (Suc k)
  let ?w = "env st"
  let ?left = "drop (a_pos (view ?w)) (contents (shared (a_sh (view ?w))))"
  obtain x w where x: "os_read os ffd 1024 ?w = (x, w)" by fastforce
  note c = read_call_at [OF Suc.prems(1,2) x]
  show ?case
  proof (cases "x = None \<or> x = Some []")
    case True
    with x show ?thesis by auto
  next
    case False
    then obtain b bs' where b: "x = Some (b # bs')" by (cases x) (auto simp: neq_Nil_conv)
    let ?bs = "b # bs'"
    from c b obtain rest where left: "?left = ?bs @ rest" by (auto simp: prefix_def)
    have s: "good w" "at q (Sending (a_pos (view ?w)) ?bs) out w" using c b by simp_all
    have "length ?bs - 0 < k" using Suc.prems(3) unfolding left by simp
    with send_loop_ends [of "st\<lparr>env := w\<rparr>" q "a_pos (view ?w)" ?bs out 0 k] s
    obtain y where y: "send_loop k os cfd ?bs 0 (st\<lparr>env := w\<rparr>) = Some y" by auto
    from send_loop_at [OF y, of q "a_pos (view ?w)" out o0] s c Suc.prems(4)
    obtain c' st2 out2 where z: "y = Ret c' st2" "good (env st2)" "a_pos (view (env st2)) = a_pos (view w)"
      "a_out (view (env st2)) = o0 @ out2"
      "at q (if c' then Reading (a_pos (view ?w) + length ?bs) else Failed) out2 (env st2)" by auto
    show ?thesis
    proof (cases c')
      case True
      have "shared (a_sh (view (env st2))) = shared (a_sh (view ?w))"
        using send_loop_device [OF y [unfolded z(1)]] s c by simp
      then have "drop (a_pos (view (env st2))) (contents (shared (a_sh (view (env st2))))) = drop (length ?bs) ?left"
        using z(3) c b by (simp add: add.commute)
      also have "\<dots> = rest" unfolding left by simp
      finally have "length (drop (a_pos (view (env st2))) (contents (shared (a_sh (view (env st2)))))) + 1 < k"
        using Suc.prems(3) unfolding left by simp
      with Suc.IH [of st2 out2] z c b True have "read_loop k os cfd ffd 1024 st2 \<noteq> None" by simp
      with x b y z(1) True show ?thesis by simp
    next
      case False
      with x b y z(1) show ?thesis by simp
    qed
  qed
qed simp

lemma send_data_ends:
  assumes good: "good (env st)" and at: "at q (Ready (a_pos (view (env st)))) [] (env st)"
  shows "\<exists>n. \<forall>k\<ge>n. send_data k os cfd ffd st \<noteq> None"
proof -
  obtain m w where m: "os_malloc os 1024 (env st) = (m, w)" by fastforce
  note ma = malloc [OF good m]
  note f = idle_at [OF conjunct1 [OF conjunct2 [OF ma]] refl at, simplified]
  show ?thesis
  proof (cases m)
    case None
    with m show ?thesis by (simp add: send_data_def)
  next
    case (Some buf)
    let ?st = "lock_file os (st\<lparr>env := w, bufs := bufs st + 1\<rparr>)"
    let ?n = "length (drop (a_pos (view (env ?st))) (contents (shared (a_sh (view (env ?st)))))) + 2"
    have "at q (Ready (a_pos (view w))) [] w" using f(1,4) by simp
    note l = locked_send [OF conjunct1 [OF ma] this]
    have e: "good (env ?st)" "at q (Reading (a_pos (view (env ?st)))) [] (env ?st)"
      using l f by (simp_all add: lock_file_def)
    have "send_data k os cfd ffd st \<noteq> None" if "?n \<le> k" for k
    proof -
      have "read_loop k os cfd ffd 1024 ?st \<noteq> None" by (rule read_loop_ends [OF e]) (use that in auto)
      then obtain y where "read_loop k os cfd ffd 1024 ?st = Some y" by auto
      with m Some show ?thesis by (auto simp: send_data_def split: outcome.split option.split)
    qed
    then show ?thesis by blast
  qed
qed

section \<open>The session\<close>

lemma client_handler_ends:
  assumes good: "good (env st)" and fresh: "fresh (env st)"
  shows "\<exists>n. \<forall>k\<ge>n. client_handler k os cfd st \<noteq> None"
proof -
  obtain fd w where fd: "os_open os (env st) = (fd, w)" by fastforce
  with opened good obtain p where w: "good w" "fd = - 1 \<or> fd = ffd" "idle i rq stalled (view (env st)\<lparr>a_pos := p\<rparr>) (view w)"
    by blast
  note f = idle_fresh [OF w(3) _ fresh, simplified]
  show ?thesis
  proof (cases "fd = - 1")
    case True
    with fd show ?thesis by (simp add: client_handler_def)
  next
    case False
    with w(2) have ffd: "fd = ffd" by simp
    let ?st = "st\<lparr>env := w, open_fds := ffd # open_fds st\<rparr>" and ?n = "2 * length (a_in (view w)) + 2"
    have "receive_data ?n os cfd ffd ?st \<noteq> None"
      by (rule receive_data_ends) (use w(1) f(1) in simp_all)
    then obtain y where y: "receive_data ?n os cfd ffd ?st = Some y" by auto
    then have more: "receive_data k os cfd ffd ?st = Some y" if "?n \<le> k" for k
      using receive_data_more that by blast
    have start: "client_handler k os cfd st =
        (case y of
           Undefined u \<Rightarrow> Some (Undefined u)
         | Ret r st1 \<Rightarrow>
             if r = - 1 then Some (Ret () (mark_complete os (close_fd os cfd (close_fd os ffd st1))))
             else (case send_data k os cfd ffd st1 of
                     None \<Rightarrow> None
                   | Some (Undefined u) \<Rightarrow> Some (Undefined u)
                   | Some (Ret r st1) \<Rightarrow> Some (Ret () (mark_complete os (close_fd os cfd (close_fd os ffd st1))))))"
      if "?n \<le> k" for k
      using more [OF that] fd False ffd by (simp add: client_handler_def Let_def split: outcome.split)
    show ?thesis
    proof (cases "\<exists>r st1. y = Ret r st1 \<and> r \<noteq> - 1")
      case False
      with start have "\<forall>k\<ge>?n. client_handler k os cfd st \<noteq> None" by (auto split: outcome.split)
      then show ?thesis by blast
    next
      case True
      then obtain r st1 where r: "y = Ret r st1" "r \<noteq> - 1" by blast
      from receive_data_at [OF y [unfolded r(1)]] w(1) f(1) r(2) obtain bs where
        "good (env st1)" "at (received_request bs) (Ready (a_pos (view (env st1)))) [] (env st1)" by auto
      from send_data_ends [OF this] obtain n where n: "\<forall>k\<ge>n. send_data k os cfd ffd st1 \<noteq> None" by blast
      have "client_handler k os cfd st \<noteq> None" if "max ?n n \<le> k" for k
        using start [of k] n that r by (auto split: option.split outcome.split)
      then show ?thesis by blast
    qed
  qed
qed

text \<open>With the result that all larger amounts of fuel share.\<close>

lemma client_handler_returns:
  assumes "good (env st)" "fresh (env st)"
  shows "\<exists>n r. \<forall>k\<ge>n. client_handler k os cfd st = Some r"
proof -
  obtain n where n: "\<forall>k\<ge>n. client_handler k os cfd st \<noteq> None" using client_handler_ends [OF assms] by blast
  then obtain r where "client_handler n os cfd st = Some r" by auto
  with client_handler_more show ?thesis by blast
qed

end

end
