(* ===== verification/Sharing_Refinement.thy ===== *)
theory Sharing_Refinement
  imports Sharing_World Shared_Returns History_Properties
begin

text \<open>
  The step relation of \<open>File_Sharing\<close> and the code of a session agree: what \<open>client_handler\<close> does
  on the driver when nothing else runs is a run of one client in the step relation, with the
  same device and the same answer.
\<close>

lemma start_sel [simp]:
  "cpc (sharing_start d) = (\<lambda>_. Start)" "shared (sharing_start d) = d" "file_mutex (sharing_start d) = None"
  "sent (sharing_start d) = (\<lambda>_. [])" "attempts (sharing_start d) = []"
  by (simp_all add: sharing_start_def)

section \<open>Runs of one client\<close>

lemma hangup_run:
  assumes "rq i = Hangup" "i \<notin> stalled"
  shows "\<exists>u. share_steps rq stalled (sharing_start d) u \<and> cpc u i = Finished \<and> shared u = d \<and> sent u i = contents d"
proof -
  let ?s = "(sharing_start d)\<lparr>cpc := (cpc (sharing_start d))(i := Rewinding)\<rparr>"
  have 1: "rewind_step rq (sharing_start d) ?s" by (rule hangup) (simp_all add: assms(1))
  have "cpc ?s i = Rewinding" "file_mutex ?s = None" by simp_all
  from step_then [OF rewinds [OF 1] rewinding_runs [OF this assms(2)]] show ?thesis by auto
qed

lemma line_run:
  assumes "rq i = Line p" "i \<notin> stalled"
  shows "\<exists>u. share_steps rq stalled (sharing_start d) u \<and> cpc u i = Finished \<and>
     shared u = write_spec d p \<and> sent u i = contents (write_spec d p)"
proof -
  let ?s = "(sharing_start d)\<lparr>file_mutex := Some i, cpc := (cpc (sharing_start d))(i := Writing 0)\<rparr>"
  have 1: "packet_step rq (sharing_start d) ?s" by (rule lock_write) (simp_all add: assms(1))
  have "cpc ?s i = Writing 0" by simp
  from writing_runs [where rq = rq and i = i, OF this assms(1), of stalled] obtain t where
    t: "share_steps rq stalled ?s t" "cpc t i = Rewinding" "file_mutex t = None" "shared t = write_spec d p"
    "sent t i = []" by auto
  from rewinding_runs [OF t(2,3) assms(2), of rq] obtain u where
    "share_steps rq stalled t u" "cpc u i = Finished" "shared u = write_spec d p"
    "sent u i = contents (write_spec d p)" unfolding t(4,5) by auto
  with converse_rtranclp_into_rtranclp [OF packet [OF 1] t(1)] show ?thesis
    by (meson rtranclp_trans)
qed

lemma refused_run:
  assumes "rq i = Line p" "p \<noteq> []"
  shows "\<exists>u. share_steps rq stalled (sharing_start d) u \<and> cpc u i = Failed \<and> shared u = d \<and> sent u i = []"
proof -
  let ?s = "(sharing_start d)\<lparr>file_mutex := Some i, cpc := (cpc (sharing_start d))(i := Writing 0)\<rparr>"
  have 1: "packet_step rq (sharing_start d) ?s" by (rule lock_write) (simp_all add: assms(1))
  have 2: "packet_step rq ?s (?s\<lparr>file_mutex := None, cpc := (cpc ?s)(i := Failed),
      attempts := attempts ?s @ [(i, take 0 p)]\<rparr>)"
    by (rule write_fails) (simp_all add: assms)
  show ?thesis by (rule step_then [OF packet [OF 1]], rule step_then [OF packet [OF 2]], rule stay) simp
qed

lemma seek_run:
  assumes "rq i = Seek wc off" "i \<notin> stalled"
  shows "\<exists>u. share_steps rq stalled (sharing_start d) u \<and> over (cpc u i) \<and> shared u = d \<and>
     sent u i = (case seekto_spec (fst d) wc off of None \<Rightarrow> [] | Some pos \<Rightarrow> drop pos (contents d))"
proof -
  let ?s = "(sharing_start d)\<lparr>file_mutex := Some i, cpc := (cpc (sharing_start d))(i := Seeking)\<rparr>"
  have 1: "packet_step rq (sharing_start d) ?s" by (rule lock_seek) (simp_all add: assms(1))
  have "cpc ?s i = Seeking" by simp
  from seeking_runs [where rq = rq and i = i, OF this assms(1), of stalled]
  obtain t where t: "share_steps rq stalled ?s t" "file_mutex t = None" "shared t = d" "sent t i = []"
    "cpc t i = (case seekto_spec (fst d) wc off of None \<Rightarrow> Failed | Some pos \<Rightarrow> Ready pos)"
    by auto
  have st: "share_steps rq stalled (sharing_start d) t"
    using packet [OF 1] t(1) by (rule converse_rtranclp_into_rtranclp)
  show ?thesis
  proof (cases "seekto_spec (fst d) wc off")
    case None
    with st t show ?thesis by (intro exI [of _ t]) simp
  next
    case (Some pos)
    with t(5) have "cpc t i = Ready pos" by simp
    from ready_runs [OF this t(2) assms(2), of rq] obtain u where
      "share_steps rq stalled t u" "cpc u i = Finished" "shared u = d" "sent u i = drop pos (contents d)"
      unfolding t(3,4) by auto
    with st Some show ?thesis by (intro exI [of _ u]) simp
  qed
qed

lemma session_run:
  assumes alone: "waits v = []"
  shows "\<exists>t. share_steps (\<lambda>_. request_of (inbox v) extra) {} (sharing_start (sdev v)) t \<and> over (cpc t 0) \<and>
     shared t = fst (session_spec device_store v extra) \<and> sent t 0 = snd (session_spec device_store v extra)"
proof (cases "first_packet (inbox v)")
  case None
  then have "request_of (inbox v) extra = Hangup" by (simp add: request_of_def)
  with hangup_run [of "\<lambda>_. request_of (inbox v) extra" 0 "{}" "sdev v"] None show ?thesis
    by (auto simp: session_spec_def answer_spec_def Let_def await_alone alone)
next
  case (Some a)
  obtain line rest where a: "a = (line, rest)" by (cases a)
  show ?thesis
  proof (cases "packet_request (packet_string line extra)")
    case None
    then have r: "request_of (inbox v) extra = Line (line @ [newline])" using Some a by (simp add: request_of_def)
    show ?thesis
    proof (cases "grants v (length line + 1)")
      case True
      then have "session_spec device_store v extra = (write_spec (sdev v) (line @ [newline]), contents (write_spec (sdev v) (line @ [newline])))"
        using Some a None by (simp add: session_spec_def line_result_def line_spec_def answer_spec_def Let_def await_alone alone)
      with line_run [of "\<lambda>_. request_of (inbox v) extra" 0 "line @ [newline]" "{}" "sdev v"] r
      show ?thesis by auto
    next
      case False
      then have "session_spec device_store v extra = (sdev v, [])"
        using Some a None by (simp add: session_spec_def line_result_def line_spec_def answer_spec_def Let_def await_alone alone)
      with refused_run [of "\<lambda>_. request_of (inbox v) extra" 0 "line @ [newline]" "{}" "sdev v"] r
      show ?thesis by auto
    qed
  next
    case req: (Some q)
    obtain wc off where q: "q = (wc, off)" by (cases q)
    then have r: "request_of (inbox v) extra = Seek wc off" using Some a req by (simp add: request_of_def)
    have "session_spec device_store v extra = (sdev v, case seekto_spec (fst (sdev v)) wc off of None \<Rightarrow> [] | Some pos \<Rightarrow> drop pos (concat (fst (sdev v))))"
      using Some a req q by (simp add: session_spec_def line_result_def line_spec_def answer_spec_def Let_def await_alone alone split: option.split)
    with seek_run [of "\<lambda>_. request_of (inbox v) extra" 0 wc off "{}" "sdev v"] r
    show ?thesis by auto
  qed
qed

section \<open>The refinement\<close>

text \<open>
  Alone on the driver: every session, whatever stream of bytes it receives, is a run of one client of the
  step relation on the driver's abstract device: it ends with the same device and has sent the
  same bytes.
\<close>

theorem lone_session_refines_sharing:
  fixes st :: "world thread_st"
  defines "s \<equiv> w_kst (env st)" and "stream \<equiv> concat (w_in (env st))"
  assumes K: "kernel_api_ok K" and w: "world_good (env st)" and free: "\<not> file_held st"
    and size: "length stream < 2 ^ 30 - 1"
      "length (content s) + length (pending s) + length stream < 2 ^ 63"
    and fuel: "2 * length stream + 3 \<le> fuel"
      "length (content s) + length (pending s) + length stream + 3 \<le> fuel"
  shows "\<exists>st' extra t. client_handler fuel (aesd_os K) cfd st = Some (Ret () st') \<and>
     share_steps (\<lambda>_. request_of stream extra) {} (sharing_start (device_of s)) t \<and>
     (cpc t 0 = Finished \<or> cpc t 0 = Failed) \<and>
     device_of (w_kst (env st')) = shared t \<and> w_out (env st') = w_out (env st) @ sent t 0"
proof -
  let ?v = "world_view K (env st)"
  have v: "inbox ?v = stream" "sdev ?v = device_of s" "waits ?v = []"
    by (simp_all add: world_view_def stream_def s_def)
  obtain st' extra where c: "client_handler fuel (aesd_os K) cfd st = Some (Ret () st')"
    "(device_of (w_kst (env st')), w_out (env st')) = map_prod id ((@) (w_out (env st))) (session_spec device_store ?v extra)"
    using session_ends_on_driver [OF K w free size [unfolded s_def stream_def] fuel [unfolded s_def stream_def]] by blast
  obtain t where "share_steps (\<lambda>_. request_of stream extra) {} (sharing_start (device_of s)) t" "over (cpc t 0)"
    "shared t = fst (session_spec device_store ?v extra)" "sent t 0 = snd (session_spec device_store ?v extra)"
    using session_run [of ?v extra, OF v(3)] unfolding v(1,2) by blast
  with c show ?thesis
    by (intro exI [of _ st'] exI [of _ extra] exI [of _ t]) (auto simp: map_prod_def split: prod.splits)
qed

theorem lone_session_refines_sharing_witness:
  "\<exists>st' extra t. client_handler 60 (aesd_os first_fit) 4 (client [''h'', ''i'' @ newline # ''zz'']) = Some (Ret () st') \<and>
     share_steps (\<lambda>_. request_of (''hi'' @ newline # ''zz'') extra) {} (sharing_start (device_of served_kst)) t \<and>
     device_of (w_kst (env st')) = shared t"
proof -
  have "world_good (env (client [''h'', ''i'' @ newline # ''zz'']))" by (rule client_good) simp
  from lone_session_refines_sharing [OF first_fit_ok this, of 60 4] show ?thesis
    by (auto simp: served_device_of)
qed

section \<open>Among others\<close>




end
