(* ===== verification/Stamper.thy ===== *)
theory Stamper
  imports Prelude
begin

text \<open>
  The timestamp thread of \<^verbatim>\<open>server/aesdsocket.c\<close>, \<open>stamper_handler\<close>, which the build for an output
  file (without \<open>USE_AESD_CHAR_DEVICE\<close>) starts.  The calls are parameters; \<open>t_stamp\<close>
  stands for \<open>time\<close>, \<open>localtime\<close> and \<open>strftime\<close> together: the line it formats.  The loop takes
  fuel, one unit for each line.
\<close>

section \<open>The thread\<close>

record 'w clock =
  t_active :: "'w \<Rightarrow> bool \<times> 'w"
  t_stamp :: "'w \<Rightarrow> char list \<times> 'w"
  t_open :: "'w \<Rightarrow> int \<times> 'w"
  t_lock_file :: "'w \<Rightarrow> 'w"
  t_write :: "int \<Rightarrow> char list \<Rightarrow> 'w \<Rightarrow> int \<times> 'w"
  t_sleep :: "nat \<Rightarrow> 'w \<Rightarrow> 'w"

record 'w stamper_st =
  t_env :: 'w
  t_held :: bool
  t_fds :: "int list"

definition close_t :: "int \<Rightarrow> 'w stamper_st \<Rightarrow> 'w stamper_st" where
  "close_t fd st = st\<lparr>t_fds := remove1 fd (t_fds st)\<rparr>"

text \<open>The \<open>for\<close> loop with \<open>n\<close> seconds to go.\<close>

fun stamper_sleep :: "'w clock \<Rightarrow> nat \<Rightarrow> 'w stamper_st \<Rightarrow> 'w stamper_st" where
  "stamper_sleep c 0 st = st"
| "stamper_sleep c (Suc n) st =
     (let (active, w) = t_active c (t_env st); st = st\<lparr>t_env := w\<rparr>
      in if \<not> active then st
         else stamper_sleep c n (st\<lparr>t_env := t_sleep c 1 (t_env st)\<rparr>))"

text \<open>
  One pass of the loop, up to the sleep; \<open>False\<close> is a \<open>break\<close>.  \<open>strlen\<close> of the buffer is
  the length of the formatted line.
\<close>

definition stamper_pass :: "'w clock \<Rightarrow> 'w stamper_st \<Rightarrow> bool \<times> 'w stamper_st" where
  "stamper_pass c st =
     (let (time_buffer, w) = t_stamp c (t_env st);
          (file_fd, w) = t_open c w; st = st\<lparr>t_env := w\<rparr>
      in if file_fd = - 1 then (False, st)
      else let
        st = st\<lparr>t_fds := file_fd # t_fds st\<rparr>;
        st = st\<lparr>t_env := t_lock_file c (t_env st), t_held := True\<rparr>;
        (r, w) = t_write c file_fd time_buffer (t_env st); st = st\<lparr>t_env := w\<rparr>
      in if r = - 1 then (False, (close_t file_fd st)\<lparr>t_held := False\<rparr>)
      else (True, (close_t file_fd st)\<lparr>t_held := False\<rparr>))"

fun stamper_handler :: "nat \<Rightarrow> 'w clock \<Rightarrow> 'w stamper_st \<Rightarrow> 'w stamper_st option" where
  "stamper_handler 0 c st = None"
| "stamper_handler (Suc k) c st =
     (let (active, w) = t_active c (t_env st); st = st\<lparr>t_env := w\<rparr>
      in if \<not> active then Some st
         else case stamper_pass c st of
                (False, st) \<Rightarrow> Some st
              | (True, st) \<Rightarrow> stamper_handler k c (stamper_sleep c 10 st))"

section \<open>What it leaves\<close>

lemma stamper_sleep_keeps:
  "t_held (stamper_sleep c n st) = t_held st \<and> t_fds (stamper_sleep c n st) = t_fds st"
  by (induction n arbitrary: st) (auto simp: Let_def split: prod.split)

lemma stamper_pass_keeps:
  "stamper_pass c st = (go, st') \<Longrightarrow> \<not> t_held st \<Longrightarrow> \<not> t_held st' \<and> t_fds st' = t_fds st"
  by (auto simp: stamper_pass_def Let_def close_t_def split: prod.splits if_splits)

text \<open>On every way out the mutex is free and the thread's descriptors are closed.\<close>

theorem stamper_cleans_up:
  "stamper_handler fuel c st = Some st' \<Longrightarrow> \<not> t_held st \<Longrightarrow> \<not> t_held st' \<and> t_fds st' = t_fds st"
proof (induction fuel arbitrary: st)
  case 0
  then show ?case by simp
next
  case (Suc k)
  obtain act w where a: "t_active c (t_env st) = (act, w)" by fastforce
  obtain go st1 where p: "stamper_pass c (st\<lparr>t_env := w\<rparr>) = (go, st1)" by fastforce
  have st1: "\<not> t_held st1" "t_fds st1 = t_fds st"
    using stamper_pass_keeps [OF p] Suc.prems(2) by simp_all
  show ?case
  proof (cases "act \<and> go")
    case True
    with Suc.prems(1) a p have "stamper_handler k c (stamper_sleep c 10 st1) = Some st'" by simp
    from Suc.IH [OF this] st1 show ?thesis by (simp add: stamper_sleep_keeps)
  next
    case False
    with Suc.prems a p st1 show ?thesis by (auto simp: Let_def split: if_splits bool.splits)
  qed
qed

text \<open>
  It ends: once the signal has come the next test sees it, so as many lines are written as
  tests succeed.  \<open>left\<close> is how many tests of \<open>active\<close> still succeed.
\<close>

theorem stamper_ends:
  assumes act: "\<And>w. fst (t_active c w) \<longleftrightarrow> 0 < left w" "\<And>w. 0 < left w \<Longrightarrow> left (snd (t_active c w)) < left w"
    and calls: "\<And>w. left (snd (t_stamp c w)) \<le> left w" "\<And>w. left (snd (t_open c w)) \<le> left w"
      "\<And>w. left (t_lock_file c w) \<le> left w" "\<And>fd l w. left (snd (t_write c fd l w)) \<le> left w"
      "\<And>n w. left (t_sleep c n w) \<le> left w" "\<And>w. left (snd (t_active c w)) \<le> left w"
  shows "left (t_env st) < fuel \<Longrightarrow> stamper_handler fuel c st \<noteq> None"
proof (induction fuel arbitrary: st)
  case 0
  then show ?case by simp
next
  case (Suc k)
  have sleep: "left (t_env (stamper_sleep c n st)) \<le> left (t_env st)" for n st
  proof (induction n arbitrary: st)
    case (Suc n)
    obtain b w where b: "t_active c (t_env st) = (b, w)" by fastforce
    have "left w \<le> left (t_env st)" using calls(6) [of "t_env st"] b by simp
    moreover have "left (t_sleep c 1 w) \<le> left w" by (rule calls(5))
    ultimately show ?case
      using Suc.IH [of "st\<lparr>t_env := t_sleep c 1 w\<rparr>"] b by (auto simp: Let_def intro: order_trans)
  qed simp
  obtain a w1 where a: "t_active c (t_env st) = (a, w1)" by fastforce
  obtain go st1 where p: "stamper_pass c (st\<lparr>t_env := w1\<rparr>) = (go, st1)" by fastforce
  have pass: "left (t_env st1) \<le> left w1"
  proof -
    obtain line w2 where s: "t_stamp c w1 = (line, w2)" by fastforce
    obtain fd w3 where o: "t_open c w2 = (fd, w3)" by fastforce
    obtain r w4 where w: "t_write c fd line (t_lock_file c w3) = (r, w4)" by fastforce
    have "left w2 \<le> left w1" "left w3 \<le> left w2" "left w4 \<le> left w3"
      using calls(1) [of w1] calls(2) [of w2] calls(4) [of fd line "t_lock_file c w3"] calls(3) [of w3] s o w
      by simp_all
    with p s o w show ?thesis by (auto simp: stamper_pass_def Let_def close_t_def split: if_splits)
  qed
  show ?case
  proof (cases "a \<and> go")
    case False
    then show ?thesis using a p by (cases a; cases go) simp_all
  next
    case True
    have "left w1 < left (t_env st)" using act(1,2) [of "t_env st"] a True by simp
    then have "left (t_env (stamper_sleep c 10 st1)) < k"
      using sleep [of 10 st1] pass Suc.prems by simp
    from Suc.IH [OF this] True a p show ?thesis by simp
  qed
qed

end
