(* ===== verification/File_World.thy ===== *)
theory File_World
  imports Session_Streams Session_Peer Stamper
begin

text \<open>
  The server built without \<open>USE_AESD_CHAR_DEVICE\<close>: the same session on an ordinary file that is
  opened with \<open>O_APPEND\<close>, and the timestamp thread that writes into the same file.  A session and
  the timestamp thread exclude each other with \<open>file_mutex\<close>: while a session waits for it, the
  timestamp thread may complete any number of passes.  The contract \<open>served_store\<close> holds of this
  world, with the timestamps as what others do during a wait.
\<close>

section \<open>The file\<close>

text \<open>
  The peer; the bytes of the file; the position of the session's open file; how many bytes the file
  system takes in one \<open>write\<close>; the timestamps written while the session waits for the mutex, for
  each time it takes it.
\<close>

record file_world = peer +
  f_data :: "char list"
  f_at :: nat
  f_chunk :: nat
  f_stamps :: "char list list list"

definition f_append :: "char list \<Rightarrow> file_world \<Rightarrow> nat \<times> file_world" where
  "f_append bs w =
     (let n = min (length bs) (f_chunk w) in (n, w\<lparr>f_data := f_data w @ take n bs\<rparr>))"

definition f_write :: "char list \<Rightarrow> file_world \<Rightarrow> nat option \<times> file_world" where
  "f_write bs w = (let (n, w) = f_append bs w in (Some n, w\<lparr>f_at := length (f_data w)\<rparr>))"

definition f_read :: "nat \<Rightarrow> file_world \<Rightarrow> char list option \<times> file_world" where
  "f_read n w =
     (let bs = take n (drop (f_at w) (f_data w)) in (Some bs, w\<lparr>f_at := f_at w + length bs\<rparr>))"

definition f_lseek :: "int \<Rightarrow> int \<Rightarrow> file_world \<Rightarrow> int \<times> file_world" where
  "f_lseek off whence w =
     (let to = (if whence = 0 then off else if whence = 1 then int (f_at w) + off
                else if whence = 2 then int (length (f_data w)) + off else - 1)
      in if to < 0 then (- 1, w) else (to, w\<lparr>f_at := nat to\<rparr>))"

text \<open>
  The calls of the timestamp thread when the library formats \<open>line\<close>: it opens the file for itself,
  so the session's position stays.
\<close>

definition stamp_clock :: "char list \<Rightarrow> file_world clock" where
  "stamp_clock line =
     \<lparr>t_active = (\<lambda>w. (w_active w, w)),
      t_stamp = (\<lambda>w. (line, w)),
      t_open = (\<lambda>w. (5, w)),
      t_lock_file = (\<lambda>w. w),
      t_write = (\<lambda>fd bs w. map_prod int id (f_append bs w)),
      t_sleep = (\<lambda>n w. w)\<rparr>"

definition stamp_file :: "char list \<Rightarrow> file_world \<Rightarrow> file_world" where
  "stamp_file line w =
     t_env (snd (stamper_pass (stamp_clock line) \<lparr>t_env = w, t_held = False, t_fds = []\<rparr>))"

definition f_lock :: "file_world \<Rightarrow> file_world" where
  "f_lock w =
     (case f_stamps w of
        [] \<Rightarrow> w
      | ls # later \<Rightarrow> fold stamp_file ls (w\<lparr>f_stamps := later\<rparr>))"

text \<open>An \<open>ioctl\<close> of the driver's fails on an ordinary file.\<close>

definition file_os :: "file_world os" where
  "file_os =
     \<lparr>os_active = (\<lambda>w. (w_active w, w)),
      os_lock_file = f_lock,
      os_lock_list = (\<lambda>w. w),
      os_malloc = (\<lambda>n w. (Some (junk n), w)),
      os_realloc = (\<lambda>buf n w. (Some (take n (buf @ junk n)), w)),
      os_recv = (\<lambda>fd. w_recv),
      os_send = (\<lambda>fd. w_send),
      os_open = (\<lambda>w. (device_fd, w\<lparr>f_at := 0\<rparr>)),
      os_read = (\<lambda>fd. f_read),
      os_write = (\<lambda>fd. f_write),
      os_lseek = (\<lambda>fd. f_lseek),
      os_ioctl = (\<lambda>fd cmd arg w. (- 1, w)),
      os_close = (\<lambda>fd w. w)\<rparr>"

section \<open>A pass of the timestamp thread\<close>

text \<open>A timestamp of which the file system takes less is cut: the thread writes once and goes on.\<close>

lemma stamp_file_appends: "stamp_file line w = w\<lparr>f_data := f_data w @ take (f_chunk w) line\<rparr>"
  by (simp add: stamp_file_def stamper_pass_def stamp_clock_def f_append_def close_t_def Let_def min_def)

abbreviation stamped :: "nat \<Rightarrow> char list list \<Rightarrow> char list" where
  "stamped chunk ls \<equiv> concat (map (take chunk) ls)"

lemma stamp_files_append: "fold stamp_file ls w = w\<lparr>f_data := f_data w @ stamped (f_chunk w) ls\<rparr>"
  by (induction ls arbitrary: w) (simp_all add: stamp_file_appends)

section \<open>The contract holds\<close>

definition file_good :: "file_world \<Rightarrow> bool" where
  "file_good w \<longleftrightarrow> peer_ok w \<and> 0 < f_chunk w"

definition file_view :: "file_world \<Rightarrow> char list served" where
  "file_view w =
     \<lparr>inbox = concat (w_in w), outbox = w_out w, sdev = f_data w, fpos = f_at w, grants = (\<lambda>_. True),
      waits = map (\<lambda>ls data. data @ stamped (f_chunk w) ls) (f_stamps w)\<rparr>"

lemma f_lock_law:
  assumes "file_good w"
  shows "file_good (f_lock w)" "file_view (f_lock w) = await (file_view w)"
  using assms
  by (auto simp: f_lock_def file_good_def file_view_def peer_ok_def await_def stamp_files_append split: list.split)

lemma f_write_law:
  assumes "file_good w" "bs \<noteq> []"
  shows "\<exists>n w'. f_write bs w = (Some n, w') \<and> 0 < n \<and> n \<le> length bs \<and> file_good w' \<and>
     inbox (file_view w') = inbox (file_view w) \<and> outbox (file_view w') = outbox (file_view w) \<and>
     waits (file_view w') = waits (file_view w) \<and> sdev (file_view w') = sdev (file_view w) @ take n bs"
  using assms by (simp add: f_write_def f_append_def Let_def file_good_def file_view_def peer_ok_def)

lemma f_read_law:
  assumes "file_good w"
  shows "\<exists>bs rest w'. f_read 1024 w = (Some bs, w') \<and> file_good w' \<and>
     file_view w' = (file_view w)\<lparr>fpos := fpos (file_view w) + length bs\<rparr> \<and>
     drop (fpos (file_view w)) (sdev (file_view w)) = bs @ rest \<and> (bs = [] \<longrightarrow> rest = [])"
proof -
  let ?rest = "drop (f_at w) (f_data w)"
  have "?rest = take 1024 ?rest @ drop 1024 ?rest" by (rule append_take_drop_id [symmetric])
  with assms show ?thesis
    by (intro exI [of _ "take 1024 ?rest"] exI [of _ "drop 1024 ?rest"])
      (simp add: f_read_def Let_def file_good_def file_view_def peer_ok_def del: drop_drop)
qed

lemma served_file: "served_store file_store file_os cfd device_fd file_good file_view"
proof unfold_locales
  fix w assume w: "file_good w"
  have peer: "peer_ok w" and act: "w_active w" using w by (simp_all add: file_good_def peer_ok_def)
  show "\<exists>w'. os_active file_os w = (True, w') \<and> file_good w' \<and> file_view w' = file_view w"
    using w act by (simp add: file_os_def)
  show "file_good (os_lock_file file_os w) \<and> file_view (os_lock_file file_os w) = await (file_view w)"
    using f_lock_law [OF w] by (simp add: file_os_def)
  show "file_good (os_lock_list file_os w) \<and> file_view (os_lock_list file_os w) = file_view w"
    using w by (simp add: file_os_def)
  show "\<exists>b w'. os_malloc file_os n w = (Some b, w') \<and> length b = n \<and> file_good w' \<and> file_view w' = file_view w" for n
    using w by (simp add: file_os_def)
  show "\<exists>b w'. os_realloc file_os buf n w = (Some b, w') \<and> length b = n \<and> take (length buf) b = buf \<and>
      file_good w' \<and> file_view w' = file_view w" if "length buf \<le> n" for buf n
    using w that by (simp add: file_os_def)
  show "\<exists>bs w'. os_recv file_os cfd n w = (Some bs, w') \<and> bs \<noteq> [] \<and> length bs \<le> n \<and> file_good w' \<and>
      inbox (file_view w) = bs @ inbox (file_view w') \<and> file_view w' = (file_view w)\<lparr>inbox := inbox (file_view w')\<rparr>"
    if n: "0 < n" and ne: "inbox (file_view w) \<noteq> []" for n
    using w_recv_law [OF peer n] ne w by (auto simp: file_os_def file_view_def file_good_def)
  show "\<exists>w'. os_recv file_os cfd n w = (Some [], w') \<and> file_good w' \<and> file_view w' = file_view w"
    if e: "inbox (file_view w) = []" for n
    using e w peer_inbox [OF peer] by (simp add: file_os_def file_view_def w_recv_end)
  show "\<exists>n w'. os_write file_os device_fd bs w = (Some n, w') \<and> 0 < n \<and> n \<le> length bs \<and> file_good w' \<and>
      inbox (file_view w') = inbox (file_view w) \<and> outbox (file_view w') = outbox (file_view w) \<and>
      waits (file_view w') = waits (file_view w) \<and>
      sdev (file_view w') = st_write file_store (sdev (file_view w)) (take n bs) \<and>
      (n < length bs \<longrightarrow> grants (file_view w') (length bs - n))" if "bs \<noteq> []" for bs
    using f_write_law [OF w that] by (auto simp: file_os_def file_view_def)
  show "\<exists>w'. os_write file_os device_fd bs w = (None, w') \<and> file_good w' \<and> file_view w' = file_view w"
    if "\<not> grants (file_view w) (length bs)" for bs
    using that by (simp add: file_view_def)
  show "\<exists>w'. os_lseek file_os device_fd 0 0 w = (0, w') \<and> file_good w' \<and> file_view w' = (file_view w)\<lparr>fpos := 0\<rparr>"
    using w by (simp add: file_os_def f_lseek_def file_good_def file_view_def peer_ok_def)
  show "\<exists>r w'. os_ioctl file_os device_fd AESDCHAR_IOCSEEKTO arg w = (r, w') \<and> file_good w' \<and>
      (case st_seek file_store (sdev (file_view w)) (unat (write_cmd arg)) (unat (write_cmd_offset arg)) of
         None \<Rightarrow> r < 0 \<and> file_view w' = file_view w
       | Some p \<Rightarrow> r = 0 \<and> file_view w' = (file_view w)\<lparr>fpos := p\<rparr>)" for arg
    using w by (simp add: file_os_def)
  show "\<exists>bs rest w'. os_read file_os device_fd 1024 w = (Some bs, w') \<and> file_good w' \<and>
      file_view w' = (file_view w)\<lparr>fpos := fpos (file_view w) + length bs\<rparr> \<and>
      drop (fpos (file_view w)) (stored file_store (file_view w)) = bs @ rest \<and> (bs = [] \<longrightarrow> rest = [])"
    using f_read_law [OF w] by (simp add: file_os_def)
  show "\<exists>n w'. os_send file_os cfd bs w = (Some n, w') \<and> 0 < n \<and> n \<le> length bs \<and> file_good w' \<and>
      file_view w' = (file_view w)\<lparr>outbox := outbox (file_view w) @ take n bs\<rparr>" if "bs \<noteq> []" for bs
    using w_send_law [OF peer that] w by (auto simp: file_os_def file_good_def file_view_def)
  show "\<exists>w'. os_open file_os w = (device_fd, w') \<and> file_good w' \<and> file_view w' = (file_view w)\<lparr>fpos := 0\<rparr>"
    using w by (simp add: file_os_def file_good_def file_view_def peer_ok_def)
  show "file_good (os_close file_os fd w) \<and> file_view (os_close file_os fd w) = file_view w" for fd
    using w by (simp add: file_os_def)
qed simp

interpretation file_session: served_store file_store file_os 4 device_fd file_good file_view
  by (rule served_file)

end
