(* ===== verification/File_History.thy ===== *)
theory File_History
  imports File_World
begin

text \<open>
  The life of the output file: clients and timestamps one after another, and timestamps that come
  while a client waits for the mutex.  Each client is one run of \<open>client_handler\<close>, each timestamp
  one pass of \<open>stamper_handler\<close>.
\<close>

section \<open>Visits\<close>

text \<open>
  A client, with the pieces its bytes arrive in and the timestamps written while its session waits
  for the mutex the first and the second time; or a timestamp alone.
\<close>

datatype visit =
    Client "char list list" "char list list" "char list list"
  | Stamp "char list"

definition file_thread :: "nat \<Rightarrow> nat \<Rightarrow> char list \<Rightarrow> char list list \<Rightarrow> char list list list \<Rightarrow> file_world thread_st" where
  "file_thread window chunk data segs stamps =
     \<lparr>env = \<lparr>w_active = True, w_in = segs, w_out = [], w_window = window, f_data = data, f_at = 0,
        f_chunk = chunk, f_stamps = stamps\<rparr>,
      file_held = False, list_held = False, bufs = 0, open_fds = [4], thread_complete = 0\<rparr>"

fun run_visits :: "nat \<Rightarrow> nat \<Rightarrow> nat \<Rightarrow> char list \<Rightarrow> visit list \<Rightarrow> (char list \<times> char list list) option" where
  "run_visits fuel window chunk data [] = Some (data, [])"
| "run_visits fuel window chunk data (Stamp line # later) =
     run_visits fuel window chunk (f_data (stamp_file line (env (file_thread window chunk data [] [])))) later"
| "run_visits fuel window chunk data (Client segs first second # later) =
     (case client_handler fuel file_os 4 (file_thread window chunk data segs [first, second]) of
        Some (Ret _ st) \<Rightarrow>
          map_option (\<lambda>(final, as). (final, w_out (env st) # as))
            (run_visits fuel window chunk (f_data (env st)) later)
      | _ \<Rightarrow> None)"

section \<open>What they leave\<close>

text \<open>The line of a client that has one to store, and whether it sends a seek request.\<close>

definition request_prefix :: "char list" where "request_prefix = ''AESDCHAR_IOCSEEKTO:''"

definition own_line :: "char list list \<Rightarrow> char list option" where
  "own_line segs =
     (case first_packet (concat segs) of
        None \<Rightarrow> None
      | Some (line, rest) \<Rightarrow> if take 19 line = request_prefix then None else Some (line @ [newline]))"

definition asks_seek :: "char list list \<Rightarrow> bool" where
  "asks_seek segs =
     (case first_packet (concat segs) of None \<Rightarrow> False | Some (line, rest) \<Rightarrow> take 19 line = request_prefix)"

text \<open>
  The bytes a visit adds to the file.  A client that stores a line takes the mutex twice, to write
  it and to send the answer; the others only once.
\<close>

fun visit_entry :: "nat \<Rightarrow> visit \<Rightarrow> char list" where
  "visit_entry chunk (Stamp line) = take chunk line"
| "visit_entry chunk (Client segs first second) =
     stamped chunk first @ (case own_line segs of None \<Rightarrow> [] | Some p \<Rightarrow> p @ stamped chunk second)"

text \<open>
  The timestamps of a visit, and what it adds when \<open>write\<close> takes each of them whole.
\<close>

fun visit_stamps :: "visit \<Rightarrow> char list list" where
  "visit_stamps (Stamp line) = [line]"
| "visit_stamps (Client segs first second) = first @ second"

fun whole_entry :: "visit \<Rightarrow> char list" where
  "whole_entry (Stamp line) = line"
| "whole_entry (Client segs first second) =
     concat first @ (case own_line segs of None \<Rightarrow> [] | Some p \<Rightarrow> p @ concat second)"

fun visit_answers :: "nat \<Rightarrow> char list \<Rightarrow> visit list \<Rightarrow> char list list" where
  "visit_answers chunk data [] = []"
| "visit_answers chunk data (v # later) =
     (let data' = data @ visit_entry chunk v
      in (case v of Stamp line \<Rightarrow> [] | Client segs first second \<Rightarrow> [if asks_seek segs then [] else data']) @
         visit_answers chunk data' later)"

text \<open>
  Clients whose first line is the same for the server whatever follows it: it lacks the name of a
  seek request, or it is one as a client prints it.
\<close>

definition clear_client :: "char list list \<Rightarrow> bool" where
  "clear_client segs \<longleftrightarrow> [] \<notin> set segs \<and> length (concat segs) < 2 ^ 30 - 1 \<and>
     (\<forall>line rest. first_packet (concat segs) = Some (line, rest) \<longrightarrow>
        take 19 line \<noteq> request_prefix \<or>
        (\<exists>wc off. wc < 2 ^ 32 \<and> off < 2 ^ 32 \<and> line @ [newline] = seekto_request wc off))"

fun clear_visit :: "visit \<Rightarrow> bool" where
  "clear_visit (Stamp line) = True"
| "clear_visit (Client segs first second) = clear_client segs"

fun visit_size :: "visit \<Rightarrow> nat" where
  "visit_size (Stamp line) = length line"
| "visit_size (Client segs first second) =
     length (concat segs) + length (concat first) + length (concat second)"

lemma stamped_size: "length (stamped chunk ls) \<le> length (concat ls)"
  by (induction ls) auto

lemma stamped_whole: "\<forall>l\<in>set ls. length l \<le> chunk \<Longrightarrow> stamped chunk ls = concat ls"
  by (induction ls) auto

lemma entry_whole: "\<forall>l\<in>set (visit_stamps v). length l \<le> chunk \<Longrightarrow> visit_entry chunk v = whole_entry v"
  by (cases v) (auto simp: stamped_whole split: option.split)

section \<open>One client\<close>

lemma clear_client_spec:
  assumes "clear_client segs" "v = file_view (env (file_thread window chunk data segs [first, second]))"
  shows "session_spec file_store v extra =
     (data @ visit_entry chunk (Client segs first second),
      if asks_seek segs then [] else data @ visit_entry chunk (Client segs first second))"
proof -
  have v: "inbox v = concat segs" "sdev (await v) = data @ stamped chunk first" "grants v n"
    "sdev (await ((await v)\<lparr>sdev := s\<rparr>)) = s @ stamped chunk second" for n s
    by (simp_all add: assms(2) file_view_def file_thread_def await_def)
  show ?thesis
  proof (cases "first_packet (concat segs)")
    case None
    then show ?thesis by (simp add: session_spec_def answer_spec_def v Let_def own_line_def asks_seek_def)
  next
    case (Some p)
    obtain line rest where p: "p = (line, rest)" by (cases p)
    note l = first_packet_Some [OF Some [unfolded p]]
    show ?thesis
    proof (cases "take 19 line = request_prefix")
      case True
      with assms(1) Some p obtain wc off where n: "wc < 2 ^ 32" "off < 2 ^ 32" "seekto_request wc off = line @ [newline]"
        by (auto simp: clear_client_def)
      from packet_request_seekto [OF this, of extra] True Some p show ?thesis
        by (simp add: session_spec_def line_result_def line_spec_def v Let_def own_line_def asks_seek_def)
    next
      case False
      from packet_request_line [OF l(2,3) False [unfolded request_prefix_def], of extra] False Some p show ?thesis
        by (simp add: session_spec_def line_result_def line_spec_def answer_spec_def v Let_def own_line_def asks_seek_def)
    qed
  qed
qed

lemma own_line_size: "length (case own_line segs of None \<Rightarrow> [] | Some p \<Rightarrow> p) \<le> length (concat segs)"
  by (auto simp: own_line_def dest: first_packet_Some(1) split: option.split)

lemma visit_entry_size: "length (visit_entry chunk v) \<le> visit_size v"
proof (cases v)
  case (Client segs first second)
  with own_line_size [of segs] stamped_size [of chunk first] stamped_size [of chunk second] show ?thesis
    by (cases "own_line segs") auto
qed simp

lemma one_file_client:
  assumes c: "clear_client segs" and pos: "0 < window" "0 < chunk"
    and size: "length data + visit_size (Client segs first second) < 2 ^ 63"
    and fuel: "length data + 2 * visit_size (Client segs first second) + 3 \<le> fuel"
  defines "final \<equiv> data @ visit_entry chunk (Client segs first second)"
  shows "\<exists>st. client_handler fuel file_os 4 (file_thread window chunk data segs [first, second]) = Some (Ret () st) \<and>
     f_data (env st) = final \<and> w_out (env st) = (if asks_seek segs then [] else final)"
proof -
  let ?st = "file_thread window chunk data segs [first, second]"
  let ?v = "file_view (env ?st)"
  have v: "inbox ?v = concat segs" "sdev (await ?v) = data @ stamped chunk first" "outbox ?v = []"
    by (simp_all add: file_view_def file_thread_def await_def)
  have good: "file_good (env ?st)" "\<not> file_held ?st"
    using c pos by (simp_all add: file_good_def peer_ok_def file_thread_def clear_client_def)
  have "length (inbox ?v) < 2 ^ 30 - 1" using c by (simp add: v clear_client_def)
  moreover have "st_room file_store (sdev (await ?v)) (inbox ?v)"
    using size stamped_size [of chunk first] by (simp add: v)
  moreover have "2 * length (inbox ?v) + 3 \<le> fuel" using fuel by (simp add: v)
  moreover have "\<forall>extra. length (snd (session_spec file_store ?v extra)) + 2 \<le> fuel"
    using fuel visit_entry_size [of chunk "Client segs first second"] by (simp add: clear_client_spec [OF c refl])
  ultimately obtain st' where "client_handler fuel file_os 4 ?st = Some (Ret () st')"
    "(sdev (file_view (env st')), outbox (file_view (env st'))) = (final, if asks_seek segs then [] else final)"
    using file_session.client_answers [OF good] unfolding clear_client_spec [OF c refl] v(3) final_def by force
  then show ?thesis by (auto simp: file_view_def)
qed

section \<open>All visits\<close>

lemma run_visits_spec:
  assumes pos: "0 < window" "0 < chunk"
  shows "list_all clear_visit visits \<Longrightarrow> length data + sum_list (map visit_size visits) < 2 ^ 63 \<Longrightarrow>
     length data + 2 * sum_list (map visit_size visits) + 3 \<le> fuel \<Longrightarrow>
     run_visits fuel window chunk data visits =
       Some (data @ concat (map (visit_entry chunk) visits), visit_answers chunk data visits)"
proof (induction visits arbitrary: data)
  case Nil
  then show ?case by simp
next
  case (Cons v later)
  let ?data = "data @ visit_entry chunk v"
  have "length ?data + sum_list (map visit_size later) < 2 ^ 63"
    "length ?data + 2 * sum_list (map visit_size later) + 3 \<le> fuel"
    using Cons.prems(2,3) visit_entry_size [of chunk v] by simp_all
  from Cons.IH [OF _ this] Cons.prems(1) have ih: "run_visits fuel window chunk ?data later =
      Some (?data @ concat (map (visit_entry chunk) later), visit_answers chunk ?data later)" by simp
  show ?case
  proof (cases v)
    case (Stamp line)
    then have "f_data (stamp_file line (env (file_thread window chunk data [] []))) = ?data"
      by (simp add: stamp_file_appends file_thread_def)
    with ih Stamp show ?thesis by (simp add: Let_def)
  next
    case (Client segs first second)
    with Cons.prems obtain st where
      "client_handler fuel file_os 4 (file_thread window chunk data segs [first, second]) = Some (Ret () st)"
      "f_data (env st) = ?data" "w_out (env st) = (if asks_seek segs then [] else ?data)"
      using one_file_client [OF _ pos, of segs data first second fuel] by auto
    with ih Client show ?thesis by (simp add: Let_def)
  qed
qed

end
