(* ===== verification/File_Properties.thy ===== *)
theory File_Properties
  imports File_History
begin

text \<open>
  What the server built for an output file promises: the file keeps every line, whole and in order, and
  every answer is the file as it is at that moment.  Of a timestamp it keeps what one \<open>write\<close> takes.
\<close>

text \<open>
  C10: in the build for an output file, any clients one after another, with passes of the timestamp
  thread between them and while they wait for the mutex, are all served to the end.  The file ends as it
  began followed by what each visit adds, in order: every line that was sent, whole, and of each
  timestamp the first \<open>chunk\<close> bytes, which are all that one \<open>write\<close> takes of it.  So the file keeps
  all the timestamps whole when no timestamp is longer than \<open>chunk\<close>; the rest of a longer one is
  lost (a finding).  A client that sends a line, or none, is sent the whole file as it is after its
  visit; a seek request stores nothing and is not answered.
\<close>

theorem file_keeps_lines:
  assumes "0 < window" "0 < chunk" "list_all clear_visit visits"
    and "length data + sum_list (map visit_size visits) < 2 ^ 63"
    and "length data + 2 * sum_list (map visit_size visits) + 3 \<le> fuel"
  shows "run_visits fuel window chunk data visits =
       Some (data @ concat (map (visit_entry chunk) visits), visit_answers chunk data visits) \<and>
     ((\<forall>v\<in>set visits. \<forall>l\<in>set (visit_stamps v). length l \<le> chunk) \<longrightarrow>
       run_visits fuel window chunk data visits =
         Some (data @ concat (map whole_entry visits), visit_answers chunk data visits))"
proof (intro conjI impI)
  show r: "run_visits fuel window chunk data visits =
      Some (data @ concat (map (visit_entry chunk) visits), visit_answers chunk data visits)"
    by (rule run_visits_spec [OF assms])
  assume "\<forall>v\<in>set visits. \<forall>l\<in>set (visit_stamps v). length l \<le> chunk"
  then have "map (visit_entry chunk) visits = map whole_entry visits"
    by (intro map_cong refl entry_whole) blast
  with r show "run_visits fuel window chunk data visits =
      Some (data @ concat (map whole_entry visits), visit_answers chunk data visits)" by simp
qed

text \<open>The timestamp of four bytes is cut when \<open>write\<close> takes three at a time, and whole when it takes four.\<close>

theorem file_keeps_lines_witness:
  "run_visits 120 2 3 ''a'' [Stamp ''t1'', Client [''h'', ''i'' @ newline # ''zz''] [''s1'', ''long''] [''s2''],
       Client [''AESDCHAR_IOCSEEKTO:0,0'' @ [newline]] [] [], Client [''no newline''] [] []] =
     Some (''at1s1lonhi'' @ newline # ''s2'',
       [''at1s1lonhi'' @ newline # ''s2'', [], ''at1s1lonhi'' @ newline # ''s2'']) \<and>
   run_visits 120 2 4 ''a'' [Stamp ''t1'', Client [''h'', ''i'' @ newline # ''zz''] [''s1'', ''long''] [''s2''],
       Client [''AESDCHAR_IOCSEEKTO:0,0'' @ [newline]] [] [], Client [''no newline''] [] []] =
     Some (''at1s1longhi'' @ newline # ''s2'',
       [''at1s1longhi'' @ newline # ''s2'', [], ''at1s1longhi'' @ newline # ''s2''])"
proof -
  let ?vs = "[Stamp ''t1'', Client [''h'', ''i'' @ newline # ''zz''] [''s1'', ''long''] [''s2''],
    Client [''AESDCHAR_IOCSEEKTO:0,0'' @ [newline]] [] [], Client [''no newline''] [] []]"
  have "seekto_request 0 0 = ''AESDCHAR_IOCSEEKTO:0,0'' @ [newline]" by code_simp
  then have "clear_client [''AESDCHAR_IOCSEEKTO:0,0'' @ [newline]]"
    by (simp add: clear_client_def first_packet_def Let_def) (intro impI exI [of _ "0::nat"] conjI; simp)
  then have c: "list_all clear_visit ?vs"
    by (auto simp: clear_client_def first_packet_def request_prefix_def Let_def)
  have n: "length ''a'' + 2 * sum_list (map visit_size ?vs) + 3 \<le> 120" by simp
  have "run_visits 120 2 3 ''a'' ?vs =
      Some (''a'' @ concat (map (visit_entry 3) ?vs), visit_answers 3 ''a'' ?vs)"
    using c n by (intro file_keeps_lines [THEN conjunct1]) simp_all
  moreover have "\<forall>v\<in>set ?vs. \<forall>l\<in>set (visit_stamps v). length l \<le> 4" by simp
  then have "run_visits 120 2 4 ''a'' ?vs =
      Some (''a'' @ concat (map whole_entry ?vs), visit_answers 4 ''a'' ?vs)"
    using c n by (intro file_keeps_lines [THEN conjunct2, THEN mp]) simp_all
  ultimately show ?thesis
    by (simp add: first_packet_def request_prefix_def own_line_def asks_seek_def Let_def)
qed

text \<open>
  A timestamp of which \<open>write\<close> takes less than all is left without its newline, and the line of the
  next client follows it on the same line of the file: \<open>stamper_handler\<close> looks only for \<open>- 1\<close>.
\<close>

lemma cut_timestamp_joins_line:
  assumes "chunk < length stamp" "newline \<notin> set (take chunk stamp)" "own_line segs = Some p"
  shows "\<exists>s. concat (map (visit_entry chunk) [Stamp stamp, Client segs [] []]) = s @ p \<and> newline \<notin> set s"
  using assms by simp

end
