(* ===== verification/Stamper_Properties.thy ===== *)
theory Stamper_Properties
  imports Stamper
begin

text \<open>
  The timestamp thread over time: a world in which only its own \<open>sleep\<close> lets seconds pass, the
  signal comes at a given second, and the file takes what is written.
\<close>

record timed =
  seconds :: nat
  signal_at :: nat
  written :: "char list"

definition seconds_clock :: "(nat \<Rightarrow> char list) \<Rightarrow> timed clock" where
  "seconds_clock fmt =
     \<lparr>t_active = (\<lambda>w. (seconds w < signal_at w, w)),
      t_stamp = (\<lambda>w. (fmt (seconds w), w)),
      t_open = (\<lambda>w. (5, w)),
      t_lock_file = (\<lambda>w. w),
      t_write = (\<lambda>fd bs w. (int (length bs), w\<lparr>written := written w @ bs\<rparr>)),
      t_sleep = (\<lambda>n w. w\<lparr>seconds := seconds w + n\<rparr>)\<rparr>"

lemma sleep_timed:
  "seconds (t_env st) \<le> signal_at (t_env st) \<Longrightarrow>
     stamper_sleep (seconds_clock fmt) n st =
       st\<lparr>t_env := (t_env st)\<lparr>seconds := min (seconds (t_env st) + n) (signal_at (t_env st))\<rparr>\<rparr>"
  by (induction n arbitrary: st) (auto simp: seconds_clock_def)

lemma pass_timed:
  "stamper_pass (seconds_clock fmt) st =
     (True, st\<lparr>t_env := (t_env st)\<lparr>written := written (t_env st) @ fmt (seconds (t_env st))\<rparr>, t_held := False\<rparr>)"
  by (cases st) (simp add: stamper_pass_def seconds_clock_def close_t_def Let_def)

text \<open>The number of passes in \<open>d\<close> seconds.\<close>

definition passes :: "nat \<Rightarrow> nat" where "passes d = (d + 9) div 10"

lemma passes_step: "0 < d \<Longrightarrow> passes d = Suc (passes (d - 10))"
  by (cases "d \<le> 10") (auto simp: passes_def)

lemma upt_shift: "map (\<lambda>j. f (s + 10 * j)) [0..<Suc n] = f s # map (\<lambda>j. f (s + 10 + 10 * j)) [0..<n]"
  unfolding upt_conv_Cons [OF zero_less_Suc] map_Suc_upt [symmetric] by (simp add: comp_def add.assoc)

lemma handler_timed:
  "seconds (t_env st) \<le> signal_at (t_env st) \<Longrightarrow> signal_at (t_env st) - seconds (t_env st) < fuel \<Longrightarrow> \<not> t_held st \<Longrightarrow>
     stamper_handler fuel (seconds_clock fmt) st =
       Some (st\<lparr>t_env := (t_env st)\<lparr>seconds := signal_at (t_env st),
         written := written (t_env st) @ concat (map (\<lambda>j. fmt (seconds (t_env st) + 10 * j))
           [0..<passes (signal_at (t_env st) - seconds (t_env st))])\<rparr>\<rparr>)"
proof (induction fuel arbitrary: st)
  case 0
  then show ?case by simp
next
  case (Suc k)
  let ?w = "t_env st" and ?d = "signal_at (t_env st) - seconds (t_env st)"
  have act: "t_active (seconds_clock fmt) ?w = (seconds ?w < signal_at ?w, ?w)" by (simp add: seconds_clock_def)
  show ?case
  proof (cases "seconds ?w < signal_at ?w")
    case False
    with Suc.prems(1) have "seconds ?w = signal_at ?w" by simp
    with act show ?thesis by (simp add: passes_def)
  next
    case True
    let ?s = "min (seconds ?w + 10) (signal_at ?w)"
    let ?st = "st\<lparr>t_held := False, t_env := ?w\<lparr>written := written ?w @ fmt (seconds ?w), seconds := ?s\<rparr>\<rparr>"
    have step: "stamper_handler (Suc k) (seconds_clock fmt) st = stamper_handler k (seconds_clock fmt) ?st"
      using True by (simp add: act pass_timed sleep_timed)
    have "seconds (t_env ?st) \<le> signal_at (t_env ?st)" "signal_at (t_env ?st) - seconds (t_env ?st) < k" "\<not> t_held ?st"
      using Suc.prems(2) True by auto
    note ih = Suc.IH [OF this]
    have same: "map (\<lambda>j. fmt (?s + 10 * j)) [0..<passes (?d - 10)] = map (\<lambda>j. fmt (seconds ?w + 10 + 10 * j)) [0..<passes (?d - 10)]"
      by (cases "?d \<le> 10") (auto simp: passes_def min_def)
    have "0 < ?d" using True by simp
    then have lines: "fmt (seconds ?w) @ concat (map (\<lambda>j. fmt (?s + 10 * j)) [0..<passes (?d - 10)]) =
        concat (map (\<lambda>j. fmt (seconds ?w + 10 * j)) [0..<passes ?d])"
      unfolding passes_step [OF \<open>0 < ?d\<close>] upt_shift same by simp
    have "signal_at ?w - ?s = ?d - 10" by auto
    then show ?thesis
      unfolding step ih using Suc.prems(3) lines by (cases st) simp
  qed
qed

text \<open>
  C31: the timestamp thread writes one line when it starts and one every ten seconds, until the
  signal, and ends within the second in which the signal comes, without \<open>file_mutex\<close> and with its
  descriptors closed; a pass of fuel for each second is enough.
\<close>

theorem timestamps_every_ten_seconds:
  assumes "seconds w \<le> signal_at w" "signal_at w - seconds w < fuel"
  shows "stamper_handler fuel (seconds_clock fmt) \<lparr>t_env = w, t_held = False, t_fds = fds\<rparr> =
     Some \<lparr>t_env = w\<lparr>seconds := signal_at w,
         written := written w @ concat (map (\<lambda>j. fmt (seconds w + 10 * j)) [0..<(signal_at w - seconds w + 9) div 10])\<rparr>,
       t_held = False, t_fds = fds\<rparr>"
  using handler_timed [of "\<lparr>t_env = w, t_held = False, t_fds = fds\<rparr>" fuel fmt] assms
  by (simp add: passes_def)

theorem timestamps_every_ten_seconds_witness:
  "stamper_handler 30 (seconds_clock (\<lambda>s. if s < 10 then ''a'' else if s < 20 then ''b'' else ''c''))
     \<lparr>t_env = \<lparr>seconds = 0, signal_at = 20, written = ''x''\<rparr>, t_held = False, t_fds = []\<rparr> =
   Some \<lparr>t_env = \<lparr>seconds = 20, signal_at = 20, written = ''xab''\<rparr>, t_held = False, t_fds = []\<rparr>"
  using timestamps_every_ten_seconds [of "\<lparr>seconds = 0, signal_at = 20, written = ''x''\<rparr>" 30
      "\<lambda>s. if s < 10 then ''a'' else if s < 20 then ''b'' else ''c''" "[]"]
  by (simp add: upt_rec)

end
