(* ===== verification/Server_Actions.thy ===== *)
theory Server_Actions
  imports Prelude
begin

text \<open>
  What the main thread of \<^verbatim>\<open>server/aesdsocket.c\<close> does to its client threads, as others can
  see it.  Both the model of its code (\<^verbatim>\<open>Slist\<close>, \<^verbatim>\<open>Server_Main\<close>), which logs them, and the
  interleavings of the threads (\<^verbatim>\<open>Thread_Pool\<close>) speak of these actions.
\<close>

text \<open>
  A client thread is created; \<open>list_mutex\<close> is taken, with the listed threads whose completion flag is set
  at that moment, in the order of the list; a thread has been joined; the mutex is given back.
\<close>

datatype 'a act = Starts 'a | Locks "'a list" | Joins 'a | Unlocks

text \<open>The threads joined, in order.\<close>

fun joins :: "'a act list \<Rightarrow> 'a list" where
  "joins [] = []"
| "joins (Joins t # as) = t # joins as"
| "joins (Starts t # as) = joins as"
| "joins (Locks ts # as) = joins as"
| "joins (Unlocks # as) = joins as"

lemma joins_append [simp]: "joins (as @ bs) = joins as @ joins bs"
proof (induction as)
  case (Cons a as)
  then show ?case by (cases a) simp_all
qed simp

lemma joins_map_Joins [simp]: "joins (map Joins ts) = ts"
  by (induction ts) simp_all

text \<open>The threads an action is about.\<close>

lemma map_act_cong: "\<forall>i\<in>\<Union>(set_act ` set as). g i = f i \<Longrightarrow> map (map_act g) as = map (map_act f) as"
  by (auto intro!: act.map_cong0)

end
