(* ===== verification/Client_Table.thy ===== *)
theory Client_Table
  imports Server_Actions
begin

text \<open>
  The contract between the server's main thread and the list it keeps its client threads in:
  \<open>rep p xs\<close> is that the list in \<open>p\<close> holds the nodes \<open>xs\<close>, newest first,
  \<open>allocated\<close> which nodes exist, \<open>ident\<close> their threads and \<open>history\<close> what was done to them.  \<^verbatim>\<open>Slist\<close> provides it; \<^verbatim>\<open>Server_Main\<close> relies on it.
\<close>

locale client_table =
  fixes insert :: "'p \<Rightarrow> nat \<Rightarrow> 'p option"
    and reap drain :: "'p \<Rightarrow> 'p option"
    and rep :: "'p \<Rightarrow> nat list \<Rightarrow> bool"
    and complete :: "'p \<Rightarrow> nat \<Rightarrow> bool"
    and allocated :: "'p \<Rightarrow> nat set"
    and ident :: "'p \<Rightarrow> nat \<Rightarrow> nat"
    and history :: "'p \<Rightarrow> nat act list"
  assumes insert_step: "rep p xs \<Longrightarrow> a \<in> allocated p \<Longrightarrow> a \<noteq> 0 \<Longrightarrow> a \<notin> set xs \<Longrightarrow>
      \<exists>p'. insert p a = Some p' \<and> rep p' (a # xs) \<and> allocated p' = allocated p \<and>
        complete p' = complete p \<and> ident p' = ident p \<and> history p' = history p"
    and reap_step: "rep p xs \<Longrightarrow>
      \<exists>p'. reap p = Some p' \<and> rep p' (filter (\<lambda>a. \<not> complete p a) xs) \<and>
        allocated p' = allocated p - {a \<in> set xs. complete p a} \<and>
        (\<forall>a. a \<in> allocated p' \<longrightarrow> complete p' a = complete p a \<and> ident p' a = ident p a) \<and>
        history p' = history p @ map (\<lambda>a. Joins (ident p a)) (filter (complete p) xs)"
    and drain_step: "rep p xs \<Longrightarrow> \<forall>a\<in>set xs. complete p a \<Longrightarrow>
      \<exists>p'. drain p = Some p' \<and> rep p' [] \<and> allocated p' = allocated p - set xs \<and>
        history p' = history p @ map (\<lambda>a. Joins (ident p a)) xs"
    and drain_blocks: "rep p xs \<Longrightarrow> \<exists>a\<in>set xs. \<not> complete p a \<Longrightarrow> drain p = None"
begin

text \<open>A table that owns exactly the nodes it lists keeps doing so.\<close>

lemma reap_owned:
  assumes "rep p xs" "allocated p = set xs"
  shows "\<exists>p' ys. reap p = Some p' \<and> rep p' ys \<and> allocated p' = set ys \<and> set ys \<subseteq> set xs \<and>
     (\<forall>a\<in>set ys. \<not> complete p' a)"
proof -
  obtain p' where p': "reap p = Some p'" "rep p' (filter (\<lambda>a. \<not> complete p a) xs)"
    "allocated p' = allocated p - {a \<in> set xs. complete p a}"
    "\<forall>a. a \<in> allocated p' \<longrightarrow> complete p' a = complete p a \<and> ident p' a = ident p a"
    using reap_step [OF assms(1)] by blast
  with assms(2) show ?thesis
    by (intro exI [of _ p'] exI [of _ "filter (\<lambda>a. \<not> complete p a) xs"]) auto
qed

lemma drain_iff:
  assumes "rep p xs" "allocated p = set xs"
  shows "(\<exists>p'. drain p = Some p') \<longleftrightarrow> (\<forall>a\<in>set xs. complete p a)"
    and "drain p = Some p' \<Longrightarrow> rep p' [] \<and> allocated p' = {} \<and>
       history p' = history p @ map (\<lambda>a. Joins (ident p a)) xs"
  using drain_step [OF assms(1)] drain_blocks [OF assms(1)] assms(2) by force+

end

end
