(* ===== verification/Slist.thy ===== *)
theory Slist
  imports Client_Table
begin

text \<open>
  The list of client threads: the singly-linked list macros of \<^verbatim>\<open>server/queue.h\<close> that the
  server uses, over a heap of \<open>struct thread_data\<close>, and the two loops of \<open>main\<close> in
  \<^verbatim>\<open>server/aesdsocket.c\<close> that walk it.  \<open>None\<close> is the dereference of NULL or of a freed
  node, or a walk that does not end.  The lemmas show that on a well-formed list neither
  happens and that the loops free and join exactly the nodes they should.
\<close>

section \<open>The nodes\<close>

record thread_data =
  thread_id :: nat
  thread_complete :: int
  client_fd :: int
  sle_next :: nat

text \<open>
  The allocated nodes by address (NULL is \<open>0\<close>), the head, and what the main thread has done to its
  threads so far.
\<close>

record pool =
  nodes :: "nat \<rightharpoonup> thread_data"
  slh_first :: nat
  acts :: "nat act list"

text \<open>The threads joined so far.\<close>

definition joined :: "pool \<Rightarrow> nat list" where
  "joined p = joins (acts p)"

definition log_act :: "nat act \<Rightarrow> pool \<Rightarrow> pool" where
  "log_act a p = p\<lparr>acts := acts p @ [a]\<rparr>"

lemma log_act_simps [simp]:
  "nodes (log_act a p) = nodes p" "slh_first (log_act a p) = slh_first p" "acts (log_act a p) = acts p @ [a]"
  by (simp_all add: log_act_def)

section \<open>The macros\<close>

definition SLIST_INIT :: "pool \<Rightarrow> pool" where
  "SLIST_INIT p = p\<lparr>slh_first := 0\<rparr>"

definition SLIST_EMPTY :: "pool \<Rightarrow> bool" where
  "SLIST_EMPTY p \<longleftrightarrow> slh_first p = 0"

definition SLIST_FIRST :: "pool \<Rightarrow> nat" where
  "SLIST_FIRST p = slh_first p"

definition SLIST_NEXT :: "pool \<Rightarrow> nat \<Rightarrow> nat option" where
  "SLIST_NEXT p elm = map_option sle_next (nodes p elm)"

text \<open>The assignment to \<open>SLIST_NEXT(elm)\<close>.\<close>

definition set_next :: "pool \<Rightarrow> nat \<Rightarrow> nat \<Rightarrow> pool option" where
  "set_next p elm n =
     map_option (\<lambda>d. p\<lparr>nodes := (nodes p)(elm \<mapsto> d\<lparr>sle_next := n\<rparr>)\<rparr>) (nodes p elm)"

definition SLIST_INSERT_HEAD :: "pool \<Rightarrow> nat \<Rightarrow> pool option" where
  "SLIST_INSERT_HEAD p elm =
     do {
       p \<leftarrow> set_next p elm (SLIST_FIRST p);
       Some (p\<lparr>slh_first := elm\<rparr>)
     }"

definition SLIST_REMOVE_HEAD :: "pool \<Rightarrow> pool option" where
  "SLIST_REMOVE_HEAD p =
     do {
       n \<leftarrow> SLIST_NEXT p (SLIST_FIRST p);
       Some (p\<lparr>slh_first := n\<rparr>)
     }"

definition SLIST_REMOVE_AFTER :: "pool \<Rightarrow> nat \<Rightarrow> pool option" where
  "SLIST_REMOVE_AFTER p elm =
     do {
       n \<leftarrow> SLIST_NEXT p elm;
       n \<leftarrow> SLIST_NEXT p n;
       set_next p elm n
     }"

text \<open>The loop of \<open>SLIST_REMOVE\<close> that looks for the predecessor.\<close>

partial_function (option) find_prev :: "pool \<Rightarrow> nat \<Rightarrow> nat \<Rightarrow> nat option" where
  "find_prev p curelm elm =
     do {
       n \<leftarrow> SLIST_NEXT p curelm;
       if n = elm then Some curelm else find_prev p n elm
     }"

definition SLIST_REMOVE :: "pool \<Rightarrow> nat \<Rightarrow> pool option" where
  "SLIST_REMOVE p elm =
     (if SLIST_FIRST p = elm then SLIST_REMOVE_HEAD p
      else do {
        curelm \<leftarrow> find_prev p (SLIST_FIRST p) elm;
        SLIST_REMOVE_AFTER p curelm
      })"

section \<open>The loops of main\<close>

text \<open>
  Both loops run with \<open>list_mutex\<close> held.  A thread sets its completion flag under that mutex
  as the last thing it does, so a join returns when the flag is set; when it is not, the thread
  can never set it and the join never returns: \<open>None\<close>.  \<^verbatim>\<open>Thread_Pool\<close> derives this from the
  steps of the threads.
\<close>

definition pthread_join :: "pool \<Rightarrow> nat \<Rightarrow> pool option" where
  "pthread_join p elm =
     (case nodes p elm of
        None \<Rightarrow> None
      | Some d \<Rightarrow>
          if thread_complete d = 1 then Some (log_act (Joins (thread_id d)) p) else None)"

definition free_node :: "pool \<Rightarrow> nat \<Rightarrow> pool option" where
  "free_node p elm =
     (case nodes p elm of None \<Rightarrow> None | Some d \<Rightarrow> Some (p\<lparr>nodes := (nodes p)(elm := None)\<rparr>))"

text \<open>\<open>SLIST_FOREACH_SAFE\<close> over the list: join, unlink and free every completed client.\<close>

partial_function (option) reap :: "pool \<Rightarrow> nat \<Rightarrow> pool option" where
  "reap p current_client =
     (if current_client = 0 then Some p
      else do {
        temp_client \<leftarrow> SLIST_NEXT p current_client;
        d \<leftarrow> nodes p current_client;
        p \<leftarrow> (if thread_complete d = 1
             then do {
               p \<leftarrow> pthread_join p current_client;
               p \<leftarrow> SLIST_REMOVE p current_client;
               free_node p current_client
             }
             else Some p);
        reap p temp_client
      })"

text \<open>The shutdown loop: join and free from the head until the list is empty.\<close>

partial_function (option) drain :: "pool \<Rightarrow> pool option" where
  "drain p =
     (if SLIST_EMPTY p then Some p
      else do {
        let temp_thread = SLIST_FIRST p;
        p \<leftarrow> pthread_join p temp_thread;
        p \<leftarrow> SLIST_REMOVE_HEAD p;
        p \<leftarrow> free_node p temp_thread;
        drain p
      })"

declare find_prev.simps [code] reap.simps [code] drain.simps [code]

section \<open>Well-formed lists\<close>

text \<open>The nodes from \<open>a\<close> up to the node \<open>b\<close>, and the whole list from \<open>a\<close>.\<close>

fun path :: "(nat \<rightharpoonup> thread_data) \<Rightarrow> nat \<Rightarrow> nat list \<Rightarrow> nat \<Rightarrow> bool" where
  "path h a [] b \<longleftrightarrow> a = b"
| "path h a (x # xs) b \<longleftrightarrow> a = x \<and> x \<noteq> 0 \<and>
     (case h x of None \<Rightarrow> False | Some d \<Rightarrow> path h (sle_next d) xs b)"

lemma path_append: "path h a (xs @ ys) c \<longleftrightarrow> (\<exists>b. path h a xs b \<and> path h b ys c)"
  by (induction xs arbitrary: a) (auto split: option.splits)

lemma path_null: "path h 0 xs 0 \<longleftrightarrow> xs = []"
  by (cases xs) auto

lemma path_unique: "path h a xs 0 \<Longrightarrow> path h a ys 0 \<Longrightarrow> xs = ys"
proof (induction xs arbitrary: a ys)
  case Nil
  then show ?case by (simp add: path_null)
next
  case (Cons x xs)
  then show ?case by (cases ys) (auto split: option.splits)
qed

lemma path_live: "path h a xs b \<Longrightarrow> x \<in> set xs \<Longrightarrow> h x \<noteq> None \<and> x \<noteq> 0"
  by (induction xs arbitrary: a) (auto split: option.splits)

lemma path_distinct: "path h a xs 0 \<Longrightarrow> distinct xs"
proof (induction xs arbitrary: a)
  case Nil
  then show ?case by simp
next
  case (Cons x xs)
  have "x \<notin> set xs"
  proof
    assume "x \<in> set xs"
    then obtain us vs where xs: "xs = us @ x # vs" by (auto simp: in_set_conv_decomp)
    from Cons.prems have "path h x (x # us @ x # vs) 0" by (simp add: xs)
    moreover have "path h a ((x # us) @ x # vs) 0" using Cons.prems by (simp add: xs)
    then obtain b where "path h b (x # vs) 0" unfolding path_append by blast
    then have "path h x (x # vs) 0" by simp
    ultimately have "x # us @ x # vs = x # vs" by (rule path_unique)
    then show False by (auto dest: arg_cong [of _ _ length])
  qed
  with Cons show ?case by (auto split: option.splits)
qed

lemma path_cong: "\<forall>x\<in>set xs. map_option sle_next (h' x) = map_option sle_next (h x) \<Longrightarrow>
    path h' a xs b = path h a xs b"
proof (induction xs arbitrary: a)
  case Nil
  then show ?case by simp
next
  case (Cons x xs)
  then have "map_option sle_next (h' x) = map_option sle_next (h x)" by simp
  with Cons show ?case by (cases "h x"; cases "h' x") auto
qed

definition linked :: "pool \<Rightarrow> nat list \<Rightarrow> bool" where
  "linked p xs \<longleftrightarrow> path (nodes p) (slh_first p) xs 0"

lemma linked_distinct: "linked p xs \<Longrightarrow> distinct xs"
  by (simp add: linked_def path_distinct)

lemma linked_Cons:
  assumes "linked p (x # xs)"
  obtains d where "slh_first p = x" "x \<noteq> 0" "nodes p x = Some d" "path (nodes p) (sle_next d) xs 0" "x \<notin> set xs"
  using assms linked_distinct [OF assms] by (auto simp: linked_def split: option.splits)

section \<open>What the macros do to a well-formed list\<close>

lemma insert_head_linked:
  assumes "linked p xs" "nodes p a = Some d" "a \<noteq> 0" "a \<notin> set xs"
  shows "\<exists>p'. SLIST_INSERT_HEAD p a = Some p' \<and> linked p' (a # xs) \<and>
     nodes p' = (nodes p)(a \<mapsto> d\<lparr>sle_next := slh_first p\<rparr>) \<and> acts p' = acts p"
proof -
  have "path ((nodes p)(a \<mapsto> d\<lparr>sle_next := slh_first p\<rparr>)) (slh_first p) xs 0"
    using assms by (subst path_cong [of xs _ "nodes p"]) (auto simp: linked_def)
  with assms show ?thesis
    by (simp add: SLIST_INSERT_HEAD_def set_next_def SLIST_FIRST_def linked_def)
qed

lemma remove_head_linked:
  assumes "linked p (x # xs)"
  shows "\<exists>n. SLIST_REMOVE_HEAD p = Some (p\<lparr>slh_first := n\<rparr>) \<and> linked (p\<lparr>slh_first := n\<rparr>) xs"
proof -
  obtain d where "slh_first p = x" "nodes p x = Some d" "path (nodes p) (sle_next d) xs 0"
    by (rule linked_Cons [OF assms])
  then show ?thesis
    by (intro exI [of _ "sle_next d"])
      (simp add: SLIST_REMOVE_HEAD_def SLIST_NEXT_def SLIST_FIRST_def linked_def)
qed

lemma find_prev_path:
  "path (nodes p) a (us @ [b, x] @ vs) 0 \<Longrightarrow> find_prev p a x = Some b"
proof (induction us arbitrary: a)
  case Nil
  then show ?case
    by (subst find_prev.simps) (auto simp: SLIST_NEXT_def split: option.splits)
next
  case (Cons u us)
  obtain d where d: "a = u" "nodes p u = Some d" "path (nodes p) (sle_next d) (us @ [b, x] @ vs) 0"
    using Cons.prems by (auto split: option.splits)
  have "sle_next d = hd (us @ [b, x])" using d(3) by (cases us) auto
  moreover have "distinct (us @ [b, x] @ vs)" using path_distinct [OF d(3)] .
  ultimately have "sle_next d \<noteq> x" by (cases us) auto
  with Cons.IH [OF d(3)] d(1,2) show ?case
    by (subst find_prev.simps) (simp add: SLIST_NEXT_def)
qed

text \<open>Removing a node relinks its predecessor and changes no other node.\<close>

lemma remove_linked:
  assumes l: "linked p (us @ x # vs)"
  shows "\<exists>p'. SLIST_REMOVE p x = Some p' \<and> linked p' (us @ vs) \<and> dom (nodes p') = dom (nodes p) \<and>
     acts p' = acts p \<and>
     (\<forall>a. map_option (\<lambda>d. d\<lparr>sle_next := 0\<rparr>) (nodes p' a) =
          map_option (\<lambda>d. d\<lparr>sle_next := 0\<rparr>) (nodes p a)) \<and> nodes p' x = nodes p x"
proof (cases us rule: rev_cases)
  case Nil
  with l remove_head_linked [of p x vs] have "slh_first p = x" by (auto simp: linked_def)
  with Nil l remove_head_linked [of p x vs] show ?thesis by (auto simp: SLIST_REMOVE_def SLIST_FIRST_def)
next
  case (snoc ws b)
  have path: "path (nodes p) (slh_first p) (ws @ [b, x] @ vs) 0" using l by (simp add: linked_def snoc)
  then have pb: "path (nodes p) (slh_first p) ws b" and "path (nodes p) b (b # x # vs) 0"
    by (auto simp: path_append)
  then obtain db dx where d: "nodes p b = Some db" "sle_next db = x" "nodes p x = Some dx" "b \<noteq> 0"
    "path (nodes p) (sle_next dx) vs 0"
    by (auto split: option.splits)
  have dist: "distinct (ws @ [b, x] @ vs)" by (rule path_distinct [OF path])
  have "slh_first p = hd (ws @ [b])" using path by (cases ws) auto
  then have "slh_first p \<noteq> x" using dist by (cases ws) auto
  let ?p = "p\<lparr>nodes := (nodes p)(b \<mapsto> db\<lparr>sle_next := sle_next dx\<rparr>)\<rparr>"
  have "SLIST_REMOVE p x = Some ?p"
    using \<open>slh_first p \<noteq> x\<close> find_prev_path [OF path] d
    by (simp add: SLIST_REMOVE_def SLIST_FIRST_def SLIST_REMOVE_AFTER_def SLIST_NEXT_def set_next_def)
  moreover have "path (nodes ?p) (slh_first p) ws b"
    using pb dist by (subst path_cong [of ws _ "nodes p"]) auto
  moreover have "path (nodes ?p) (sle_next dx) vs 0"
    using d(5) dist by (subst path_cong [of vs _ "nodes p"]) auto
  ultimately show ?thesis
    using d dist by (auto simp: linked_def snoc path_append)
qed

section \<open>What the loops do\<close>

text \<open>What a client's node says, the link aside.\<close>

definition payload :: "pool \<Rightarrow> nat \<Rightarrow> thread_data option" where
  "payload p a = map_option (\<lambda>d. d\<lparr>sle_next := 0\<rparr>) (nodes p a)"

definition completed :: "pool \<Rightarrow> nat \<Rightarrow> bool" where
  "completed p a \<longleftrightarrow> (case nodes p a of None \<Rightarrow> False | Some d \<Rightarrow> thread_complete d = 1)"

definition tid :: "pool \<Rightarrow> nat \<Rightarrow> nat" where
  "tid p a = (case nodes p a of None \<Rightarrow> 0 | Some d \<Rightarrow> thread_id d)"

text \<open>The nodes in the order of the list, and the threads of those whose flag is set.\<close>

partial_function (option) clients_from :: "pool \<Rightarrow> nat \<Rightarrow> nat list option" where
  "clients_from p a =
     (if a = 0 then Some []
      else do {
        n \<leftarrow> SLIST_NEXT p a;
        as \<leftarrow> clients_from p n;
        Some (a # as)
      })"

declare clients_from.simps [code]

definition flagged :: "pool \<Rightarrow> nat list" where
  "flagged p =
     (case clients_from p (SLIST_FIRST p) of
        None \<Rightarrow> []
      | Some as \<Rightarrow> map (tid p) (filter (completed p) as))"

lemma clients_from_path: "path (nodes p) a xs 0 \<Longrightarrow> clients_from p a = Some xs"
proof (induction xs arbitrary: a)
  case Nil
  then show ?case by (subst clients_from.simps) simp
next
  case (Cons x xs)
  then show ?case by (subst clients_from.simps) (auto simp: SLIST_NEXT_def split: option.splits)
qed

lemma flagged_linked: "linked p xs \<Longrightarrow> flagged p = map (tid p) (filter (completed p) xs)"
  by (simp add: flagged_def linked_def SLIST_FIRST_def clients_from_path)

lemma payload_cong:
  assumes "payload p' a = payload p a"
  shows "completed p' a = completed p a" "tid p' a = tid p a"
proof -
  have *: "thread_complete (d\<lparr>sle_next := 0\<rparr>) = thread_complete d" "thread_id (d\<lparr>sle_next := 0\<rparr>) = thread_id d" for d
    by simp_all
  have "map_option thread_complete (payload q a) = map_option thread_complete (nodes q a)"
    "map_option thread_id (payload q a) = map_option thread_id (nodes q a)" for q
    by (simp_all add: payload_def option.map_comp comp_def)
  with assms have "map_option thread_complete (nodes p' a) = map_option thread_complete (nodes p a)"
    "map_option thread_id (nodes p' a) = map_option thread_id (nodes p a)" by metis+
  then show "completed p' a = completed p a" "tid p' a = tid p a"
    by (auto simp: completed_def tid_def split: option.splits)
qed

lemma reap_linked:
  "linked p (us @ vs) \<Longrightarrow> path (nodes p) a vs 0 \<Longrightarrow>
     \<exists>p'. reap p a = Some p' \<and> linked p' (us @ filter (\<lambda>x. \<not> completed p x) vs) \<and>
       dom (nodes p') = dom (nodes p) - {x \<in> set vs. completed p x} \<and>
       acts p' = acts p @ map (\<lambda>x. Joins (tid p x)) (filter (completed p) vs) \<and>
       (\<forall>x. x \<in> set vs \<longrightarrow> completed p x \<or> payload p' x = payload p x) \<and>
       (\<forall>x. x \<notin> set vs \<longrightarrow> payload p' x = payload p x)"
proof (induction vs arbitrary: p us a)
  case Nil
  then show ?case by (subst reap.simps) (simp add: )
next
  case (Cons x vs)
  from Cons.prems(2) obtain d where d: "a = x" "x \<noteq> 0" "nodes p x = Some d" "path (nodes p) (sle_next d) vs 0"
    by (auto split: option.splits)
  have dist: "distinct (us @ x # vs)" by (rule linked_distinct [OF Cons.prems(1)])
  show ?case
  proof (cases "thread_complete d = 1")
    case False
    then have c: "\<not> completed p x" using d by (simp add: completed_def)
    have "linked p ((us @ [x]) @ vs)" using Cons.prems(1) by simp
    from Cons.IH [OF this d(4)] obtain p' where p': "reap p (sle_next d) = Some p'"
      "linked p' ((us @ [x]) @ filter (\<lambda>x. \<not> completed p x) vs)"
      "dom (nodes p') = dom (nodes p) - {x \<in> set vs. completed p x}"
      "acts p' = acts p @ map (\<lambda>x. Joins (tid p x)) (filter (completed p) vs)"
      "\<forall>y. y \<in> set vs \<longrightarrow> completed p y \<or> payload p' y = payload p y"
      "\<forall>y. y \<notin> set vs \<longrightarrow> payload p' y = payload p y" by blast
    have "reap p a = Some p'"
      using d p'(1) False by (subst reap.simps) (simp add: SLIST_NEXT_def)
    with p' c dist show ?thesis by (intro exI [of _ p']) auto
  next
    case True
    then have c: "completed p x" using d by (simp add: completed_def)
    define q where "q = log_act (Joins (thread_id d)) p"
    have j: "pthread_join p x = Some q" using d True by (simp add: pthread_join_def q_def)
    have "linked q (us @ x # vs)" using Cons.prems(1) by (simp add: linked_def q_def)
    from remove_linked [OF this] obtain r where r: "SLIST_REMOVE q x = Some r" "linked r (us @ vs)"
      "dom (nodes r) = dom (nodes p)" "acts r = acts p @ [Joins (thread_id d)]"
      "\<forall>y. payload r y = payload p y" "nodes r x = Some d"
      using d by (auto simp: q_def payload_def)
    define t where "t = r\<lparr>nodes := (nodes r)(x := None)\<rparr>"
    have f: "free_node r x = Some t" using r(6) by (simp add: free_node_def t_def)
    have pay: "payload t y = payload p y" if "y \<noteq> x" for y
      using r(5) that by (simp add: t_def payload_def)
    have lt: "linked t (us @ vs)"
      using r(2) dist unfolding linked_def t_def
      by (subst path_cong [of "us @ vs" _ "nodes r"]) auto
    have pt: "path (nodes t) (sle_next d) vs 0"
    proof (cases vs)
      case Nil
      with d(4) show ?thesis by simp
    next
      case (Cons v ws)
      with d(4) have "sle_next d = v" by simp
      moreover obtain b where "path (nodes t) b vs 0"
        using lt by (auto simp: linked_def path_append)
      ultimately show ?thesis using Cons by simp
    qed
    have same: "completed t y = completed p y" "tid t y = tid p y" if "y \<noteq> x" for y
      using payload_cong [OF pay [OF that]] by simp_all
    have nx: "\<forall>y\<in>set vs. y \<noteq> x" using dist by auto
    have fil: "filter (\<lambda>y. \<not> completed t y) vs = filter (\<lambda>y. \<not> completed p y) vs"
      "filter (completed t) vs = filter (completed p) vs"
      using same(1) nx by (auto intro: filter_cong)
    have tids: "map (\<lambda>x. Joins (tid t x)) (filter (completed p) vs) = map (\<lambda>x. Joins (tid p x)) (filter (completed p) vs)"
      using same(2) nx by auto
    have cset: "{y \<in> set vs. completed t y} = {y \<in> set vs. completed p y}"
      using same(1) nx by auto
    from Cons.IH [OF lt pt] obtain p' where p': "reap t (sle_next d) = Some p'"
      "linked p' (us @ filter (\<lambda>y. \<not> completed p y) vs)"
      "dom (nodes p') = dom (nodes t) - {y \<in> set vs. completed p y}"
      "acts p' = acts t @ map (\<lambda>x. Joins (tid p x)) (filter (completed p) vs)"
      "\<forall>y. y \<in> set vs \<longrightarrow> completed t y \<or> payload p' y = payload t y"
      "\<forall>y. y \<notin> set vs \<longrightarrow> payload p' y = payload t y"
      unfolding fil tids cset by blast
    have "reap p a = Some p'"
      using d p'(1) True j r(1) f by (subst reap.simps) (simp add: SLIST_NEXT_def)
    moreover have "dom (nodes p') = dom (nodes p) - {y \<in> set (x # vs). completed p y}"
      using p'(3) r(3) c by (auto simp: t_def)
    moreover have "acts p' = acts p @ map (\<lambda>x. Joins (tid p x)) (filter (completed p) (x # vs))"
      using p'(4) r(4) c d(3) by (simp add: t_def tid_def)
    moreover have "\<forall>y. y \<in> set (x # vs) \<longrightarrow> completed p y \<or> payload p' y = payload p y"
      using p'(5) same(1) pay c by (metis set_ConsD)
    moreover have "\<forall>y. y \<notin> set (x # vs) \<longrightarrow> payload p' y = payload p y"
      using p'(6) pay by (metis list.set_intros)
    ultimately show ?thesis using p'(2) c by (intro exI [of _ p']) simp
  qed
qed

text \<open>The shutdown loop empties the list, joining and freeing every node of it.\<close>

lemma drain_linked:
  "linked p xs \<Longrightarrow> \<forall>x\<in>set xs. completed p x \<Longrightarrow>
     \<exists>p'. drain p = Some p' \<and> linked p' [] \<and> nodes p' = nodes p |` (- set xs) \<and>
       acts p' = acts p @ map (\<lambda>x. Joins (tid p x)) xs"
proof (induction xs arbitrary: p)
  case Nil
  then have "drain p = Some p" by (subst drain.simps) (simp add: SLIST_EMPTY_def linked_def)
  with Nil show ?case by (simp add: restrict_map_def)
next
  case (Cons x xs)
  obtain d where d: "slh_first p = x" "x \<noteq> 0" "nodes p x = Some d"
    "path (nodes p) (sle_next d) xs 0" "x \<notin> set xs"
    by (rule linked_Cons [OF Cons.prems(1)])
  have c: "thread_complete d = 1" using Cons.prems(2) d(3) by (auto simp: completed_def)
  define q where "q = p\<lparr>acts := acts p @ [Joins (thread_id d)], slh_first := sle_next d,
    nodes := (nodes p)(x := None)\<rparr>"
  have "linked q xs"
    using d unfolding linked_def q_def by (simp, subst path_cong [of xs _ "nodes p"]) auto
  moreover have "\<forall>y\<in>set xs. completed q y"
    using Cons.prems(2) d(5) by (auto simp: q_def completed_def)
  ultimately obtain p' where p': "drain q = Some p'" "linked p' []"
    "nodes p' = nodes q |` (- set xs)" "acts p' = acts q @ map (\<lambda>x. Joins (tid q x)) xs"
    using Cons.IH by blast
  have "drain p = Some p'"
    using d p'(1) c by (subst drain.simps)
      (simp add: SLIST_EMPTY_def SLIST_FIRST_def pthread_join_def SLIST_REMOVE_HEAD_def SLIST_NEXT_def
        free_node_def q_def log_act_def)
  moreover have "nodes p' = nodes p |` (- set (x # xs))"
    using p'(3) by (auto simp: q_def restrict_map_def fun_eq_iff)
  moreover have "map (\<lambda>x. Joins (tid q x)) xs = map (\<lambda>x. Joins (tid p x)) xs"
    using d(5) by (auto simp: q_def tid_def)
  then have "acts p' = acts p @ map (\<lambda>x. Joins (tid p x)) (x # xs)"
    using p'(4) d by (simp add: q_def tid_def)
  ultimately show ?case using p'(2) by blast
qed

text \<open>With a client that has not completed it never ends.\<close>

lemma drain_never:
  "linked p xs \<Longrightarrow> \<exists>x\<in>set xs. \<not> completed p x \<Longrightarrow> drain p = None"
proof (induction xs arbitrary: p)
  case Nil
  then show ?case by simp
next
  case (Cons x xs)
  obtain d where d: "slh_first p = x" "x \<noteq> 0" "nodes p x = Some d"
    "path (nodes p) (sle_next d) xs 0" "x \<notin> set xs"
    by (rule linked_Cons [OF Cons.prems(1)])
  show ?case
  proof (cases "thread_complete d = 1")
    case False
    with d show ?thesis
      by (subst drain.simps) (simp add: SLIST_EMPTY_def SLIST_FIRST_def pthread_join_def)
  next
    case True
    define q where "q = p\<lparr>acts := acts p @ [Joins (thread_id d)], slh_first := sle_next d,
      nodes := (nodes p)(x := None)\<rparr>"
    have "linked q xs"
      using d unfolding linked_def q_def by (simp, subst path_cong [of xs _ "nodes p"]) auto
    moreover have "\<exists>y\<in>set xs. \<not> completed q y"
      using Cons.prems(2) d True by (auto simp: q_def completed_def)
    ultimately have "drain q = None" by (rule Cons.IH)
    then show ?thesis
      using d True by (subst drain.simps)
        (simp add: SLIST_EMPTY_def SLIST_FIRST_def pthread_join_def SLIST_REMOVE_HEAD_def SLIST_NEXT_def
          free_node_def q_def log_act_def)
  qed
qed

text \<open>The list of queue.h is a table of clients.\<close>

definition reap_all :: "pool \<Rightarrow> pool option" where
  "reap_all p = reap p (SLIST_FIRST p)"

interpretation table: client_table SLIST_INSERT_HEAD reap_all drain linked completed "\<lambda>p. dom (nodes p)"
  tid acts
proof
  fix p xs a
  assume l: "linked p xs"
  show "\<exists>p'. SLIST_INSERT_HEAD p a = Some p' \<and> linked p' (a # xs) \<and> dom (nodes p') = dom (nodes p) \<and>
      completed p' = completed p \<and> tid p' = tid p \<and> acts p' = acts p" if a: "a \<in> dom (nodes p)" "a \<noteq> 0" "a \<notin> set xs"
  proof -
    obtain d where d: "nodes p a = Some d" using a(1) by auto
    from insert_head_linked [OF l d a(2,3)] obtain p' where p': "SLIST_INSERT_HEAD p a = Some p'"
      "linked p' (a # xs)" "nodes p' = (nodes p)(a \<mapsto> d\<lparr>sle_next := slh_first p\<rparr>)" "acts p' = acts p" by blast
    have "completed p' = completed p" "tid p' = tid p"
      using p'(3) d by (auto simp: completed_def tid_def fun_eq_iff)
    with p' a(1) show ?thesis by (simp add: insert_absorb)
  qed
  show "\<exists>p'. reap_all p = Some p' \<and> linked p' (filter (\<lambda>a. \<not> completed p a) xs) \<and>
      dom (nodes p') = dom (nodes p) - {a \<in> set xs. completed p a} \<and>
      (\<forall>a. a \<in> dom (nodes p') \<longrightarrow> completed p' a = completed p a \<and> tid p' a = tid p a) \<and>
      acts p' = acts p @ map (\<lambda>a. Joins (tid p a)) (filter (completed p) xs)"
  proof -
    have "linked p ([] @ xs)" "path (nodes p) (SLIST_FIRST p) xs 0"
      using l by (simp_all add: linked_def SLIST_FIRST_def)
    from reap_linked [OF this] obtain p' where p': "reap_all p = Some p'"
      "linked p' (filter (\<lambda>a. \<not> completed p a) xs)"
      "dom (nodes p') = dom (nodes p) - {a \<in> set xs. completed p a}"
      "acts p' = acts p @ map (\<lambda>a. Joins (tid p a)) (filter (completed p) xs)"
      "\<forall>x. x \<in> set xs \<longrightarrow> completed p x \<or> payload p' x = payload p x"
      "\<forall>x. x \<notin> set xs \<longrightarrow> payload p' x = payload p x"
      by (auto simp: reap_all_def)
    have "completed p' a = completed p a \<and> tid p' a = tid p a" if "a \<in> dom (nodes p')" for a
    proof -
      have "payload p' a = payload p a" using that p'(3,5,6) by blast
      from payload_cong [OF this] show ?thesis by simp
    qed
    with p' show ?thesis by blast
  qed
  show "\<exists>p'. drain p = Some p' \<and> linked p' [] \<and> dom (nodes p') = dom (nodes p) - set xs \<and>
      acts p' = acts p @ map (\<lambda>a. Joins (tid p a)) xs"
    if "\<forall>a\<in>set xs. completed p a"
    using drain_linked [OF l that] by auto
  show "drain p = None" if "\<exists>a\<in>set xs. \<not> completed p a"
    by (rule drain_never [OF l that])
qed

end
