(* ===== verification/Server_Main.thy ===== *)
theory Server_Main
  imports Slist
begin

text \<open>
  The main thread of \<^verbatim>\<open>server/aesdsocket.c\<close>: the socket set-up, the accept loop and the
  shutdown, with the resources they must give back explicit in the state.  The calls into the
  C library and the kernel are parameters (\<open>net\<close>); the client threads act inside
  \<open>n_lock_list\<close>, which returns the nodes whose threads have set their completion flag by
  the time the main thread holds \<open>list_mutex\<close>.  What the main thread does to its threads is
  logged in the pool (\<open>acts\<close>), which no step reads.  The accept loop takes fuel, one unit for each
  iteration.
\<close>

section \<open>The calls and the state\<close>

record 'w net =
  n_getaddrinfo :: "'w \<Rightarrow> int \<times> 'w"
  n_socket :: "'w \<Rightarrow> int \<times> 'w"
  n_setsockopt :: "int \<Rightarrow> 'w \<Rightarrow> int \<times> 'w"
  n_bind :: "int \<Rightarrow> 'w \<Rightarrow> int \<times> 'w"
  n_listen :: "int \<Rightarrow> 'w \<Rightarrow> int \<times> 'w"
  n_accept :: "int \<Rightarrow> 'w \<Rightarrow> int \<times> 'w"
  n_active :: "'w \<Rightarrow> bool \<times> 'w"
  n_fork :: "'w \<Rightarrow> int \<times> 'w"
  n_setsid :: "'w \<Rightarrow> int \<times> 'w"
  n_chdir :: "'w \<Rightarrow> int \<times> 'w"
  n_malloc :: "(nat \<rightharpoonup> thread_data) \<Rightarrow> 'w \<Rightarrow> nat \<times> 'w"
  n_create :: "nat \<Rightarrow> 'w \<Rightarrow> nat option \<times> 'w"
  n_lock_list :: "'w \<Rightarrow> nat list \<times> 'w"
  n_create_stamper :: "'w \<Rightarrow> int \<times> 'w"
  n_join_stamper :: "'w \<Rightarrow> 'w"
  n_unlink :: "'w \<Rightarrow> int \<times> 'w"

text \<open>
  \<open>s_fds\<close> are the descriptors the main thread owns, \<open>s_given\<close> those it has handed to client
  threads, \<open>s_std\<close> the standard ones; \<open>s_stamper\<close> is that a timestamp thread has not been joined.
\<close>

record 'w server =
  s_env :: 'w
  s_pool :: pool
  s_fds :: "int list"
  s_given :: "int list"
  s_std :: "int list"
  s_addrinfo :: nat
  s_file_mutex :: bool
  s_list_mutex :: bool
  s_log :: bool
  s_stamper :: bool

definition close_s :: "int \<Rightarrow> 'w server \<Rightarrow> 'w server" where
  "close_s fd st = st\<lparr>s_fds := remove1 fd (s_fds st)\<rparr>"

definition freeaddrinfo :: "'w server \<Rightarrow> 'w server" where
  "freeaddrinfo st = st\<lparr>s_addrinfo := s_addrinfo st - 1\<rparr>"

section \<open>setup\_server and client\_setup\<close>

definition setup_server :: "'w net \<Rightarrow> 'w server \<Rightarrow> int \<times> 'w server" where
  "setup_server net st =
     (let (status, w) = n_getaddrinfo net (s_env st); st = st\<lparr>s_env := w\<rparr>
      in if status \<noteq> 0 then (- 1, st)
      else let
        st = st\<lparr>s_addrinfo := s_addrinfo st + 1\<rparr>;
        (server_fd, w) = n_socket net (s_env st); st = st\<lparr>s_env := w\<rparr>
      in if server_fd = - 1 then (- 1, freeaddrinfo st)
      else let
        st = st\<lparr>s_fds := server_fd # s_fds st\<rparr>;
        (r, w) = n_setsockopt net server_fd (s_env st); st = st\<lparr>s_env := w\<rparr>
      in if r = - 1 then (- 1, close_s server_fd (freeaddrinfo st))
      else let
        (r, w) = n_bind net server_fd (s_env st); st = st\<lparr>s_env := w\<rparr>
      in if r = - 1 then (- 1, close_s server_fd (freeaddrinfo st))
      else (server_fd, freeaddrinfo st))"

definition client_setup :: "'w net \<Rightarrow> int \<Rightarrow> 'w server \<Rightarrow> int \<times> 'w server" where
  "client_setup net server_fd st =
     (let (client_fd, w) = n_accept net server_fd (s_env st); st = st\<lparr>s_env := w\<rparr>
      in if client_fd = - 1 then (- 1, st)
         else (client_fd, st\<lparr>s_fds := client_fd # s_fds st\<rparr>))"

section \<open>main\<close>

text \<open>
  \<open>list_mutex\<close> taken, which shows the completion flags that are set at that moment, and given back.
\<close>

definition mark_nodes :: "nat list \<Rightarrow> pool \<Rightarrow> pool" where
  "mark_nodes as p =
     p\<lparr>nodes := (\<lambda>a. if a \<in> set as then map_option (\<lambda>d. d\<lparr>thread_complete := 1\<rparr>) (nodes p a) else nodes p a)\<rparr>"

definition lock_list :: "'w net \<Rightarrow> 'w server \<Rightarrow> 'w server" where
  "lock_list net st =
     (let (as, w) = n_lock_list net (s_env st); p = mark_nodes as (s_pool st)
      in st\<lparr>s_env := w, s_pool := log_act (Locks (flagged p)) p\<rparr>)"

definition unlock_list :: "'w server \<Rightarrow> 'w server" where
  "unlock_list st = st\<lparr>s_pool := log_act Unlocks (s_pool st)\<rparr>"

text \<open>
  One iteration of the accept loop; \<open>False\<close> is the \<open>break\<close>.  The node's memory is fresh from
  \<open>malloc\<close>: only the fields the code assigns are set.
\<close>

definition accept_iteration :: "'w net \<Rightarrow> int \<Rightarrow> 'w server \<Rightarrow> (bool \<times> 'w server) option" where
  "accept_iteration net server_fd st =
     (let (client_fd, st) = client_setup net server_fd st
      in if client_fd = - 1
      then let (active, w) = n_active net (s_env st); st = st\<lparr>s_env := w\<rparr> in Some (active, st)
      else let (new_client, w) = n_malloc net (nodes (s_pool st)) (s_env st); st = st\<lparr>s_env := w\<rparr>
      in if new_client = 0 then Some (True, close_s client_fd st)
      else let
        node = \<lparr>thread_id = 0, thread_complete = 0, client_fd = client_fd, sle_next = 0\<rparr>;
        st = st\<lparr>s_pool := (s_pool st)\<lparr>nodes := (nodes (s_pool st))(new_client \<mapsto> node)\<rparr>\<rparr>;
        (rc, w) = n_create net new_client (s_env st); st = st\<lparr>s_env := w\<rparr>
      in case rc of
        None \<Rightarrow> do {
          p \<leftarrow> free_node (s_pool (close_s client_fd st)) new_client;
          Some (True, (close_s client_fd st)\<lparr>s_pool := p\<rparr>)
        }
      | Some t \<Rightarrow> do {
          let st = st\<lparr>s_fds := remove1 client_fd (s_fds st), s_given := client_fd # s_given st,
            s_pool := log_act (Starts t)
              ((s_pool st)\<lparr>nodes := (nodes (s_pool st))(new_client \<mapsto> node\<lparr>thread_id := t\<rparr>)\<rparr>)\<rparr>;
          p \<leftarrow> SLIST_INSERT_HEAD (s_pool st) new_client;
          let st = lock_list net (st\<lparr>s_pool := p\<rparr>);
          p \<leftarrow> reap_all (s_pool st);
          Some (True, unlock_list (st\<lparr>s_pool := p\<rparr>))
        })"

text \<open>\<open>None\<close> inside is undefined behaviour, outside it is that the fuel ran out.\<close>

fun accept_loop :: "nat \<Rightarrow> 'w net \<Rightarrow> int \<Rightarrow> 'w server \<Rightarrow> 'w server option option" where
  "accept_loop 0 net server_fd st = None"
| "accept_loop (Suc k) net server_fd st =
     (let (active, w) = n_active net (s_env st); st = st\<lparr>s_env := w\<rparr>
      in if \<not> active then Some (Some st)
         else case accept_iteration net server_fd st of
           None \<Rightarrow> Some None
         | Some (False, st) \<Rightarrow> Some (Some st)
         | Some (True, st) \<Rightarrow> accept_loop k net server_fd st)"

definition release :: "int \<Rightarrow> 'w server \<Rightarrow> 'w server" where
  "release server_fd st =
     (close_s server_fd st)\<lparr>s_file_mutex := False, s_list_mutex := False, s_log := False\<rparr>"

text \<open>
  From the end of the accept loop; \<open>None\<close> is a shutdown that never ends.  \<open>use_dev\<close> is the build
  switch \<open>USE_AESD_CHAR_DEVICE\<close>: without it the timestamp thread is joined and the output file
  removed, where a failure is only logged.
\<close>

definition shutdown :: "bool \<Rightarrow> 'w net \<Rightarrow> int \<Rightarrow> 'w server \<Rightarrow> 'w server option" where
  "shutdown use_dev net server_fd st =
     do {
       let st = lock_list net st;
       p \<leftarrow> drain (s_pool st);
       let st = unlock_list (st\<lparr>s_pool := p\<rparr>);
       let st = (if use_dev then st else st\<lparr>s_env := n_join_stamper net (s_env st), s_stamper := False\<rparr>);
       let st = (close_s server_fd st)\<lparr>s_file_mutex := False, s_list_mutex := False\<rparr>;
       let st = (if use_dev then st else st\<lparr>s_env := snd (n_unlink net (s_env st))\<rparr>);
       Some (st\<lparr>s_log := False\<rparr>)
     }"

datatype main_exit = Returned int | Exited int

text \<open>
  The part of \<open>main\<close> for the argument \<open>-d\<close>: \<open>Inl\<close> ends the process, \<open>Inr\<close> goes on.  (The two
  calls of \<open>sigaction\<close> before it only log when they fail.)
\<close>

definition daemonize :: "'w net \<Rightarrow> int \<Rightarrow> 'w server \<Rightarrow> (main_exit \<times> 'w server) + 'w server" where
  "daemonize net server_fd st =
     (let (pid, w) = n_fork net (s_env st); st = st\<lparr>s_env := w\<rparr>
      in if pid = - 1 then Inl (Exited 1, release server_fd st)
      else if pid = 0
      then let (r, w) = n_setsid net (s_env st); st = st\<lparr>s_env := w\<rparr>
        in if r = - 1 then Inl (Returned (- 1), release server_fd st)
        else let (r, w) = n_chdir net (s_env st); st = st\<lparr>s_env := w\<rparr>
        in if r = - 1 then Inl (Returned (- 1), release server_fd st)
        else Inr (st\<lparr>s_std := []\<rparr>)
      else if pid > 0 then Inl (Exited 0, st)
      else Inr st)"

text \<open>The start of the timestamp thread in the build without \<open>USE_AESD_CHAR_DEVICE\<close>.\<close>

definition start_stamper :: "'w net \<Rightarrow> int \<Rightarrow> 'w server \<Rightarrow> (main_exit \<times> 'w server) + 'w server" where
  "start_stamper net server_fd st =
     (let (rc, w) = n_create_stamper net (s_env st); st = st\<lparr>s_env := w\<rparr>
      in if rc \<noteq> 0 then Inl (Returned (- 1), release server_fd st) else Inr (st\<lparr>s_stamper := True\<rparr>))"

text \<open>\<open>daemon\<close> is whether the first argument is \<^verbatim>\<open>-d\<close>.\<close>

definition main :: "bool \<Rightarrow> nat \<Rightarrow> 'w net \<Rightarrow> bool \<Rightarrow> 'w server \<Rightarrow>
    (main_exit \<times> 'w server) option option" where
  "main use_dev fuel net daemon st =
     (let st = st\<lparr>s_log := True, s_file_mutex := True, s_list_mutex := True,
            s_pool := SLIST_INIT (s_pool st)\<rparr>;
          (server_fd, st) = setup_server net st
      in if server_fd = - 1
      then Some (Some (Returned (- 1), st\<lparr>s_file_mutex := False, s_list_mutex := False, s_log := False\<rparr>))
      else case (if daemon then daemonize net server_fd st else Inr st) of
        Inl res \<Rightarrow> Some (Some res)
      | Inr st \<Rightarrow> case (if use_dev then Inr st else start_stamper net server_fd st) of
        Inl res \<Rightarrow> Some (Some res)
      | Inr st \<Rightarrow>
          let (r, w) = n_listen net server_fd (s_env st); st = st\<lparr>s_env := w\<rparr>
          in if r = - 1 then Some (Some (Returned (- 1), release server_fd st))
          else (case accept_loop fuel net server_fd st of
              None \<Rightarrow> None
            | Some None \<Rightarrow> Some None
            | Some (Some st) \<Rightarrow>
                Some (map_option (\<lambda>st. (Returned 0, st)) (shutdown use_dev net server_fd st))))"

section \<open>What the main thread owns\<close>

text \<open>What is documented of \<open>malloc\<close>: NULL or an address not in use.\<close>

definition malloc_fresh :: "'w net \<Rightarrow> bool" where
  "malloc_fresh net \<longleftrightarrow>
     (\<forall>h w. fst (n_malloc net h w) = 0 \<or> h (fst (n_malloc net h w)) = None)"

text \<open>While serving: the listening socket is the only descriptor, the nodes are those listed.\<close>

definition serving :: "int \<Rightarrow> 'w server \<Rightarrow> nat list \<Rightarrow> bool" where
  "serving server_fd st xs \<longleftrightarrow>
     linked (s_pool st) xs \<and> dom (nodes (s_pool st)) = set xs \<and> s_fds st = [server_fd] \<and>
     s_addrinfo st = 0 \<and> s_file_mutex st \<and> s_list_mutex st \<and> s_log st"

text \<open>Everything given back.\<close>

definition released :: "'w server \<Rightarrow> bool" where
  "released st \<longleftrightarrow>
     s_fds st = [] \<and> s_addrinfo st = 0 \<and> \<not> s_file_mutex st \<and> \<not> s_list_mutex st \<and> \<not> s_log st \<and>
     nodes (s_pool st) = Map.empty"

lemma serving_upd [simp]:
  "serving fd (st\<lparr>s_env := w\<rparr>) xs = serving fd st xs"
  "serving fd (st\<lparr>s_std := a\<rparr>) xs = serving fd st xs"
  "serving fd (st\<lparr>s_stamper := b\<rparr>) xs = serving fd st xs"
  by (simp_all add: serving_def)

lemma serving_acts [simp]:
  "serving fd (st\<lparr>s_pool := log_act a p\<rparr>) xs = serving fd (st\<lparr>s_pool := p\<rparr>) xs"
  "serving fd (unlock_list st) xs = serving fd st xs"
  by (simp_all add: serving_def linked_def unlock_list_def)

lemma mark_nodes_same [simp]: "tid (mark_nodes as p) = tid p" "acts (mark_nodes as p) = acts p"
  by (auto simp: mark_nodes_def tid_def fun_eq_iff split: option.splits)

lemma mark_nodes_linked:
  assumes "linked p xs"
  shows "linked (mark_nodes as p) xs" "dom (nodes (mark_nodes as p)) = dom (nodes p)"
proof -
  show "linked (mark_nodes as p) xs"
    using assms unfolding linked_def mark_nodes_def
    by (simp, subst path_cong [of xs _ "nodes p"]) (auto simp: option.map_comp comp_def)
  show "dom (nodes (mark_nodes as p)) = dom (nodes p)"
    by (auto simp: mark_nodes_def split: if_splits)
qed

lemma lock_list_serving:
  "serving fd st xs \<Longrightarrow> serving fd (lock_list net st) xs"
  using mark_nodes_linked [of "s_pool st" xs]
  by (auto simp: serving_def lock_list_def Let_def linked_def split: prod.split)

text \<open>The log says what was seen at the lock.\<close>

lemma completed_log_act [simp]: "completed (log_act a p) = completed p" "tid (log_act a p) = tid p"
  by (simp_all add: completed_def tid_def fun_eq_iff)

lemma lock_list_acts:
  assumes "linked (s_pool st) xs"
  shows "acts (s_pool (lock_list net st)) =
     acts (s_pool st) @ [Locks (map (tid (s_pool st)) (filter (completed (s_pool (lock_list net st))) xs))]"
    and "tid (s_pool (lock_list net st)) = tid (s_pool st)"
  using flagged_linked [OF mark_nodes_linked(1) [OF assms]]
  by (simp_all add: lock_list_def Let_def split: prod.split)

lemma setup_server_ok:
  assumes "setup_server net st = (fd, st')" "s_fds st = []" "s_addrinfo st = 0"
  shows "s_addrinfo st' = 0 \<and> s_fds st' = (if fd = - 1 then [] else [fd]) \<and>
     s_pool st' = s_pool st \<and> s_file_mutex st' = s_file_mutex st \<and> s_list_mutex st' = s_list_mutex st \<and>
     s_log st' = s_log st \<and> s_stamper st' = s_stamper st"
  using assms
  by (auto simp: setup_server_def Let_def freeaddrinfo_def close_s_def split: prod.splits if_splits)

text \<open>Where the flags of a table stand once the mutex is taken.\<close>

lemma completed_mark_nodes:
  "completed (mark_nodes as p) a \<longleftrightarrow> nodes p a \<noteq> None \<and> (a \<in> set as \<or> completed p a)"
  by (auto simp: completed_def mark_nodes_def split: option.splits)

text \<open>
  What an iteration does: no connection, and the loop goes on as long as the server is active; a
  connection closed again for want of memory or of a thread; or a connection given to a new client
  \<open>a\<close> with thread \<open>t\<close>, after which the clients whose flag is seen set (\<open>over\<close>) are gone from the
  list, joined in its order between the lock and the unlock.  It never runs into undefined behaviour.
\<close>

datatype iteration = No_connection | Dropped | Started nat nat "nat \<Rightarrow> bool"

definition started_acts :: "(nat \<Rightarrow> nat) \<Rightarrow> nat \<Rightarrow> nat list \<Rightarrow> nat act list" where
  "started_acts ident t gone = [Starts t, Locks (map ident gone)] @ map (\<lambda>x. Joins (ident x)) gone @ [Unlocks]"

fun iterated :: "'w net \<Rightarrow> int \<Rightarrow> 'w server \<Rightarrow> nat list \<Rightarrow> bool \<Rightarrow> 'w server \<Rightarrow> iteration \<Rightarrow> bool" where
  "iterated net fd st xs go st' No_connection \<longleftrightarrow> s_pool st' = s_pool st \<and> serving fd st' xs \<and> s_given st' = s_given st"
| "iterated net fd st xs go st' Dropped \<longleftrightarrow>
     go \<and> s_pool st' = s_pool st \<and> serving fd st' xs \<and> s_given st' = s_given st"
| "iterated net fd st xs go st' (Started a t over) \<longleftrightarrow>
     go \<and> a \<notin> set xs \<and> (\<forall>x\<in>set xs. completed (s_pool st) x \<longrightarrow> over x) \<and>
     serving fd st' (filter (\<lambda>x. \<not> over x) (a # xs)) \<and>
     (\<forall>x\<in>set (a # xs). \<not> over x \<longrightarrow> \<not> completed (s_pool st') x) \<and>
     (\<forall>x\<in>set (a # xs). \<not> over x \<longrightarrow> tid (s_pool st') x = ((tid (s_pool st))(a := t)) x) \<and>
     acts (s_pool st') =
       acts (s_pool st) @ started_acts ((tid (s_pool st))(a := t)) t (filter over (a # xs)) \<and>
     (\<exists>c w. n_accept net fd (s_env st) = (c, w) \<and> c \<noteq> - 1 \<and> s_given st' = c # s_given st)"

lemma accept_iteration_cases:
  assumes m: "malloc_fresh net" and s: "serving fd st xs"
  shows "\<exists>go st' it. accept_iteration net fd st = Some (go, st') \<and> iterated net fd st xs go st' it"
proof -
  obtain c w1 where acc: "n_accept net fd (s_env st) = (c, w1)" by fastforce
  obtain act w2 where act: "n_active net w1 = (act, w2)" by fastforce
  obtain a w3 where mal: "n_malloc net (nodes (s_pool st)) w1 = (a, w3)" by fastforce
  obtain rc w4 where cr: "n_create net a w3 = (rc, w4)" by fastforce
  have fresh: "a = 0 \<or> nodes (s_pool st) a = None"
    using m mal by (metis fst_conv malloc_fresh_def)
  consider "c = - 1" | "c \<noteq> - 1" "a = 0" | "c \<noteq> - 1" "a \<noteq> 0" "rc = None" | t where "c \<noteq> - 1" "a \<noteq> 0" "rc = Some t"
    by (cases rc) auto
  then show ?thesis
  proof cases
    case 1
    have "accept_iteration net fd st = Some (act, st\<lparr>s_env := w2\<rparr>)"
      using 1 acc act by (simp add: accept_iteration_def client_setup_def Let_def)
    moreover have "iterated net fd st xs act (st\<lparr>s_env := w2\<rparr>) No_connection" using s by simp
    ultimately show ?thesis by blast
  next
    case 2
    let ?st = "close_s c (st\<lparr>s_fds := c # s_fds st, s_env := w3\<rparr>)"
    have "accept_iteration net fd st = Some (True, ?st)"
      using 2 acc mal by (simp add: accept_iteration_def client_setup_def Let_def)
    moreover have "iterated net fd st xs True ?st Dropped"
      using s by (simp add: serving_def close_s_def)
    ultimately show ?thesis by blast
  next
    case 3
    let ?p = "(s_pool st)\<lparr>nodes := (nodes (s_pool st))(a := None)\<rparr>"
    have p: "?p = s_pool st" using fresh 3 by (simp add: fun_upd_idem)
    obtain st' where st': "accept_iteration net fd st = Some (True, st')"
      "s_pool st' = ?p" "s_fds st' = remove1 c (c # s_fds st)" "s_addrinfo st' = s_addrinfo st"
      "s_file_mutex st' = s_file_mutex st" "s_list_mutex st' = s_list_mutex st" "s_log st' = s_log st"
      "s_given st' = s_given st"
      using 3 acc mal cr by (simp add: accept_iteration_def client_setup_def Let_def close_s_def free_node_def)
    then have "iterated net fd st xs True st' Dropped" using s p by (simp add: serving_def)
    with st'(1) show ?thesis by blast
  next
    case 4
    let ?node = "\<lparr>thread_id = t, thread_complete = 0, client_fd = c, sle_next = 0\<rparr>"
    let ?p = "log_act (Starts t) ((s_pool st)\<lparr>nodes := (nodes (s_pool st))(a \<mapsto> ?node)\<rparr>)"
    have new: "a \<notin> set xs" using fresh 4(2) s by (auto simp: serving_def)
    have "linked ?p xs"
      using s new unfolding serving_def linked_def
      by (simp, subst path_cong [of xs _ "nodes (s_pool st)"]) auto
    from table.insert_step [OF this _ 4(2) new] obtain q where q: "SLIST_INSERT_HEAD ?p a = Some q"
      "linked q (a # xs)" "dom (nodes q) = dom (nodes ?p)" "completed q = completed ?p"
      "tid q = tid ?p" "acts q = acts ?p" by auto
    obtain as w5 where lk: "n_lock_list net w4 = (as, w5)" by fastforce
    let ?m = "mark_nodes as q"
    let ?q = "log_act (Locks (flagged ?m)) ?m"
    have lq: "linked ?q (a # xs)" "dom (nodes ?q) = set (a # xs)"
      using mark_nodes_linked [OF q(2)] q(3) s by (auto simp: serving_def linked_def)
    have tq: "tid ?q = (tid (s_pool st))(a := t)"
      using q(5) by (auto simp: tid_def fun_eq_iff)
    have aq: "acts ?q = acts (s_pool st) @ [Starts t, Locks (map (tid ?q) (filter (completed ?q) (a # xs)))]"
      using q(6) flagged_linked [OF mark_nodes_linked(1) [OF q(2), of as]] by simp
    obtain r where r: "reap_all ?q = Some r" "linked r (filter (\<lambda>x. \<not> completed ?q x) (a # xs))"
      "dom (nodes r) = set (a # xs) - {x \<in> set (a # xs). completed ?q x}"
      "\<forall>x. x \<in> dom (nodes r) \<longrightarrow> completed r x = completed ?q x \<and> tid r x = tid ?q x"
      "acts r = acts ?q @ map (\<lambda>x. Joins (tid ?q x)) (filter (completed ?q) (a # xs))"
      using table.reap_step [OF lq(1)] unfolding lq(2) by blast
    have up: "completed ?q x" if "x \<in> set xs" "completed (s_pool st) x" for x
    proof -
      have "x \<noteq> a" using that(1) new by blast
      then have "completed ?p x" using that(2) by (simp add: completed_def)
      moreover have "x \<in> dom (nodes q)" using q(3) that(1) s by (simp add: serving_def)
      ultimately show ?thesis using q(4) by (auto simp: completed_mark_nodes)
    qed
    obtain st' where st': "accept_iteration net fd st = Some (True, st')"
      "s_pool st' = log_act Unlocks r" "s_fds st' = remove1 c (c # s_fds st)" "s_addrinfo st' = s_addrinfo st"
      "s_file_mutex st' = s_file_mutex st" "s_list_mutex st' = s_list_mutex st" "s_log st' = s_log st"
      "s_given st' = c # s_given st"
      using 4 acc mal cr q(1) lk r(1)
      by (simp add: accept_iteration_def client_setup_def Let_def lock_list_def unlock_list_def)
    have "dom (nodes r) = set (filter (\<lambda>x. \<not> completed ?q x) (a # xs))" using r(3) by auto
    then have "serving fd st' (filter (\<lambda>x. \<not> completed ?q x) (a # xs))"
      using st' s r(2) by (simp add: serving_def linked_def)
    moreover have "\<forall>x\<in>set (a # xs). \<not> completed ?q x \<longrightarrow>
        \<not> completed (s_pool st') x \<and> tid (s_pool st') x = ((tid (s_pool st))(a := t)) x"
      using st'(2) r(3,4) unfolding tq [symmetric] by auto
    moreover have "acts (s_pool st') =
        acts (s_pool st) @ started_acts ((tid (s_pool st))(a := t)) t (filter (completed ?q) (a # xs))"
      using st'(2) r(5) aq unfolding tq [symmetric] by (simp add: started_acts_def)
    ultimately have "iterated net fd st xs True st' (Started a t (completed ?q))"
      using new up acc 4(1) st'(8) by (auto simp del: filter.simps)
    with st'(1) show ?thesis by blast
  qed
qed

text \<open>
  It leaves the main thread with the listening socket alone: the connection was closed or given to
  exactly one new thread.
\<close>

lemma accept_iteration_ok:
  assumes "malloc_fresh net" "serving fd st xs"
  shows "\<exists>go st' ys. accept_iteration net fd st = Some (go, st') \<and> serving fd st' ys \<and>
     (s_given st' = s_given st \<or>
      (\<exists>c w. n_accept net fd (s_env st) = (c, w) \<and> c \<noteq> - 1 \<and> s_given st' = c # s_given st))"
proof -
  obtain go st' it where it: "accept_iteration net fd st = Some (go, st')" "iterated net fd st xs go st' it"
    using accept_iteration_cases [OF assms] by blast
  then show ?thesis by (cases it) (simp, blast)+
qed

lemma accept_loop_ok:
  assumes m: "malloc_fresh net"
  shows "serving fd st xs \<Longrightarrow> accept_loop fuel net fd st = Some r \<Longrightarrow>
     \<exists>st' ys. r = Some st' \<and> serving fd st' ys"
proof (induction fuel arbitrary: st xs)
  case 0
  then show ?case by simp
next
  case (Suc k)
  obtain act w where act: "n_active net (s_env st) = (act, w)" by fastforce
  show ?case
  proof (cases act)
    case False
    with Suc.prems act have "r = Some (st\<lparr>s_env := w\<rparr>)" by simp
    with Suc.prems(1) show ?thesis by auto
  next
    case True
    have "serving fd (st\<lparr>s_env := w\<rparr>) xs" using Suc.prems(1) by simp
    from accept_iteration_ok [OF m this] obtain go st' ys where
      it: "accept_iteration net fd (st\<lparr>s_env := w\<rparr>) = Some (go, st')" "serving fd st' ys" by blast
    show ?thesis
    proof (cases go)
      case True
      with Suc.prems(2) act \<open>act\<close> it(1) have "accept_loop k net fd st' = Some r" by simp
      from Suc.IH [OF it(2) this] show ?thesis .
    next
      case False
      with Suc.prems(2) act \<open>act\<close> it(1) have "r = Some st'" by simp
      with it(2) show ?thesis by blast
    qed
  qed
qed

lemma release_serving:
  assumes "serving fd st []"
  shows "released (release fd st)"
proof -
  have "nodes (s_pool st) = Map.empty" using assms by (simp add: serving_def)
  then show ?thesis using assms by (simp add: released_def release_def serving_def close_s_def)
qed

text \<open>The accept loop neither starts nor joins the timestamp thread.\<close>

lemma lock_list_stamper [simp]: "s_stamper (lock_list net st) = s_stamper st"
  by (simp add: lock_list_def Let_def split: prod.split)

lemma accept_iteration_stamper:
  "accept_iteration net fd st = Some (go, st') \<Longrightarrow> s_stamper st' = s_stamper st"
  by (auto simp: accept_iteration_def client_setup_def unlock_list_def Let_def close_s_def split: prod.splits if_splits
      option.splits bind_splits)

lemma accept_loop_stamper:
  "accept_loop fuel net fd st = Some (Some st') \<Longrightarrow> s_stamper st' = s_stamper st"
proof (induction fuel arbitrary: st)
  case 0
  then show ?case by simp
next
  case (Suc k)
  then show ?case
    by (auto simp: Let_def split: prod.splits if_splits option.splits bool.splits
        dest!: accept_iteration_stamper)
qed

text \<open>The shutdown ends when the clients in the list have all set their flags, and joins them in order.\<close>

lemma shutdown_ok:
  assumes s: "serving fd st xs"
  shows "shutdown use_dev net fd st = Some st' \<Longrightarrow> released st' \<and> (s_stamper st' \<longrightarrow> use_dev \<and> s_stamper st)"
    and "(\<exists>st'. shutdown use_dev net fd st = Some st') \<longleftrightarrow>
       (\<forall>a\<in>set xs. completed (s_pool (lock_list net st)) a)"
    and "shutdown use_dev net fd st = Some st' \<Longrightarrow> acts (s_pool st') =
       acts (s_pool (lock_list net st)) @ map (\<lambda>a. Joins (tid (s_pool st) a)) xs @ [Unlocks]"
proof -
  let ?l = "lock_list net st"
  have l: "serving fd ?l xs" by (rule lock_list_serving [OF s])
  then have t: "linked (s_pool ?l) xs" "dom (nodes (s_pool ?l)) = set xs"
    by (simp_all add: serving_def)
  show "(\<exists>st'. shutdown use_dev net fd st = Some st') \<longleftrightarrow> (\<forall>a\<in>set xs. completed (s_pool ?l) a)"
    using table.drain_iff(1) [OF t] by (auto simp: shutdown_def Let_def bind_eq_Some_conv)
  assume "shutdown use_dev net fd st = Some st'"
  then obtain p where p: "drain (s_pool ?l) = Some p"
    "s_pool st' = log_act Unlocks p" "s_fds st' = remove1 fd (s_fds ?l)" "s_addrinfo st' = s_addrinfo ?l"
    "\<not> s_file_mutex st'" "\<not> s_list_mutex st'" "\<not> s_log st'" "s_stamper st' \<longrightarrow> use_dev \<and> s_stamper st"
    by (auto simp: shutdown_def unlock_list_def close_s_def Let_def bind_eq_Some_conv)
  from table.drain_iff(2) [OF t p(1)] have d: "dom (nodes p) = {}"
    "acts p = acts (s_pool ?l) @ map (\<lambda>a. Joins (tid (s_pool ?l) a)) xs" by simp_all
  show "released st' \<and> (s_stamper st' \<longrightarrow> use_dev \<and> s_stamper st)"
    using p d(1) l by (simp add: released_def serving_def)
  have "linked (s_pool st) xs" using s by (simp add: serving_def)
  from lock_list_acts(2) [OF this, of net] p(2) d(2)
  show "acts (s_pool st') = acts (s_pool ?l) @ map (\<lambda>a. Joins (tid (s_pool st) a)) xs @ [Unlocks]"
    by simp
qed

text \<open>
  Whatever the calls return, a process that returns from \<open>main\<close> or fails to fork has given
  everything back, and no access of \<open>main\<close> is undefined.  Only the return after a failed
  \<open>listen\<close> can leave a timestamp thread behind.  The parent of the daemon exits as it is.
\<close>

lemma serve_releases:
  assumes m: "malloc_fresh net" and sv: "serving fd st []"
    and r: "(let (r, w) = n_listen net fd (s_env st); st = st\<lparr>s_env := w\<rparr>
       in if r = - 1 then Some (Some (Returned (- 1), release fd st))
       else (case accept_loop fuel net fd st of
           None \<Rightarrow> None
         | Some None \<Rightarrow> Some None
         | Some (Some st) \<Rightarrow>
             Some (map_option (\<lambda>st. (Returned 0, st)) (shutdown use_dev net fd st)))) = Some (Some (e, st'))"
  shows "released st' \<and> (e = Returned 0 \<and> (s_stamper st' \<longrightarrow> use_dev \<and> s_stamper st) \<or>
     e = Returned (- 1) \<and> s_stamper st' = s_stamper st)"
proof -
  obtain x w where li: "n_listen net fd (s_env st) = (x, w)" by fastforce
  let ?st = "st\<lparr>s_env := w\<rparr>"
  have sv: "serving fd ?st []" using sv by simp
  show ?thesis
  proof (cases "x = - 1")
    case True
    with r li have "e = Returned (- 1) \<and> st' = release fd ?st" by simp
    with release_serving [OF sv] show ?thesis by (simp add: release_def close_s_def)
  next
    case go: False
    with r li obtain y where y: "accept_loop fuel net fd ?st = Some y"
      by (auto split: option.splits)
    from accept_loop_ok [OF m sv y] obtain st4 ys where st4: "y = Some st4" "serving fd st4 ys" by blast
    with r li go y have sh: "map_option (\<lambda>st. (Returned 0, st)) (shutdown use_dev net fd st4) = Some (e, st')"
      by simp
    moreover have "s_stamper st4 = s_stamper st" using accept_loop_stamper [of fuel net fd ?st st4] y st4(1) by simp
    ultimately show ?thesis using shutdown_ok(1) [OF st4(2)] by auto
  qed
qed

lemma main_releases:
  assumes m: "malloc_fresh net"
    and fresh: "s_fds st = []" "s_addrinfo st = 0" "nodes (s_pool st) = Map.empty" "\<not> s_stamper st"
    and r: "main use_dev fuel net daemon st = Some (Some (e, st'))"
  shows "(e = Exited 0 \<and> daemon \<and> (\<exists>fd. fd \<noteq> - 1 \<and> serving fd st' []) \<and> \<not> s_stamper st') \<or>
     ((e = Returned 0 \<or> e = Returned (- 1) \<or> e = Exited 1) \<and> released st' \<and>
      (s_stamper st' \<longrightarrow> \<not> use_dev \<and> e = Returned (- 1)))"
proof -
  let ?st = "st\<lparr>s_log := True, s_file_mutex := True, s_list_mutex := True,
            s_pool := SLIST_INIT (s_pool st)\<rparr>"
  obtain fd st1 where su: "setup_server net ?st = (fd, st1)" by fastforce
  from setup_server_ok [OF su] fresh have s1: "s_addrinfo st1 = 0" "s_fds st1 = (if fd = - 1 then [] else [fd])"
    "s_pool st1 = SLIST_INIT (s_pool st)" "s_file_mutex st1" "s_list_mutex st1" "s_log st1" "\<not> s_stamper st1"
    by simp_all
  have empty: "nodes (s_pool st1) = Map.empty" "slh_first (s_pool st1) = 0"
    using fresh(3) s1(3) by (simp_all add: SLIST_INIT_def)
  show ?thesis
  proof (cases "fd = - 1")
    case True
    with r su s1 empty show ?thesis by (auto simp: main_def released_def Let_def)
  next
    case False
    have sv: "serving fd st1 []" using s1 empty False by (simp add: serving_def linked_def)
    have rel: "released (release fd (st1\<lparr>s_env := w\<rparr>))" for w by (rule release_serving) (simp add: sv)
    define d where "d = (if daemon then daemonize net fd st1 else Inr st1)"
    have d: "case d of Inl (x, st2) \<Rightarrow> (x = Exited 0 \<and> daemon \<and> serving fd st2 [] \<and> \<not> s_stamper st2) \<or>
          (released st2 \<and> \<not> s_stamper st2 \<and> (x = Exited 1 \<or> x = Returned (- 1)))
        | Inr st2 \<Rightarrow> serving fd st2 [] \<and> \<not> s_stamper st2"
      using rel sv s1(7)
      by (auto simp: d_def daemonize_def Let_def release_def close_s_def split: prod.split)
    show ?thesis
    proof (cases d)
      case (Inl res)
      with r su False have "res = (e, st')" by (simp add: main_def Let_def flip: d_def)
      with d Inl False show ?thesis by auto
    next
      case (Inr st2)
      with d have sv2: "serving fd st2 []" and t2: "\<not> s_stamper st2" by simp_all
      define t where "t = (if use_dev then Inr st2 else start_stamper net fd st2)"
      have t: "case t of Inl (x, st3) \<Rightarrow> released st3 \<and> \<not> s_stamper st3 \<and> x = Returned (- 1)
          | Inr st3 \<Rightarrow> serving fd st3 [] \<and> (s_stamper st3 \<longrightarrow> \<not> use_dev)"
        using release_serving [of fd "st2\<lparr>s_env := w\<rparr>" for w] sv2 t2
        by (auto simp: t_def start_stamper_def Let_def release_def close_s_def split: prod.split)
      show ?thesis
      proof (cases t)
        case Inl': (Inl res)
        with r su False Inr have "res = (e, st')" by (simp add: main_def Let_def flip: d_def t_def)
        with t Inl' show ?thesis by auto
      next
        case Inr': (Inr st3)
        have "(let (r, w) = n_listen net fd (s_env st3); st = st3\<lparr>s_env := w\<rparr>
           in if r = - 1 then Some (Some (Returned (- 1), release fd st))
           else (case accept_loop fuel net fd st of
               None \<Rightarrow> None
             | Some None \<Rightarrow> Some None
             | Some (Some st) \<Rightarrow>
                 Some (map_option (\<lambda>st. (Returned 0, st)) (shutdown use_dev net fd st)))) = Some (Some (e, st'))"
          using r su False Inr Inr' by (simp add: main_def Let_def flip: d_def t_def)
        from serve_releases [OF m _ this] t Inr' show ?thesis by auto
      qed
    qed
  qed
qed

end
