(* ===== verification/Thread_Pool.thy ===== *)
theory Thread_Pool
  imports Prelude
begin

text \<open>
  How the main thread and the client threads of \<^verbatim>\<open>server/aesdsocket.c\<close> interleave around
  \<open>list_mutex\<close>, as a step relation: each rule is what one thread does between two points at
  which others may run.  The invariant gives mutual exclusion and the meaning of the completion
  flags; the liveness facts say when the joins of \<open>main\<close> return, and that the shutdown joins
  can wait for ever.
\<close>

section \<open>The states\<close>

text \<open>
  A client thread: inside the session, at the lock of \<open>list_mutex\<close>, holding it with its flag
  set, after the unlock, and ended.
\<close>

datatype thread_pc = Serving | Want_mark | Marking | Returning | Ended

fun phase :: "thread_pc \<Rightarrow> nat" where
  "phase Serving = 0"
| "phase Want_mark = 1"
| "phase Marking = 2"
| "phase Returning = 3"
| "phase Ended = 4"

lemma phase_inject: "phase a = phase b \<longleftrightarrow> a = b"
  by (cases a; cases b) simp_all

text \<open>The order in which a thread goes through its phases.\<close>

instantiation thread_pc :: linorder
begin

definition less_eq_thread_pc :: "thread_pc \<Rightarrow> thread_pc \<Rightarrow> bool" where
  "less_eq_thread_pc a b \<longleftrightarrow> phase a \<le> phase b"

definition less_thread_pc :: "thread_pc \<Rightarrow> thread_pc \<Rightarrow> bool" where
  "less_thread_pc a b \<longleftrightarrow> phase a < phase b"

instance
  by standard (auto simp: less_eq_thread_pc_def less_thread_pc_def phase_inject)

end

text \<open>
  The main thread: at the loop test, in \<open>accept\<close>, at the lock before the reaping loop, in that
  loop with the nodes still to visit, joining in it, and the same for the shutdown loop.
\<close>

datatype main_pc =
    Loop_head | In_accept | Want_reap | Reaping "nat list" | Joining nat "nat list"
  | Want_drain | Draining | Join_last nat | Closed

datatype owner = Main | Client nat

record tp =
  active :: bool
  mpc :: main_pc
  list_mutex :: "owner option"
  thr :: "nat \<rightharpoonup> thread_pc"
  flag :: "nat \<Rightarrow> bool"
  plist :: "nat list"

definition tp_start :: tp where
  "tp_start = \<lparr>active = True, mpc = Loop_head, list_mutex = None, thr = Map.empty,
     flag = (\<lambda>_. False), plist = []\<rparr>"

section \<open>The steps\<close>

inductive step :: "tp \<Rightarrow> tp \<Rightarrow> bool" where
  signal: "step s (s\<lparr>active := False\<rparr>)"
| enter: "mpc s = Loop_head \<Longrightarrow> active s \<Longrightarrow> step s (s\<lparr>mpc := In_accept\<rparr>)"
| leave: "mpc s = Loop_head \<Longrightarrow> \<not> active s \<Longrightarrow> step s (s\<lparr>mpc := Want_drain\<rparr>)"
| accept_fails: "mpc s = In_accept \<Longrightarrow>
    step s (s\<lparr>mpc := (if active s then Loop_head else Want_drain)\<rparr>)"
| client_dropped: "mpc s = In_accept \<Longrightarrow> step s (s\<lparr>mpc := Loop_head\<rparr>)"
| accepted: "mpc s = In_accept \<Longrightarrow> thr s i = None \<Longrightarrow>
    step s (s\<lparr>mpc := Want_reap, thr := (thr s)(i \<mapsto> Serving), flag := (flag s)(i := False),
      plist := i # plist s\<rparr>)"
| reap_lock: "mpc s = Want_reap \<Longrightarrow> list_mutex s = None \<Longrightarrow>
    step s (s\<lparr>mpc := Reaping (plist s), list_mutex := Some Main\<rparr>)"
| reap_skip: "mpc s = Reaping (i # is) \<Longrightarrow> \<not> flag s i \<Longrightarrow> step s (s\<lparr>mpc := Reaping is\<rparr>)"
| reap_take: "mpc s = Reaping (i # is) \<Longrightarrow> flag s i \<Longrightarrow> step s (s\<lparr>mpc := Joining i is\<rparr>)"
| reap_join: "mpc s = Joining i is \<Longrightarrow> thr s i = Some Ended \<Longrightarrow>
    step s (s\<lparr>mpc := Reaping is, plist := remove1 i (plist s)\<rparr>)"
| reap_unlock: "mpc s = Reaping [] \<Longrightarrow> step s (s\<lparr>mpc := Loop_head, list_mutex := None\<rparr>)"
| drain_lock: "mpc s = Want_drain \<Longrightarrow> list_mutex s = None \<Longrightarrow>
    step s (s\<lparr>mpc := Draining, list_mutex := Some Main\<rparr>)"
| drain_take: "mpc s = Draining \<Longrightarrow> plist s = i # is \<Longrightarrow> step s (s\<lparr>mpc := Join_last i\<rparr>)"
| drain_join: "mpc s = Join_last i \<Longrightarrow> thr s i = Some Ended \<Longrightarrow>
    step s (s\<lparr>mpc := Draining, plist := tl (plist s)\<rparr>)"
| drain_end: "mpc s = Draining \<Longrightarrow> plist s = [] \<Longrightarrow> step s (s\<lparr>mpc := Closed, list_mutex := None\<rparr>)"
| served: "thr s i = Some Serving \<Longrightarrow> step s (s\<lparr>thr := (thr s)(i \<mapsto> Want_mark)\<rparr>)"
| marks: "thr s i = Some Want_mark \<Longrightarrow> list_mutex s = None \<Longrightarrow>
    step s (s\<lparr>thr := (thr s)(i \<mapsto> Marking), flag := (flag s)(i := True), list_mutex := Some (Client i)\<rparr>)"
| unlocks: "thr s i = Some Marking \<Longrightarrow> step s (s\<lparr>thr := (thr s)(i \<mapsto> Returning), list_mutex := None\<rparr>)"
| ends: "thr s i = Some Returning \<Longrightarrow> step s (s\<lparr>thr := (thr s)(i \<mapsto> Ended)\<rparr>)"

inductive steps :: "tp \<Rightarrow> tp \<Rightarrow> bool" where
  none: "steps s s"
| more: "steps s t \<Longrightarrow> step t u \<Longrightarrow> steps s u"

lemma steps_trans: "steps t u \<Longrightarrow> steps s t \<Longrightarrow> steps s u"
  by (induction rule: steps.induct) (auto intro: steps.more)

lemma steps_first: "step s t \<Longrightarrow> steps t u \<Longrightarrow> steps s u"
  by (rule steps_trans [of t u s]) (auto intro: steps.intros)

section \<open>The invariant\<close>

text \<open>Where the main thread holds the list mutex.\<close>

fun main_holds :: "main_pc \<Rightarrow> bool" where
  "main_holds (Reaping _) = True"
| "main_holds (Joining _ _) = True"
| "main_holds Draining = True"
| "main_holds (Join_last _) = True"
| "main_holds _ = False"

text \<open>What the loop the main thread is in has still to visit.\<close>

fun main_ok :: "main_pc \<Rightarrow> (nat \<Rightarrow> bool) \<Rightarrow> nat list \<Rightarrow> bool" where
  "main_ok (Reaping is) fl xs \<longleftrightarrow> distinct is \<and> set is \<subseteq> set xs"
| "main_ok (Joining i is) fl xs \<longleftrightarrow> distinct (i # is) \<and> set (i # is) \<subseteq> set xs \<and> fl i"
| "main_ok (Join_last i) fl xs \<longleftrightarrow> (\<exists>is. xs = i # is)"
| "main_ok _ fl xs \<longleftrightarrow> True"

definition tp_inv :: "tp \<Rightarrow> bool" where
  "tp_inv s \<longleftrightarrow>
     (list_mutex s = Some Main \<longleftrightarrow> main_holds (mpc s)) \<and>
     (\<forall>i. list_mutex s = Some (Client i) \<longleftrightarrow> thr s i = Some Marking) \<and>
     (\<forall>i. flag s i \<longleftrightarrow> (\<exists>c. thr s i = Some c \<and> Marking \<le> c)) \<and>
     distinct (plist s) \<and> set (plist s) \<subseteq> dom (thr s) \<and>
     main_ok (mpc s) (flag s) (plist s)"

lemma pc_order [simp]:
  "Marking \<le> Serving \<longleftrightarrow> False" "Marking \<le> Want_mark \<longleftrightarrow> False" "Marking \<le> Marking"
  "Marking \<le> Returning" "Marking \<le> Ended"
  by (simp_all add: less_eq_thread_pc_def)

lemma tp_inv_start: "tp_inv tp_start"
  by (simp add: tp_inv_def tp_start_def)

lemma main_ok_flag: "main_ok c fl xs \<Longrightarrow> (\<forall>i. fl i \<longrightarrow> fl' i) \<Longrightarrow> main_ok c fl' xs"
  by (cases c) auto

lemma main_ok_free: "\<not> main_holds c \<Longrightarrow> main_ok c fl xs"
  by (cases c) auto

lemma tp_inv_step: "step s t \<Longrightarrow> tp_inv s \<Longrightarrow> tp_inv t"
proof (induction rule: step.induct)
  case (accepted s i)
  then show ?case by (auto simp: tp_inv_def)
next
  case (reap_join s i "is")
  then show ?case by (auto simp: tp_inv_def)
next
  case (drain_join s i)
  then show ?case by (auto simp: tp_inv_def)
next
  case (marks s i)
  then have "\<not> main_holds (mpc s)" by (auto simp: tp_inv_def)
  with marks show ?case by (auto simp: tp_inv_def main_ok_free)
next
  case (unlocks s i)
  then have "list_mutex s = Some (Client i)" by (auto simp: tp_inv_def)
  with unlocks show ?case by (auto simp: tp_inv_def)
next
  case (served s i)
  then show ?case by (auto simp: tp_inv_def)
next
  case (ends s i)
  then show ?case by (auto simp: tp_inv_def)
qed (auto simp: tp_inv_def)

lemma tp_inv_steps: "steps s t \<Longrightarrow> tp_inv s \<Longrightarrow> tp_inv t"
  by (induction rule: steps.induct) (auto intro: tp_inv_step)

section \<open>Threads only move forward\<close>

lemma step_forward: "step s t \<Longrightarrow> tp_inv s \<Longrightarrow> thr s i = Some c \<Longrightarrow> \<exists>d. thr t i = Some d \<and> c \<le> d"
  by (induction rule: step.induct) (auto simp: less_eq_thread_pc_def)

lemma steps_forward: "steps s t \<Longrightarrow> tp_inv s \<Longrightarrow> thr s i = Some c \<Longrightarrow> \<exists>d. thr t i = Some d \<and> c \<le> d"
proof (induction rule: steps.induct)
  case (none s)
  then show ?case by simp
next
  case (more s t u)
  then obtain d where d: "thr t i = Some d" "c \<le> d" by blast
  from step_forward [OF more.hyps(2) tp_inv_steps [OF more.hyps(1) more.prems(1)] d(1)] d(2)
  show ?case by (meson order_trans)
qed

section \<open>When the joins return\<close>

text \<open>The join of the accept loop waits for a thread that needs nothing any more.\<close>

lemma reap_join_ready:
  assumes "tp_inv s" "mpc s = Joining i is"
  shows "thr s i = Some Returning \<or> thr s i = Some Ended"
proof -
  have "flag s i" using assms by (auto simp: tp_inv_def)
  then obtain c where c: "thr s i = Some c" "Marking \<le> c" using assms(1) by (auto simp: tp_inv_def)
  have "list_mutex s = Some Main" using assms by (auto simp: tp_inv_def)
  then have "c \<noteq> Marking" using assms(1) c(1) by (auto simp: tp_inv_def)
  with c show ?thesis by (cases c) auto
qed

lemma reap_join_progress:
  assumes "tp_inv s" "mpc s = Joining i is"
  shows "\<exists>t. steps s t \<and> mpc t = Reaping is \<and> i \<notin> set (plist t)"
proof -
  have d: "distinct (plist s)" using assms(1) by (simp add: tp_inv_def)
  from reap_join_ready [OF assms] show ?thesis
  proof
    assume "thr s i = Some Ended"
    with reap_join [OF assms(2)] d show ?thesis
      by (intro exI [of _ "s\<lparr>mpc := Reaping is, plist := remove1 i (plist s)\<rparr>"])
        (auto intro: steps.intros)
  next
    assume r: "thr s i = Some Returning"
    let ?s = "s\<lparr>thr := (thr s)(i \<mapsto> Ended)\<rparr>"
    let ?t = "?s\<lparr>mpc := Reaping is, plist := remove1 i (plist ?s)\<rparr>"
    have "step ?s ?t" using assms(2) by (intro reap_join [of _ i]) simp_all
    with ends [OF r] have "steps s ?t" by (blast intro: steps.intros)
    with d show ?thesis by (intro exI [of _ ?t]) simp
  qed
qed

section \<open>The shutdown\<close>

text \<open>
  A client in the list that has not set its flag when the shutdown loop runs: it never can, and
  the loop never gets past it.
\<close>

definition hung :: "nat \<Rightarrow> tp \<Rightarrow> bool" where
  "hung i s \<longleftrightarrow> (mpc s = Draining \<or> (\<exists>j. mpc s = Join_last j)) \<and> i \<in> set (plist s) \<and> \<not> flag s i"

lemma hung_step: "step s t \<Longrightarrow> tp_inv s \<Longrightarrow> hung i s \<Longrightarrow> hung i t"
proof (induction rule: step.induct)
  case (drain_join s j)
  then have "flag s j" "\<exists>is. plist s = j # is" by (auto simp: tp_inv_def)
  with drain_join show ?case by (auto simp: hung_def)
next
  case (marks s j)
  then have "main_holds (mpc s)" by (auto simp: hung_def)
  with marks show ?case by (auto simp: tp_inv_def)
qed (auto simp: hung_def)

lemma hung_steps: "steps s t \<Longrightarrow> tp_inv s \<Longrightarrow> hung i s \<Longrightarrow> hung i t"
proof (induction rule: steps.induct)
  case (none s)
  then show ?case by simp
next
  case (more s t u)
  then show ?case using hung_step tp_inv_steps by blast
qed

lemma draining_closes:
  "tp_inv s \<Longrightarrow> mpc s = Draining \<Longrightarrow> \<forall>i\<in>set (plist s). flag s i \<Longrightarrow> \<exists>t. steps s t \<and> mpc t = Closed"
proof (induction "plist s" arbitrary: s)
  case Nil
  then have "plist s = []" by simp
  with Nil have "step s (s\<lparr>mpc := Closed, list_mutex := None\<rparr>)" by (intro drain_end) simp_all
  then have "steps s (s\<lparr>mpc := Closed, list_mutex := None\<rparr>)" by (blast intro: steps.intros)
  then show ?case by (intro exI [of _ "s\<lparr>mpc := Closed, list_mutex := None\<rparr>"]) simp
next
  case (Cons i "is")
  have pl: "plist s = i # is" using Cons.hyps(2) by simp
  have "flag s i" using Cons.prems(3) pl by simp
  then obtain c where c: "thr s i = Some c" "Marking \<le> c" using Cons.prems(1) by (auto simp: tp_inv_def)
  have "list_mutex s = Some Main" using Cons.prems(1,2) by (auto simp: tp_inv_def)
  then have "c \<noteq> Marking" using Cons.prems(1) c(1) by (auto simp: tp_inv_def)
  with c have c: "thr s i = Some Returning \<or> thr s i = Some Ended" by (cases c) auto
  let ?t = "s\<lparr>thr := (thr s)(i \<mapsto> Ended)\<rparr>"
  have t: "steps s ?t"
  proof (cases "thr s i = Some Ended")
    case True
    then have "(thr s)(i \<mapsto> Ended) = thr s" by auto
    then have "?t = s" by simp
    then show ?thesis by (simp add: steps.none)
  next
    case False
    with c have "thr s i = Some Returning" by simp
    from ends [OF this] show ?thesis by (blast intro: steps.intros)
  qed
  let ?u = "?t\<lparr>mpc := Join_last i\<rparr>"
  let ?v = "?u\<lparr>mpc := Draining, plist := tl (plist ?u)\<rparr>"
  have "step ?t ?u" using Cons.prems(2) pl by (intro drain_take) simp_all
  moreover have "step ?u ?v" by (intro drain_join [of ?u i]) simp_all
  ultimately have v: "steps s ?v" using t by (blast intro: steps.intros)
  have "is = plist ?v" "mpc ?v = Draining" "\<forall>j\<in>set (plist ?v). flag ?v j"
    using pl Cons.prems(3) by simp_all
  from Cons.hyps(1) [OF this(1) tp_inv_steps [OF v Cons.prems(1)] this(2,3)] v show ?case
    by (blast intro: steps_trans)
qed

lemma draining_closes_iff:
  assumes "tp_inv s" "mpc s = Draining"
  shows "(\<exists>t. steps s t \<and> mpc t = Closed) \<longleftrightarrow> (\<forall>i\<in>set (plist s). flag s i)"
proof
  assume "\<exists>t. steps s t \<and> mpc t = Closed"
  then obtain t where t: "steps s t" "mpc t = Closed" by blast
  show "\<forall>i\<in>set (plist s). flag s i"
  proof (rule ballI, rule ccontr)
    fix i assume "i \<in> set (plist s)" "\<not> flag s i"
    then have "hung i s" using assms(2) by (simp add: hung_def)
    from hung_steps [OF t(1) assms(1) this] t(2) show False by (auto simp: hung_def)
  qed
qed (rule draining_closes [OF assms])

text \<open>A run into such a shutdown: one client is being served when the signal arrives.\<close>

definition draining_state :: tp where
  "draining_state = tp_start\<lparr>active := False, mpc := Draining, list_mutex := Some Main,
     thr := [1 \<mapsto> Serving], plist := [1]\<rparr>"

definition hung_state :: tp where
  "hung_state = draining_state\<lparr>mpc := Join_last 1\<rparr>"

definition one_client :: tp where
  "one_client = tp_start\<lparr>mpc := Want_reap, thr := [1 \<mapsto> Serving], plist := [1]\<rparr>"

lemma one_client_reached: "steps tp_start one_client"
proof -
  let ?s1 = "tp_start\<lparr>mpc := In_accept\<rparr>"
  let ?s2 = "?s1\<lparr>mpc := Want_reap, thr := (thr ?s1)(1 \<mapsto> Serving), flag := (flag ?s1)(1 := False),
      plist := 1 # plist ?s1\<rparr>"
  have 1: "step tp_start ?s1" by (intro enter) (simp_all add: tp_start_def)
  have 2: "step ?s1 ?s2" by (intro accepted) (simp_all add: tp_start_def)
  have "steps tp_start ?s2" by (rule steps.more [OF _ 2], rule steps.more [OF _ 1], rule steps.none)
  moreover have "?s2 = one_client" by (simp add: one_client_def tp_start_def fun_eq_iff)
  ultimately show ?thesis by simp
qed

lemma draining_state_reached: "steps tp_start draining_state"
proof -
  let ?s3 = "one_client\<lparr>mpc := Reaping (plist one_client), list_mutex := Some Main\<rparr>"
  let ?s4 = "?s3\<lparr>mpc := Reaping []\<rparr>"
  let ?s5 = "?s4\<lparr>mpc := Loop_head, list_mutex := None\<rparr>"
  let ?s6 = "?s5\<lparr>active := False\<rparr>"
  let ?s7 = "?s6\<lparr>mpc := Want_drain\<rparr>"
  let ?s8 = "?s7\<lparr>mpc := Draining, list_mutex := Some Main\<rparr>"
  note def = one_client_def tp_start_def
  have 3: "step one_client ?s3" by (intro reap_lock) (simp_all add: def)
  have 4: "step ?s3 ?s4" by (intro reap_skip [of _ 1]) (simp_all add: def)
  have 5: "step ?s4 ?s5" by (intro reap_unlock) simp
  have 6: "step ?s5 ?s6" by (rule signal)
  have 7: "step ?s6 ?s7" by (intro leave) simp_all
  have 8: "step ?s7 ?s8" by (intro drain_lock) simp_all
  have "steps tp_start ?s8"
    by (rule steps.more [OF _ 8], rule steps.more [OF _ 7], rule steps.more [OF _ 6],
        rule steps.more [OF _ 5], rule steps.more [OF _ 4], rule steps.more [OF _ 3], rule one_client_reached)
  moreover have "?s8 = draining_state" by (simp add: draining_state_def def)
  ultimately show ?thesis by simp
qed

lemma hung_state_reached: "steps tp_start hung_state"
proof (rule steps.more [OF draining_state_reached])
  show "step draining_state hung_state"
    unfolding hung_state_def by (intro drain_take) (simp_all add: draining_state_def tp_start_def)
qed

text \<open>A run into a join of the accept loop.\<close>

definition joining_state :: tp where
  "joining_state = tp_start\<lparr>mpc := Joining 1 [], list_mutex := Some Main, thr := [1 \<mapsto> Returning],
     flag := (\<lambda>i. i = 1), plist := [1]\<rparr>"

lemma joining_state_reached: "steps tp_start joining_state"
proof -
  let ?s3 = "one_client\<lparr>thr := (thr one_client)(1 \<mapsto> Want_mark)\<rparr>"
  let ?s4 = "?s3\<lparr>thr := (thr ?s3)(1 \<mapsto> Marking), flag := (flag ?s3)(1 := True), list_mutex := Some (Client 1)\<rparr>"
  let ?s5 = "?s4\<lparr>thr := (thr ?s4)(1 \<mapsto> Returning), list_mutex := None\<rparr>"
  let ?s6 = "?s5\<lparr>mpc := Reaping (plist ?s5), list_mutex := Some Main\<rparr>"
  let ?s7 = "?s6\<lparr>mpc := Joining 1 []\<rparr>"
  note def = one_client_def tp_start_def
  have 3: "step one_client ?s3" by (intro served) (simp_all add: def)
  have 4: "step ?s3 ?s4" by (intro marks) (simp_all add: def)
  have 5: "step ?s4 ?s5" by (intro unlocks) simp_all
  have 6: "step ?s5 ?s6" by (intro reap_lock) (simp_all add: def)
  have 7: "step ?s6 ?s7" by (intro reap_take) (simp_all add: def)
  have "steps tp_start ?s7"
    by (rule steps.more [OF _ 7], rule steps.more [OF _ 6], rule steps.more [OF _ 5],
        rule steps.more [OF _ 4], rule steps.more [OF _ 3], rule one_client_reached)
  moreover have "?s7 = joining_state" by (simp add: joining_state_def def fun_eq_iff)
  ultimately show ?thesis by simp
qed

lemma hung_state_hung: "hung 1 hung_state"
  by (simp add: hung_def hung_state_def draining_state_def tp_start_def)

end
