(* ===== verification/Thread_Trace.thy ===== *)
theory Thread_Trace
  imports Thread_Pool Server_Actions
begin

text \<open>
  The actions of the main thread in a run of the interleavings of \<^verbatim>\<open>Thread_Pool\<close>: each step of
  the main thread that creates a client, takes or gives back \<open>list_mutex\<close>, or returns from a join has a label, the
  others and those of the client threads have none.
\<close>

section \<open>Labels\<close>

definition main_acts :: "tp \<Rightarrow> tp \<Rightarrow> nat act list" where
  "main_acts s t =
     (case (mpc s, mpc t) of
        (In_accept, Want_reap) \<Rightarrow> [Starts (hd (plist t))]
      | (Want_reap, Reaping _) \<Rightarrow> [Locks (filter (flag s) (plist s))]
      | (Joining i _, Reaping _) \<Rightarrow> [Joins i]
      | (Reaping _, Loop_head) \<Rightarrow> [Unlocks]
      | (Want_drain, Draining) \<Rightarrow> [Locks (filter (flag s) (plist s))]
      | (Join_last i, Draining) \<Rightarrow> [Joins i]
      | (Draining, Closed) \<Rightarrow> [Unlocks]
      | _ \<Rightarrow> [])"

text \<open>\<open>trace s as t\<close>: a run from \<open>s\<close> to \<open>t\<close> in which the main thread does \<open>as\<close>.\<close>

inductive trace :: "tp \<Rightarrow> nat act list \<Rightarrow> tp \<Rightarrow> bool" where
  trace_none: "trace s [] s"
| trace_more: "trace s as t \<Longrightarrow> step t u \<Longrightarrow> trace s (as @ main_acts t u) u"

lemma trace_steps: "trace s as t \<Longrightarrow> steps s t"
  by (induction rule: trace.induct) (auto intro: steps.intros)

lemma steps_trace: "steps s t \<Longrightarrow> \<exists>as. trace s as t"
  by (induction rule: steps.induct) (auto intro: trace.intros)

lemma trace_append: "trace t bs u \<Longrightarrow> trace s as t \<Longrightarrow> trace s (as @ bs) u"
proof (induction rule: trace.induct)
  case (trace_none t)
  then show ?case by simp
next
  case (trace_more t bs u v)
  from trace.trace_more [OF trace_more.IH [OF trace_more.prems] trace_more.hyps(2)] show ?case by simp
qed

lemma trace_step: "step s t \<Longrightarrow> main_acts s t = as \<Longrightarrow> trace s as t"
  using trace_more [OF trace_none] by fastforce

lemma main_acts_same: "mpc t = mpc s \<Longrightarrow> main_acts s t = []"
  by (simp add: main_acts_def split: main_pc.split)

text \<open>Steps that leave the main thread where it is are silent.\<close>

lemma trace_quiet: "step s t \<Longrightarrow> mpc t = mpc s \<Longrightarrow> trace s [] t"
  by (rule trace_step [OF _ main_acts_same])

lemma trace_quiet_first: "trace t as u \<Longrightarrow> step s t \<Longrightarrow> mpc t = mpc s \<Longrightarrow> trace s as u"
  using trace_append [OF _ trace_quiet, of t as u s] by simp

section \<open>The threads a trace is about\<close>

lemma step_dom: "step s t \<Longrightarrow> dom (thr s) \<subseteq> dom (thr t)"
  by (induction rule: step.induct) auto

lemma trace_dom: "trace s as t \<Longrightarrow> dom (thr s) \<subseteq> dom (thr t)"
proof (induction rule: trace.induct)
  case (trace_none s)
  then show ?case by simp
next
  case (trace_more s as t u)
  from step_dom [OF trace_more.hyps(2)] trace_more.IH show ?case by (rule subset_trans [rotated])
qed

lemma step_acts:
  assumes "step s t" "tp_inv s"
  shows "\<Union>(set_act ` set (main_acts s t)) \<subseteq> dom (thr t)"
proof -
  have "set (plist s) \<subseteq> dom (thr s)" "main_ok (mpc s) (flag s) (plist s)"
    using assms(2) by (simp_all add: tp_inv_def)
  with assms(1) show ?thesis
    by (induction rule: step.induct) (auto simp: main_acts_def split: main_pc.splits)
qed

text \<open>A trace only speaks of threads that have been started.\<close>

lemma trace_threads: "trace s as t \<Longrightarrow> tp_inv s \<Longrightarrow> \<Union>(set_act ` set as) \<subseteq> dom (thr t)"
proof (induction rule: trace.induct)
  case (trace_none s)
  then show ?case by simp
next
  case (trace_more s as t u)
  have "tp_inv t" by (rule tp_inv_steps [OF trace_steps [OF trace_more.hyps(1)] trace_more.prems])
  from step_acts [OF trace_more.hyps(2) this] step_dom [OF trace_more.hyps(2)] trace_more show ?case by auto
qed

end
