(* ===== verification/Pool_Refinement.thy ===== *)
theory Pool_Refinement
  imports Server_Main Thread_Trace
begin

text \<open>
  The main thread of \<open>Server_Main\<close>, which sees the other threads only through the flags they have set
  when it takes \<open>list_mutex\<close>, is a run of the interleavings of \<open>Thread_Pool\<close> in which the main thread
  does the same, action by action.  So what \<open>pthread_join\<close> does in \<open>Slist\<close> (it returns exactly for a
  client whose flag is set) is what the steps of the threads allow.  Nodes may be reused after they were
  freed, and so may the identifiers of threads that were joined; the threads of \<open>Thread_Pool\<close> are
  numbered, \<open>f\<close> gives the number of the thread of a node and \<open>ident\<close> the identifier of a thread.
\<close>

section \<open>Runs of one thread\<close>

lemma thread_finishes:
  assumes "thr s i = Some Serving" "list_mutex s = None"
  shows "trace s [] (s\<lparr>thr := (thr s)(i \<mapsto> Ended), flag := (flag s)(i := True)\<rparr>)"
proof -
  let ?s1 = "s\<lparr>thr := (thr s)(i \<mapsto> Want_mark)\<rparr>"
  let ?s2 = "?s1\<lparr>thr := (thr ?s1)(i \<mapsto> Marking), flag := (flag ?s1)(i := True), list_mutex := Some (Client i)\<rparr>"
  let ?s3 = "?s2\<lparr>thr := (thr ?s2)(i \<mapsto> Returning), list_mutex := None\<rparr>"
  let ?s4 = "?s3\<lparr>thr := (thr ?s3)(i \<mapsto> Ended)\<rparr>"
  have 1: "step s ?s1" by (rule served [OF assms(1)])
  have 2: "step ?s1 ?s2" by (rule marks) (simp_all add: assms)
  have 3: "step ?s2 ?s3" by (rule unlocks) simp
  have 4: "step ?s3 ?s4" by (rule ends) simp
  have "trace s [] ?s4"
    by (rule trace_quiet_first [OF _ 1], rule trace_quiet_first [OF _ 2], rule trace_quiet_first [OF _ 3],
        rule trace_quiet [OF 4]) simp_all
  moreover have "?s4 = s\<lparr>thr := (thr s)(i \<mapsto> Ended), flag := (flag s)(i := True)\<rparr>"
    using assms by (simp add: assms(2) [symmetric])
  ultimately show ?thesis by simp
qed

definition finished :: "nat set \<Rightarrow> tp \<Rightarrow> tp" where
  "finished A s = s\<lparr>thr := (\<lambda>i. if i \<in> A then Some Ended else thr s i), flag := (\<lambda>i. i \<in> A \<or> flag s i)\<rparr>"

lemma finished_simps [simp]:
  "active (finished A s) = active s" "mpc (finished A s) = mpc s"
  "list_mutex (finished A s) = list_mutex s" "plist (finished A s) = plist s"
  "thr (finished A s) i = (if i \<in> A then Some Ended else thr s i)"
  "flag (finished A s) i \<longleftrightarrow> i \<in> A \<or> flag s i"
  by (simp_all add: finished_def)

lemma threads_finish:
  assumes "finite A" "list_mutex s = None" "\<forall>i\<in>A. thr s i = Some Serving"
  shows "trace s [] (finished A s)"
  using assms(1,3)
proof (induction A)
  case empty
  then show ?case by (simp add: finished_def trace_none)
next
  case (insert i A)
  let ?t = "finished A s"
  have "thr ?t i = Some Serving" "list_mutex ?t = None" using insert.hyps insert.prems assms(2) by auto
  from thread_finishes [OF this] have "trace ?t [] (finished (insert i A) s)"
    by (rule back_subst [of "trace ?t []"]) (auto simp: finished_def fun_eq_iff)
  from trace_append [OF this insert.IH] insert.prems show ?case by simp
qed

section \<open>The reaping loop\<close>

lemma reap_runs:
  "mpc s = Reaping is \<Longrightarrow> \<forall>i\<in>set is. flag s i \<longrightarrow> thr s i = Some Ended \<Longrightarrow>
     trace s (map Joins (filter (flag s) is))
       (s\<lparr>mpc := Reaping [], plist := foldl (\<lambda>xs i. if flag s i then remove1 i xs else xs) (plist s) is\<rparr>)"
proof (induction "is" arbitrary: s)
  case Nil
  then have "s\<lparr>mpc := Reaping [], plist := plist s\<rparr> = s" by simp
  then show ?case by (simp add: trace_none)
next
  case (Cons i "is")
  show ?case
  proof (cases "flag s i")
    case False
    let ?t = "s\<lparr>mpc := Reaping is\<rparr>"
    have "main_acts s ?t = []" using Cons.prems(1) by (simp add: main_acts_def)
    with reap_skip [OF Cons.prems(1) False] have 1: "trace s [] ?t" by (rule trace_step)
    have "mpc ?t = Reaping is" "\<forall>i\<in>set is. flag ?t i \<longrightarrow> thr ?t i = Some Ended"
      using Cons.prems(2) by simp_all
    from trace_append [OF Cons.IH [OF this] 1] False show ?thesis by simp
  next
    case True
    let ?t = "s\<lparr>mpc := Joining i is\<rparr>"
    let ?u = "?t\<lparr>mpc := Reaping is, plist := remove1 i (plist ?t)\<rparr>"
    have "main_acts s ?t = []" using Cons.prems(1) by (simp add: main_acts_def)
    with reap_take [OF Cons.prems(1) True] have 1: "trace s [] ?t" by (rule trace_step)
    have "step ?t ?u" using True Cons.prems(2) by (intro reap_join) simp_all
    then have 2: "trace ?t [Joins i] ?u" by (rule trace_step) (simp add: main_acts_def)
    have "mpc ?u = Reaping is" "\<forall>i\<in>set is. flag ?u i \<longrightarrow> thr ?u i = Some Ended"
      using Cons.prems(2) by simp_all
    from trace_append [OF trace_append [OF Cons.IH [OF this] 2] 1] True show ?thesis by simp
  qed
qed

lemma remove1_each:
  "distinct xs \<Longrightarrow> foldl (\<lambda>xs i. if P i then remove1 i xs else xs) xs is =
     filter (\<lambda>i. \<not> (P i \<and> i \<in> set is)) xs"
proof (induction "is" arbitrary: xs)
  case Nil
  then show ?case by simp
next
  case (Cons i "is")
  have "filter (\<lambda>j. \<not> (P j \<and> j \<in> set is)) (filter (\<lambda>j. i \<noteq> j) xs) = filter (\<lambda>j. \<not> (P j \<and> j \<in> set (i # is))) xs"
    if "P i" using that by (auto intro: filter_cong)
  moreover have "filter (\<lambda>j. \<not> (P j \<and> j \<in> set is)) xs = filter (\<lambda>j. \<not> (P j \<and> j \<in> set (i # is))) xs"
    if "\<not> P i" using that by (auto intro: filter_cong)
  ultimately show ?case using Cons by (simp add: distinct_remove1_removeAll removeAll_filter_not_eq)
qed

text \<open>From the lock to the unlock: exactly the clients whose flag is set are joined and leave the list.\<close>

lemma reaping_runs:
  assumes "mpc s = Want_reap" "list_mutex s = None" "distinct (plist s)"
    "\<forall>i\<in>set (plist s). flag s i \<longrightarrow> thr s i = Some Ended"
  shows "trace s (Locks (filter (flag s) (plist s)) # map Joins (filter (flag s) (plist s)) @ [Unlocks])
     (s\<lparr>mpc := Loop_head, plist := filter (\<lambda>i. \<not> flag s i) (plist s)\<rparr>)"
proof -
  let ?t = "s\<lparr>mpc := Reaping (plist s), list_mutex := Some Main\<rparr>"
  let ?u = "?t\<lparr>mpc := Reaping [], plist := filter (\<lambda>i. \<not> flag s i) (plist s)\<rparr>"
  have 1: "trace s [Locks (filter (flag s) (plist s))] ?t"
    by (rule trace_step [OF reap_lock [OF assms(1,2)]]) (simp add: main_acts_def assms(1))
  have "foldl (\<lambda>xs i. if flag ?t i then remove1 i xs else xs) (plist ?t) (plist s) = filter (\<lambda>i. \<not> flag s i) (plist s)"
    using remove1_each [OF assms(3), of "flag s" "plist s"] by (auto intro: filter_cong)
  then have 2: "trace ?t (map Joins (filter (flag s) (plist s))) ?u"
    using reap_runs [of ?t "plist s"] assms(4) by simp
  have 3: "trace ?u [Unlocks] (?u\<lparr>mpc := Loop_head, list_mutex := None\<rparr>)"
    by (rule trace_step [OF reap_unlock]) (simp_all add: main_acts_def)
  have "?u\<lparr>mpc := Loop_head, list_mutex := None\<rparr> = s\<lparr>mpc := Loop_head, plist := filter (\<lambda>i. \<not> flag s i) (plist s)\<rparr>"
    using assms(2) by simp
  then show ?thesis using trace_append [OF trace_append [OF 3 2] 1] by simp
qed

text \<open>The shutdown loop joins the whole list, when everyone in it has ended.\<close>

lemma draining_runs:
  "mpc s = Draining \<Longrightarrow> \<forall>i\<in>set (plist s). thr s i = Some Ended \<Longrightarrow>
     \<exists>t. trace s (map Joins (plist s) @ [Unlocks]) t \<and> mpc t = Closed"
proof (induction "plist s" arbitrary: s)
  case Nil
  let ?t = "s\<lparr>mpc := Closed, list_mutex := None\<rparr>"
  have "step s ?t" using Nil by (intro drain_end) simp_all
  then have "trace s [Unlocks] ?t" by (rule trace_step) (simp add: main_acts_def Nil.prems(1))
  with Nil.hyps show ?case by (intro exI [of _ ?t]) simp
next
  case (Cons i "is")
  let ?t = "s\<lparr>mpc := Join_last i\<rparr>"
  let ?u = "?t\<lparr>mpc := Draining, plist := tl (plist ?t)\<rparr>"
  have "step s ?t" using Cons.hyps(2) by (intro drain_take [OF Cons.prems(1), of i "is"]) simp
  then have 1: "trace s [] ?t" by (rule trace_step) (simp add: main_acts_def Cons.prems(1))
  have "thr s i = Some Ended" using Cons.prems(2) Cons.hyps(2) [symmetric] by simp
  then have "step ?t ?u" by (intro drain_join [of ?t i]) simp_all
  then have 2: "trace ?t [Joins i] ?u" by (rule trace_step) (simp add: main_acts_def)
  have "is = plist ?u" "mpc ?u = Draining" "\<forall>i\<in>set (plist ?u). thr ?u i = Some Ended"
    using Cons.hyps(2) [symmetric] Cons.prems(2) by simp_all
  from Cons.hyps(1) [OF this] obtain v where v: "trace ?u (map Joins (plist ?u) @ [Unlocks]) v" "mpc v = Closed"
    by blast
  from trace_append [OF trace_append [OF v(1) 2] 1] v(2) show ?case
    using Cons.hyps(2) [symmetric] by (intro exI [of _ v]) simp
qed

section \<open>The states that correspond\<close>

text \<open>
  Between two holds of the mutex: the threads of the listed nodes are those of the list, a thread whose
  flag the main thread has seen is over and every other is still serving.
\<close>

definition pool_rel :: "pool \<Rightarrow> nat list \<Rightarrow> (nat \<Rightarrow> nat) \<Rightarrow> tp \<Rightarrow> bool" where
  "pool_rel p xs f s \<longleftrightarrow>
     plist s = map f xs \<and> inj_on f (set xs) \<and> list_mutex s = None \<and> finite (dom (thr s)) \<and>
     (\<forall>a\<in>set xs. thr s (f a) = Some (if completed p a then Ended else Serving)) \<and>
     (\<forall>a\<in>set xs. flag s (f a) \<longleftrightarrow> completed p a)"

lemma pool_rel_upd [simp]:
  "pool_rel p xs f (s\<lparr>mpc := c\<rparr>) = pool_rel p xs f s"
  "pool_rel p xs f (s\<lparr>active := b\<rparr>) = pool_rel p xs f s"
  by (simp_all add: pool_rel_def)

text \<open>The nodes say which threads they belong to.\<close>

definition named :: "pool \<Rightarrow> nat list \<Rightarrow> (nat \<Rightarrow> nat) \<Rightarrow> (nat \<Rightarrow> nat) \<Rightarrow> bool" where
  "named p xs f ident \<longleftrightarrow> (\<forall>a\<in>set xs. tid p a = ident (f a))"

text \<open>The clients whose flags the main thread is going to see finish first.\<close>

lemma pool_rel_finish:
  assumes r: "pool_rel p xs f s" and up: "\<forall>a\<in>set xs. completed p a \<longrightarrow> over a"
    and same: "\<forall>a\<in>set xs. completed q a \<longleftrightarrow> over a"
  shows "\<exists>t. trace s [] t \<and> mpc t = mpc s \<and> active t = active s \<and> pool_rel q xs f t"
proof -
  let ?A = "f ` {a \<in> set xs. over a \<and> \<not> completed p a}"
  let ?t = "finished ?A s"
  have inj: "f a \<in> ?A \<longleftrightarrow> over a \<and> \<not> completed p a" if "a \<in> set xs" for a
    using r that by (auto simp: pool_rel_def inj_on_def)
  have "trace s [] ?t"
    using r by (intro threads_finish) (auto simp: pool_rel_def)
  moreover have "dom (thr ?t) \<subseteq> dom (thr s) \<union> ?A" by (auto split: if_splits)
  then have "finite (dom (thr ?t))" using r by (auto simp: pool_rel_def intro: finite_subset)
  then have "pool_rel q xs f ?t"
    using r up same inj by (auto simp: pool_rel_def)
  ultimately show ?thesis by (intro exI [of _ ?t]) simp
qed

text \<open>The clients whose flag is set are joined and leave the list.\<close>

lemma pool_rel_reap:
  assumes r: "pool_rel p xs f s" and d: "distinct xs" and c: "mpc s = Want_reap"
    and q: "\<forall>a\<in>set xs. \<not> completed p a \<longrightarrow> \<not> completed q a"
  shows "\<exists>t. trace s (Locks (map f (filter (completed p) xs)) # map Joins (map f (filter (completed p) xs)) @
         [Unlocks]) t \<and> mpc t = Loop_head \<and> active t = active s \<and>
     pool_rel q (filter (\<lambda>a. \<not> completed p a) xs) f t"
proof -
  let ?t = "s\<lparr>mpc := Loop_head, plist := filter (\<lambda>i. \<not> flag s i) (plist s)\<rparr>"
  have "distinct (plist s)" "\<forall>i\<in>set (plist s). flag s i \<longrightarrow> thr s i = Some Ended"
    using r d by (auto simp: pool_rel_def distinct_map)
  then have "trace s (Locks (filter (flag s) (plist s)) # map Joins (filter (flag s) (plist s)) @ [Unlocks]) ?t"
    using r by (intro reaping_runs [OF c]) (simp_all add: pool_rel_def)
  moreover have "filter (flag s) (plist s) = map f (filter (completed p) xs)"
    using r by (auto simp: pool_rel_def filter_map intro!: arg_cong [of _ _ "map f"] filter_cong)
  moreover have "filter (\<lambda>i. \<not> flag s i) (plist s) = map f (filter (\<lambda>a. \<not> completed p a) xs)"
    using r by (auto simp: pool_rel_def filter_map intro!: arg_cong [of _ _ "map f"] filter_cong)
  moreover have "inj_on f (set (filter (\<lambda>a. \<not> completed p a) xs))"
    using r by (auto simp: pool_rel_def inj_on_def)
  ultimately show ?thesis using r q by (intro exI [of _ ?t]) (simp add: pool_rel_def)
qed

section \<open>An iteration of the accept loop\<close>

lemma pool_rel_start:
  assumes r: "pool_rel p xs f s" and a: "a \<notin> set xs" and c: "mpc s = In_accept"
  shows "\<exists>i t. i \<notin> dom (thr s) \<and> trace s [Starts i] t \<and> mpc t = Want_reap \<and> active t = active s \<and>
     (\<forall>q. (\<forall>x\<in>set (a # xs). completed q x \<longleftrightarrow> x \<noteq> a \<and> completed p x) \<longrightarrow> pool_rel q (a # xs) (f(a := i)) t)"
proof -
  obtain i where i: "i \<notin> dom (thr s)"
    using r by (meson ex_new_if_finite infinite_UNIV_nat pool_rel_def)
  have new: "f x \<noteq> i" if "x \<in> set xs" for x using r that i by (auto simp: pool_rel_def)
  let ?t = "s\<lparr>mpc := Want_reap, thr := (thr s)(i \<mapsto> Serving), flag := (flag s)(i := False), plist := i # plist s\<rparr>"
  have "step s ?t" using i by (intro accepted [OF c]) blast
  then have "trace s [Starts i] ?t" by (rule trace_step) (simp add: main_acts_def c)
  moreover have "map (f(a := i)) (a # xs) = i # map f xs" using a by simp
  moreover have "inj_on (f(a := i)) (set (a # xs))"
    using r a new by (auto simp: pool_rel_def inj_on_def)
  ultimately show ?thesis
    using r a new i by (intro exI [of _ i] exI [of _ ?t]) (auto simp: pool_rel_def)
qed

text \<open>
  The relation the accept loop keeps: the main thread owns what it should, and its list is that of the
  run, with the same flags and the same threads.
\<close>

definition in_step :: "int \<Rightarrow> 'w server \<Rightarrow> nat list \<Rightarrow> (nat \<Rightarrow> nat) \<Rightarrow> (nat \<Rightarrow> nat) \<Rightarrow> tp \<Rightarrow> bool" where
  "in_step fd st xs f ident s \<longleftrightarrow>
     serving fd st xs \<and> pool_rel (s_pool st) xs f s \<and> named (s_pool st) xs f ident"

lemma in_step_upd [simp]:
  "in_step fd (st\<lparr>s_env := w\<rparr>) xs f ident s = in_step fd st xs f ident s"
  "in_step fd st xs f ident (s\<lparr>mpc := c\<rparr>) = in_step fd st xs f ident s"
  "in_step fd st xs f ident (s\<lparr>active := b\<rparr>) = in_step fd st xs f ident s"
  by (simp_all add: in_step_def)

text \<open>The signal arrives, and the main thread leaves the loop.\<close>

lemma trace_leaves:
  assumes "mpc s = Loop_head \<or> mpc s = In_accept"
  shows "trace s [] (s\<lparr>active := False, mpc := Want_drain\<rparr>)"
proof -
  let ?t = "s\<lparr>active := False\<rparr>"
  have 1: "trace s [] ?t" by (rule trace_quiet [OF signal]) simp
  have "step ?t (?t\<lparr>mpc := Want_drain\<rparr>)"
    using assms leave [of ?t] accept_fails [of ?t] by auto
  then have "trace ?t [] (?t\<lparr>mpc := Want_drain\<rparr>)"
    by (rule trace_step) (use assms in \<open>auto simp: main_acts_def\<close>)
  from trace_append [OF this 1] show ?thesis by simp
qed

lemma started_runs:
  assumes it: "iterated net fd st xs go st' (Started a t over)" and r: "in_step fd st xs f ident s"
    and s: "mpc s = In_accept" "active s"
  shows "\<exists>u ys g i es. trace s es u \<and> i \<notin> dom (thr s) \<and> in_step fd st' ys g (ident(i := t)) u \<and>
     mpc u = Loop_head \<and> active u \<and> acts (s_pool st') = acts (s_pool st) @ map (map_act (ident(i := t))) es"
proof -
  have a: "a \<notin> set xs" and up: "\<forall>x\<in>set xs. completed (s_pool st) x \<longrightarrow> over x"
    and sv': "serving fd st' (filter (\<lambda>x. \<not> over x) (a # xs))"
    and fl: "\<forall>x\<in>set (a # xs). \<not> over x \<longrightarrow> \<not> completed (s_pool st') x"
    and tids: "\<forall>x\<in>set (a # xs). \<not> over x \<longrightarrow> tid (s_pool st') x = ((tid (s_pool st))(a := t)) x"
    and log: "acts (s_pool st') =
       acts (s_pool st) @ started_acts ((tid (s_pool st))(a := t)) t (filter over (a # xs))"
    using it unfolding iterated.simps by blast+
  have rel: "pool_rel (s_pool st) xs f s" and nm: "named (s_pool st) xs f ident" and sv: "serving fd st xs"
    using r by (simp_all add: in_step_def)
  let ?ys = "filter (\<lambda>x. \<not> over x) (a # xs)" and ?gone = "filter over (a # xs)"
  obtain i v where v: "i \<notin> dom (thr s)" "trace s [Starts i] v" "mpc v = Want_reap" "active v"
    "\<And>q. \<forall>x\<in>set (a # xs). completed q x \<longleftrightarrow> x \<noteq> a \<and> completed (s_pool st) x \<Longrightarrow> pool_rel q (a # xs) (f(a := i)) v"
    using pool_rel_start [OF rel a s(1)] s(2) by blast
  let ?g = "f(a := i)" and ?id = "ident(i := t)"
  have id: "?id (?g x) = ((tid (s_pool st))(a := t)) x" if "x \<in> set (a # xs)" for x
    using that rel nm v(1) a by (auto simp: pool_rel_def named_def)
  define mk where "mk P = \<lparr>nodes = (\<lambda>x. if P x then Some \<lparr>thread_id = 0, thread_complete = 1,
      client_fd = 0, sle_next = 0\<rparr> else None), slh_first = 0, acts = []\<rparr>" for P :: "nat \<Rightarrow> bool"
  have mk [simp]: "completed (mk P) x \<longleftrightarrow> P x" for P x by (simp add: mk_def completed_def)
  have "pool_rel (mk (\<lambda>x. x \<noteq> a \<and> completed (s_pool st) x)) (a # xs) ?g v" by (intro v(5)) simp
  from pool_rel_finish [OF this, of over "mk over"] up obtain u where u: "trace v [] u" "mpc u = Want_reap"
    "active u" "pool_rel (mk over) (a # xs) ?g u"
    using v(3,4) by auto
  have "distinct (a # xs)" using linked_distinct [of "s_pool st" xs] sv a by (simp add: serving_def)
  from pool_rel_reap [OF u(4) this u(2), of "s_pool st'"] fl obtain w where
    w: "trace u (Locks (map ?g ?gone) # map Joins (map ?g ?gone) @ [Unlocks]) w"
    "mpc w = Loop_head" "active w" "pool_rel (s_pool st') ?ys ?g w"
    unfolding mk using u(3) by blast
  let ?es = "[Starts i] @ [] @ Locks (map ?g ?gone) # map Joins (map ?g ?gone) @ [Unlocks]"
  have "trace s ?es w" by (rule trace_append [OF trace_append [OF w(1) u(1)] v(2)])
  moreover have ids: "map ?id (map ?g ?gone) = map ((tid (s_pool st))(a := t)) ?gone"
    unfolding map_map comp_def by (rule map_cong [OF refl], rule id) (auto split: if_splits)
  have "map (map_act ?id) ?es =
      Starts (?id i) # Locks (map ?id (map ?g ?gone)) # map Joins (map ?id (map ?g ?gone)) @ [Unlocks]"
    by (simp add: comp_def del: fun_upd_apply filter.simps)
  then have "map (map_act ?id) ?es = started_acts ((tid (s_pool st))(a := t)) t ?gone"
    unfolding ids by (simp add: started_acts_def comp_def del: filter.simps)
  moreover have "named (s_pool st') ?ys ?g ?id" using tids id by (auto simp: named_def)
  ultimately show ?thesis using v(1) w(2-4) sv' log unfolding in_step_def
    by (intro exI [of _ w] exI [of _ ?ys] exI [of _ ?g] exI [of _ i] exI [of _ ?es] conjI) simp_all
qed

lemma iteration_runs:
  assumes it: "iterated net fd st xs go st' it" and r: "in_step fd st xs f ident s"
    and s: "mpc s = In_accept" "active s"
  shows "\<exists>t ys g ident' es. trace s es t \<and> in_step fd st' ys g ident' t \<and>
     (\<forall>i\<in>dom (thr s). ident' i = ident i) \<and>
     mpc t = (if go then Loop_head else Want_drain) \<and> (go \<longrightarrow> active t) \<and>
     acts (s_pool st') = acts (s_pool st) @ map (map_act ident') es"
proof (cases it)
  case No_connection
  then have *: "in_step fd st' xs f ident s" "acts (s_pool st') = acts (s_pool st)"
    using it r by (simp_all add: in_step_def)
  show ?thesis
  proof (cases go)
    case True
    have "step s (s\<lparr>mpc := Loop_head\<rparr>)" using accept_fails [OF s(1)] s(2) by simp
    then have "trace s [] (s\<lparr>mpc := Loop_head\<rparr>)" by (rule trace_step) (simp add: main_acts_def s(1))
    with * s True show ?thesis
      by (intro exI [of _ "s\<lparr>mpc := Loop_head\<rparr>"] exI [of _ xs] exI [of _ f] exI [of _ ident] exI [of _ "[]"]) simp
  next
    case False
    let ?u = "s\<lparr>active := False, mpc := Want_drain\<rparr>"
    have "trace s [] ?u" using s(1) by (intro trace_leaves) simp
    with * False show ?thesis
      by (intro exI [of _ ?u] exI [of _ xs] exI [of _ f] exI [of _ ident] exI [of _ "[]"]) simp
  qed
next
  case Dropped
  have "trace s [] (s\<lparr>mpc := Loop_head\<rparr>)"
    by (rule trace_step [OF client_dropped [OF s(1)]]) (simp add: main_acts_def s(1))
  moreover have "in_step fd st' xs f ident s" "acts (s_pool st') = acts (s_pool st)" "go"
    using Dropped it r by (simp_all add: in_step_def)
  ultimately show ?thesis using s
    by (intro exI [of _ "s\<lparr>mpc := Loop_head\<rparr>"] exI [of _ xs] exI [of _ f] exI [of _ ident] exI [of _ "[]"]) simp
next
  case (Started a t over)
  with it have go: "go" by simp
  from started_runs [OF it [unfolded Started] r s] obtain u ys g i es where u: "trace s es u" "i \<notin> dom (thr s)"
    "in_step fd st' ys g (ident(i := t)) u" "mpc u = Loop_head" "active u"
    "acts (s_pool st') = acts (s_pool st) @ map (map_act (ident(i := t))) es" by blast
  with go show ?thesis
    by (intro exI [of _ u] exI [of _ ys] exI [of _ g] exI [of _ "ident(i := t)"] exI [of _ es]) auto
qed

section \<open>The accept loop and the shutdown\<close>

lemma accept_loop_runs:
  assumes m: "malloc_fresh net"
  shows "in_step fd st xs f ident s \<Longrightarrow> tp_inv s \<Longrightarrow> mpc s = Loop_head \<Longrightarrow> active s \<Longrightarrow>
     accept_loop fuel net fd st = Some (Some st') \<Longrightarrow>
     \<exists>t ys g ident' es. trace s es t \<and> in_step fd st' ys g ident' t \<and> mpc t = Want_drain \<and>
       (\<forall>i\<in>dom (thr s). ident' i = ident i) \<and>
       acts (s_pool st') = acts (s_pool st) @ map (map_act ident') es"
proof (induction fuel arbitrary: st xs f ident s)
  case 0
  then show ?case by simp
next
  case (Suc k)
  obtain act w where act: "n_active net (s_env st) = (act, w)" by fastforce
  show ?case
  proof (cases act)
    case False
    with Suc.prems(5) act have st': "st' = st\<lparr>s_env := w\<rparr>" by simp
    let ?u = "s\<lparr>active := False, mpc := Want_drain\<rparr>"
    have "trace s [] ?u" using Suc.prems(3) by (intro trace_leaves) simp
    with st' Suc.prems(1) show ?thesis
      by (intro exI [of _ ?u] exI [of _ xs] exI [of _ f] exI [of _ ident] exI [of _ "[]"]) simp
  next
    case True
    let ?st = "st\<lparr>s_env := w\<rparr>" and ?s = "s\<lparr>mpc := In_accept\<rparr>"
    have sv: "serving fd ?st xs" using Suc.prems(1) by (simp add: in_step_def)
    obtain go st1 it where it: "accept_iteration net fd ?st = Some (go, st1)" "iterated net fd ?st xs go st1 it"
      using accept_iteration_cases [OF m sv] by blast
    have "in_step fd ?st xs f ident ?s" "mpc ?s = In_accept" "active ?s" using Suc.prems(1,4) by simp_all
    from iteration_runs [OF it(2) this] obtain t ys g id1 es where t: "trace ?s es t" "in_step fd st1 ys g id1 t"
      "\<forall>i\<in>dom (thr s). id1 i = ident i" "mpc t = (if go then Loop_head else Want_drain)" "go \<longrightarrow> active t"
      "acts (s_pool st1) = acts (s_pool st) @ map (map_act id1) es" by auto
    have "trace s [] ?s" by (rule trace_step [OF enter [OF Suc.prems(3,4)]]) (simp add: main_acts_def Suc.prems(3))
    from trace_append [OF t(1) this] have st: "trace s es t" by simp
    show ?thesis
    proof (cases go)
      case False
      with Suc.prems(5) act True it(1) have "st' = st1" by simp
      with st t False show ?thesis
        by (intro exI [of _ t] exI [of _ ys] exI [of _ g] exI [of _ id1] exI [of _ es]) simp
    next
      case go: True
      with Suc.prems(5) act True it(1) have l: "accept_loop k net fd st1 = Some (Some st')" by simp
      have inv: "tp_inv t" by (rule tp_inv_steps [OF trace_steps [OF st] Suc.prems(2)])
      from Suc.IH [OF t(2) inv _ _ l] t(4,5) go obtain u zs h id2 ds where u: "trace t ds u"
        "in_step fd st' zs h id2 u" "mpc u = Want_drain" "\<forall>i\<in>dom (thr t). id2 i = id1 i"
        "acts (s_pool st') = acts (s_pool st1) @ map (map_act id2) ds" by auto
      have "id1 i = id2 i" if "i \<in> \<Union>(set_act ` set es)" for i
        using subsetD [OF trace_threads [OF st Suc.prems(2)] that] u(4) by simp
      then have "map (map_act id1) es = map (map_act id2) es" by (intro map_act_cong) blast
      moreover have "id2 i = ident i" if "i \<in> dom (thr s)" for i
        using subsetD [OF trace_dom [OF st] that] that t(3) u(4) by simp
      ultimately show ?thesis using trace_append [OF u(1) st] u t(6)
        by (intro exI [of _ u] exI [of _ zs] exI [of _ h] exI [of _ id2] exI [of _ "es @ ds"]) simp
    qed
  qed
qed

lemma in_step_initial: "serving fd st [] \<Longrightarrow> in_step fd st [] f ident tp_start"
  by (simp add: in_step_def pool_rel_def named_def tp_start_def)

text \<open>At the shutdown the main thread takes the mutex and sees the flags that are set.\<close>

lemma shutdown_locks:
  assumes r: "in_step fd st xs f ident s" and c: "mpc s = Want_drain"
  shows "\<exists>t e. trace s [e] t \<and> mpc t = Draining \<and> plist t = map f xs \<and>
     (\<forall>a\<in>set xs. flag t (f a) \<longleftrightarrow> completed (s_pool (lock_list net st)) a) \<and>
     (\<forall>a\<in>set xs. flag t (f a) \<longrightarrow> thr t (f a) = Some Ended) \<and>
     acts (s_pool (lock_list net st)) = acts (s_pool st) @ [map_act ident e]"
proof -
  let ?l = "s_pool (lock_list net st)"
  have sv: "serving fd st xs" and rel: "pool_rel (s_pool st) xs f s" and nm: "named (s_pool st) xs f ident"
    using r by (simp_all add: in_step_def)
  have up: "\<forall>a\<in>set xs. completed (s_pool st) a \<longrightarrow> completed ?l a"
    using sv by (auto simp: lock_list_def Let_def completed_mark_nodes serving_def split: prod.split)
  obtain t where t: "trace s [] t" "mpc t = Want_drain" "pool_rel ?l xs f t"
    using pool_rel_finish [OF rel up] c by auto
  let ?u = "t\<lparr>mpc := Draining, list_mutex := Some Main\<rparr>" and ?e = "Locks (filter (flag t) (plist t))"
  have "step t ?u" using t(3) by (intro drain_lock [OF t(2)]) (simp add: pool_rel_def)
  then have "trace t [?e] ?u" by (rule trace_step) (simp add: main_acts_def t(2))
  from trace_append [OF this t(1)] have "trace s [?e] ?u" by simp
  moreover have "filter (flag t) (plist t) = map f (filter (completed ?l) xs)"
    using t(3) by (auto simp: pool_rel_def filter_map intro!: arg_cong [of _ _ "map f"] filter_cong)
  then have "map_act ident ?e = Locks (map (tid (s_pool st)) (filter (completed ?l) xs))"
    using nm by (auto simp: named_def)
  moreover have "linked (s_pool st) xs" using sv by (simp add: serving_def)
  note lock_list_acts(1) [OF this, of net]
  ultimately show ?thesis using t(3)
    by (intro exI [of _ ?u] exI [of _ ?e]) (simp add: pool_rel_def)
qed

end
