(* ===== verification/Server_Properties.thy ===== *)
theory Server_Properties
  imports Pool_Refinement
begin

text \<open>
  What the server's main thread promises: what it gives back, what it does to the list of
  client threads, and when its joins return.
\<close>

section \<open>The list of clients\<close>

text \<open>
  C17: the reaping loop of \<open>main\<close> on a well-formed list ends without touching a freed node: it
  joins, unlinks and frees exactly the clients whose completion flag is set, in list order, and
  keeps the others linked in their order with what they say unchanged.
\<close>

theorem reap_exact:
  assumes "linked p xs"
  shows "\<exists>p'. reap p (SLIST_FIRST p) = Some p' \<and> linked p' (filter (\<lambda>x. \<not> completed p x) xs) \<and>
     dom (nodes p') = dom (nodes p) - {x \<in> set xs. completed p x} \<and>
     joined p' = joined p @ map (tid p) (filter (completed p) xs) \<and>
     (\<forall>x. x \<notin> set xs \<or> \<not> completed p x \<longrightarrow> payload p' x = payload p x)"
proof -
  have "linked p ([] @ xs)" "path (nodes p) (SLIST_FIRST p) xs 0"
    using assms by (simp_all add: linked_def SLIST_FIRST_def)
  from reap_linked [OF this] obtain p' where p': "reap p (SLIST_FIRST p) = Some p'"
    "linked p' (filter (\<lambda>x. \<not> completed p x) xs)"
    "dom (nodes p') = dom (nodes p) - {x \<in> set xs. completed p x}"
    "acts p' = acts p @ map (\<lambda>x. Joins (tid p x)) (filter (completed p) xs)"
    "\<forall>x. x \<in> set xs \<longrightarrow> completed p x \<or> payload p' x = payload p x"
    "\<forall>x. x \<notin> set xs \<longrightarrow> payload p' x = payload p x"
    by (simp only: append_Nil) blast
  moreover from this(4) have "joined p' = joined p @ map (tid p) (filter (completed p) xs)"
    using joins_map_Joins [of "map (tid p) (filter (completed p) xs)"] by (simp add: joined_def comp_def)
  ultimately show ?thesis by blast
qed

text \<open>Three clients, of which the first and the last have completed.\<close>

definition three :: pool where
  "three = \<lparr>nodes =
      [10 \<mapsto> \<lparr>thread_id = 1, thread_complete = 1, client_fd = 4, sle_next = 20\<rparr>,
       20 \<mapsto> \<lparr>thread_id = 2, thread_complete = 0, client_fd = 5, sle_next = 30\<rparr>,
       30 \<mapsto> \<lparr>thread_id = 3, thread_complete = 1, client_fd = 6, sle_next = 0\<rparr>],
     slh_first = 10, acts = []\<rparr>"

lemma three_linked: "linked three [10, 20, 30]"
  by (simp add: linked_def three_def)

theorem reap_exact_witness:
  "\<exists>p'. reap three (SLIST_FIRST three) = Some p' \<and> linked p' [20] \<and> joined p' = [1, 3] \<and>
     dom (nodes p') = {20}"
proof -
  have c: "completed three 10" "\<not> completed three 20" "completed three 30"
    by (simp_all add: completed_def three_def)
  have d: "dom (nodes three) = {10, 20, 30}" by (auto simp: three_def split: if_splits)
  have t: "tid three 10 = 1" "tid three 30 = 3" "joined three = []" by (simp_all add: tid_def joined_def three_def)
  obtain p' where "reap three (SLIST_FIRST three) = Some p'" "linked p' [20]" "joined p' = [1, 3]"
    "dom (nodes p') = {10, 20, 30} - {x \<in> {10, 20, 30}. completed three x}"
    using reap_exact [OF three_linked] by (auto simp: c t d)
  moreover from this(4) have "dom (nodes p') = {20}" using c by auto
  ultimately show ?thesis by blast
qed

text \<open>
  \<open>SLIST_REMOVE\<close> of an element of a well-formed list ends, unlinks exactly that element and changes
  nothing else any node says.
\<close>

theorem slist_remove_exact:
  assumes "linked p (us @ x # vs)"
  shows "\<exists>p'. SLIST_REMOVE p x = Some p' \<and> linked p' (us @ vs) \<and> dom (nodes p') = dom (nodes p) \<and>
     (\<forall>a. payload p' a = payload p a)"
  using remove_linked [OF assms] by (auto simp: payload_def)

theorem slist_remove_exact_witness:
  "\<exists>p'. SLIST_REMOVE three 20 = Some p' \<and> linked p' [10, 30]"
  using slist_remove_exact [of three "[10]" 20 "[30]"] three_linked by auto

section \<open>The main thread\<close>

text \<open>
  An iteration of the accept loop is never undefined, and after it the main thread owns the
  listening socket alone and exactly the nodes of its list: a connection it accepted has been closed or given
  to one new client thread.
\<close>

theorem accept_iteration_keeps:
  assumes "malloc_fresh net" "serving fd st xs"
  shows "\<exists>go st' ys. accept_iteration net fd st = Some (go, st') \<and> serving fd st' ys \<and>
     (s_given st' = s_given st \<or>
      (\<exists>c w. n_accept net fd (s_env st) = (c, w) \<and> c \<noteq> - 1 \<and> s_given st' = c # s_given st))"
  by (rule accept_iteration_ok [OF assms])

text \<open>Two connections, the first of which is over when the second is reaped, then the signal.\<close>

record script =
  sc_conns :: "int list"
  sc_next :: nat

definition demo_net :: "script net" where
  "demo_net =
     \<lparr>n_getaddrinfo = (\<lambda>w. (0, w)), n_socket = (\<lambda>w. (3, w)), n_setsockopt = (\<lambda>_ w. (0, w)),
      n_bind = (\<lambda>_ w. (0, w)), n_listen = (\<lambda>_ w. (0, w)),
      n_accept = (\<lambda>_ w. case sc_conns w of [] \<Rightarrow> (- 1, w) | c # cs \<Rightarrow> (c, w\<lparr>sc_conns := cs\<rparr>)),
      n_active = (\<lambda>w. (sc_conns w \<noteq> [], w)),
      n_fork = (\<lambda>w. (0, w)), n_setsid = (\<lambda>w. (0, w)), n_chdir = (\<lambda>w. (0, w)),
      n_malloc = (\<lambda>h w. (if h (sc_next w) = None then sc_next w else 0, w\<lparr>sc_next := sc_next w + 1\<rparr>)),
      n_create = (\<lambda>a w. (Some a, w)),
      n_lock_list = (\<lambda>w. ([1..<sc_next w], w)),
      n_create_stamper = (\<lambda>w. (0, w)), n_join_stamper = (\<lambda>w. w), n_unlink = (\<lambda>w. (0, w))\<rparr>"

definition demo_start :: "script server" where
  "demo_start = \<lparr>s_env = \<lparr>sc_conns = [4, 5], sc_next = 1\<rparr>,
     s_pool = \<lparr>nodes = Map.empty, slh_first = 0, acts = []\<rparr>,
     s_fds = [], s_given = [], s_std = [0, 1, 2], s_addrinfo = 0,
     s_file_mutex = False, s_list_mutex = False, s_log = False, s_stamper = False\<rparr>"

lemma demo_fresh: "malloc_fresh demo_net"
  by (simp add: malloc_fresh_def demo_net_def)

definition demo_serving :: "script server" where
  "demo_serving = demo_start\<lparr>s_fds := [3], s_file_mutex := True, s_list_mutex := True, s_log := True\<rparr>"

theorem accept_iteration_keeps_witness:
  "\<exists>go st' ys. accept_iteration demo_net 3 demo_serving = Some (go, st') \<and> serving 3 st' ys"
proof -
  have "serving 3 demo_serving []" by (simp add: serving_def demo_serving_def demo_start_def linked_def)
  from accept_iteration_keeps [OF demo_fresh this] show ?thesis by blast
qed

text \<open>
  C18: every way out of \<open>main\<close>, in both builds and whatever the calls return.  Either the process returns from
  \<open>main\<close> with 0 or -1, or exits with a failure because it could not fork: then it has closed its sockets
  and the log, freed its address list and every thread node and destroyed both mutexes, and a timestamp
  thread is left running, over a destroyed mutex, only by a return of -1 of the build for an output file.  Or it is
  the parent of the daemon, which exits with success and gives nothing back: it still has the listening
  socket, the log and both mutexes, but no address list, no thread and no other socket.
\<close>

theorem main_gives_back:
  assumes "malloc_fresh net"
    and "s_fds st = []" "s_addrinfo st = 0" "nodes (s_pool st) = Map.empty" "\<not> s_stamper st"
    and "main use_dev fuel net daemon st = Some (Some (e, st'))"
  shows "(e = Exited 0 \<and> daemon \<and> (\<exists>fd. fd \<noteq> - 1 \<and> serving fd st' []) \<and> \<not> s_stamper st') \<or>
     ((e = Returned 0 \<or> e = Returned (- 1) \<or> e = Exited 1) \<and> released st' \<and>
      (s_stamper st' \<longrightarrow> \<not> use_dev \<and> e = Returned (- 1)))"
  by (rule main_releases [OF assms])

theorem main_gives_back_witness:
  "(\<exists>st'. main True 5 demo_net True demo_start = Some (Some (Returned 0, st')) \<and> released st') \<and>
   (\<exists>st'. main False 5 (demo_net\<lparr>n_listen := \<lambda>_ w. (- 1, w)\<rparr>) True demo_start = Some (Some (Returned (- 1), st')) \<and>
      released st' \<and> s_stamper st') \<and>
   (\<exists>st'. main True 5 (demo_net\<lparr>n_fork := \<lambda>w. (42, w)\<rparr>) True demo_start = Some (Some (Exited 0, st')) \<and>
      s_fds st' = [3] \<and> s_list_mutex st' \<and> s_log st')"
proof (intro conjI)
  have "case main True 5 demo_net True demo_start of Some (Some (Returned c, st')) \<Rightarrow> c = 0 | _ \<Rightarrow> False"
    by code_simp
  then obtain st' where m: "main True 5 demo_net True demo_start = Some (Some (Returned 0, st'))"
    by (auto split: option.splits prod.splits main_exit.splits)
  from main_gives_back [OF demo_fresh _ _ _ _ m] m
  show "\<exists>st'. main True 5 demo_net True demo_start = Some (Some (Returned 0, st')) \<and> released st'"
    by (simp add: demo_start_def)
  let ?net = "demo_net\<lparr>n_listen := \<lambda>_ w. (- 1, w)\<rparr>"
  have fresh: "malloc_fresh ?net" using demo_fresh by (simp add: malloc_fresh_def)
  have "case main False 5 ?net True demo_start of
      Some (Some (Returned c, st')) \<Rightarrow> c = - 1 \<and> s_stamper st' | _ \<Rightarrow> False"
    by code_simp
  then obtain st' where m: "main False 5 ?net True demo_start = Some (Some (Returned (- 1), st'))" "s_stamper st'"
    by (auto split: option.splits prod.splits main_exit.splits)
  from main_gives_back [OF fresh _ _ _ _ m(1)] m
  show "\<exists>st'. main False 5 ?net True demo_start = Some (Some (Returned (- 1), st')) \<and>
      released st' \<and> s_stamper st'"
    by (simp add: demo_start_def)
  let ?net = "demo_net\<lparr>n_fork := \<lambda>w. (42, w)\<rparr>"
  have fresh: "malloc_fresh ?net" using demo_fresh by (simp add: malloc_fresh_def)
  have "case main True 5 ?net True demo_start of Some (Some (Exited c, st')) \<Rightarrow> c = 0 \<and> s_fds st' = [3] | _ \<Rightarrow> False"
    by code_simp
  then obtain st' where m: "main True 5 ?net True demo_start = Some (Some (Exited 0, st'))" "s_fds st' = [3]"
    by (auto split: option.splits prod.splits main_exit.splits)
  from main_gives_back [OF fresh _ _ _ _ m(1)] m
  show "\<exists>st'. main True 5 ?net True demo_start = Some (Some (Exited 0, st')) \<and>
      s_fds st' = [3] \<and> s_list_mutex st' \<and> s_log st'"
    by (auto simp: demo_start_def serving_def)
qed

text \<open>
  The shutdown of the main thread ends exactly when every client in the list has set its
  completion flag by the time \<open>main\<close> takes the list mutex; one client still being served is
  joined for ever.
\<close>

theorem shutdown_ends_iff:
  assumes "serving fd st xs"
  shows "(\<exists>st'. shutdown use_dev net fd st = Some st') \<longleftrightarrow>
     (\<forall>a\<in>set xs. completed (s_pool (lock_list net st)) a)"
  by (rule shutdown_ok(2) [OF assms])

text \<open>One client, still being served.\<close>

definition busy_server :: "script server" where
  "busy_server = demo_serving\<lparr>s_env := \<lparr>sc_conns = [], sc_next = 1\<rparr>, s_pool := \<lparr>nodes =
     [10 \<mapsto> \<lparr>thread_id = 1, thread_complete = 0, client_fd = 4, sle_next = 0\<rparr>], slh_first = 10, acts = []\<rparr>\<rparr>"

theorem shutdown_ends_iff_witness: "shutdown True demo_net 3 busy_server = None"
proof -
  have "serving 3 busy_server [10]"
    by (auto simp: serving_def busy_server_def demo_serving_def demo_start_def linked_def split: if_splits)
  moreover have "\<not> completed (s_pool (lock_list demo_net busy_server)) 10"
    by (simp add: completed_def lock_list_def mark_nodes_def demo_net_def busy_server_def Let_def)
  ultimately show ?thesis using shutdown_ends_iff [of 3 busy_server "[10]" True demo_net] by simp
qed

section \<open>Threads\<close>

text \<open>
  C27: in every reachable state the list mutex has at most one holder, which is where its program says so; a
  client's completion flag is set exactly from the moment it holds the mutex on; and the list
  has no client twice and none that was not started.
\<close>

theorem pool_invariant:
  assumes "steps tp_start s"
  shows "(list_mutex s = Some Main \<longleftrightarrow> main_holds (mpc s)) \<and>
     (\<forall>i. list_mutex s = Some (Client i) \<longleftrightarrow> thr s i = Some Marking) \<and>
     (\<forall>i. flag s i \<longleftrightarrow> (\<exists>c. thr s i = Some c \<and> Marking \<le> c)) \<and>
     distinct (plist s) \<and> set (plist s) \<subseteq> dom (thr s)"
  using tp_inv_steps [OF assms tp_inv_start] by (simp add: tp_inv_def)

theorem pool_invariant_witness: "main_holds (mpc hung_state) \<and> \<not> flag hung_state 1"
  using pool_invariant [OF hung_state_reached] by (auto simp: hung_state_def draining_state_def tp_start_def)

text \<open>
  C28: a join of the accept loop never waits for a client that needs the list mutex: the thread it joins is past
  its unlock, and the loop can go on without any other thread.
\<close>

theorem reap_join_returns:
  assumes "steps tp_start s" "mpc s = Joining i is"
  shows "(thr s i = Some Returning \<or> thr s i = Some Ended) \<and>
     (\<exists>t. steps s t \<and> mpc t = Reaping is \<and> i \<notin> set (plist t))"
  using reap_join_ready [OF tp_inv_steps [OF assms(1) tp_inv_start] assms(2)]
    reap_join_progress [OF tp_inv_steps [OF assms(1) tp_inv_start] assms(2)] by blast

theorem reap_join_returns_witness:
  "\<exists>t. steps joining_state t \<and> mpc t = Reaping [] \<and> 1 \<notin> set (plist t)"
  using reap_join_returns [OF joining_state_reached, of 1 "[]"] by (simp add: joining_state_def)

text \<open>
  C13: once the shutdown loop runs, the main thread can finish if and only if every client in the list has
  set its flag; otherwise it holds the mutex the client needs while it waits for the client,
  in every continuation.
\<close>

theorem shutdown_deadlock_iff:
  assumes "steps tp_start s" "mpc s = Draining"
  shows "(\<exists>t. steps s t \<and> mpc t = Closed) \<longleftrightarrow> (\<forall>i\<in>set (plist s). flag s i)"
  by (rule draining_closes_iff [OF tp_inv_steps [OF assms(1) tp_inv_start] assms(2)])

theorem shutdown_deadlock_iff_witness:
  "\<not> (\<exists>t. steps draining_state t \<and> mpc t = Closed)"
  using shutdown_deadlock_iff [OF draining_state_reached]
  by (simp add: draining_state_def tp_start_def)

text \<open>
  Such a deadlock is reachable: there is a run in which the signal arrives while one client is served
  and from whose last state no continuation lets the main thread finish.
\<close>

theorem shutdown_deadlock_reachable:
  "\<exists>s. steps tp_start s \<and> \<not> (\<exists>t. steps s t \<and> mpc t = Closed)"
proof -
  have "tp_inv hung_state" by (rule tp_inv_steps [OF hung_state_reached tp_inv_start])
  then have "mpc t \<noteq> Closed" if "steps hung_state t" for t
    using hung_steps [OF that _ hung_state_hung] by (auto simp: hung_def)
  with hung_state_reached show ?thesis by blast
qed

text \<open>
  C14: what the main thread does from its first client to the end, as the code logs it, is what the main thread of some
  run of the interleavings does, in the same order: the clients it creates, each lock of \<open>list_mutex\<close> with the
  clients whose flag it sees set there, each join and each unlock.  \<open>ident\<close> gives the identifiers the
  numbered threads of that run have in the code.  At the shutdown lock the run's list holds the same
  clients with the same flags; a shutdown that returns goes on to be what the rest of a run
  does, and one that never returns has no continuation in which the main thread finishes.
\<close>

theorem server_refines_threads:
  assumes m: "malloc_fresh net" and sv: "serving fd st []"
    and l: "accept_loop fuel net fd st = Some (Some st')"
  shows "\<exists>s es ident xs f. trace tp_start es s \<and> mpc s = Draining \<and>
     acts (s_pool (lock_list net st')) = acts (s_pool st) @ map (map_act ident) es \<and>
     serving fd st' xs \<and> plist s = map f xs \<and> (\<forall>a\<in>set xs. tid (s_pool st') a = ident (f a)) \<and>
     (\<forall>a\<in>set xs. flag s (f a) \<longleftrightarrow> completed (s_pool (lock_list net st')) a) \<and>
     (case shutdown use_dev net fd st' of
        None \<Rightarrow> \<not> (\<exists>t. steps s t \<and> mpc t = Closed)
      | Some st'' \<Rightarrow> \<exists>t ds. trace s ds t \<and> mpc t = Closed \<and>
          acts (s_pool st'') = acts (s_pool st) @ map (map_act ident) (es @ ds))"
proof -
  have "mpc tp_start = Loop_head" "active tp_start" by (simp_all add: tp_start_def)
  from accept_loop_runs [OF m in_step_initial [OF sv] tp_inv_start this l] obtain t xs f ident es where
    t: "trace tp_start es t" "in_step fd st' xs f ident t" "mpc t = Want_drain"
    "acts (s_pool st') = acts (s_pool st) @ map (map_act ident) es" by blast
  have sv': "serving fd st' xs" and nm: "\<forall>a\<in>set xs. tid (s_pool st') a = ident (f a)"
    using t(2) by (simp_all add: in_step_def named_def)
  let ?l = "s_pool (lock_list net st')"
  from shutdown_locks [OF t(2,3)] obtain s e where s: "trace t [e] s" "mpc s = Draining" "plist s = map f xs"
    "\<forall>a\<in>set xs. flag s (f a) \<longleftrightarrow> completed ?l a" "\<forall>a\<in>set xs. flag s (f a) \<longrightarrow> thr s (f a) = Some Ended"
    "acts ?l = acts (s_pool st') @ [map_act ident e]" by blast
  have r: "trace tp_start (es @ [e]) s" by (rule trace_append [OF s(1) t(1)])
  have a: "acts ?l = acts (s_pool st) @ map (map_act ident) (es @ [e])" using s(6) t(4) by simp
  have inv: "tp_inv s" by (rule tp_inv_steps [OF trace_steps [OF r] tp_inv_start])
  have "case shutdown use_dev net fd st' of
        None \<Rightarrow> \<not> (\<exists>t. steps s t \<and> mpc t = Closed)
      | Some st'' \<Rightarrow> \<exists>t ds. trace s ds t \<and> mpc t = Closed \<and>
          acts (s_pool st'') = acts (s_pool st) @ map (map_act ident) ((es @ [e]) @ ds)"
  proof (cases "shutdown use_dev net fd st'")
    case None
    then have "\<not> (\<forall>i\<in>set (plist s). flag s i)" using shutdown_ok(2) [OF sv', of use_dev net] s(3,4) by auto
    with draining_closes_iff [OF inv s(2)] None show ?thesis by simp
  next
    case (Some st'')
    then have "\<forall>a\<in>set xs. completed ?l a" using shutdown_ok(2) [OF sv', of use_dev net] by auto
    then have "\<forall>i\<in>set (plist s). thr s i = Some Ended" using s(3-5) by auto
    from draining_runs [OF s(2) this] obtain u where u: "trace s (map Joins (plist s) @ [Unlocks]) u" "mpc u = Closed"
      by blast
    have "acts (s_pool st'') = acts ?l @ map (map_act ident) (map Joins (plist s) @ [Unlocks])"
      using shutdown_ok(3) [OF sv' Some] s(3) nm by simp
    with a have "acts (s_pool st'') =
        acts (s_pool st) @ map (map_act ident) ((es @ [e]) @ map Joins (plist s) @ [Unlocks])"
      by (simp only: map_append append_assoc)
    with u Some show ?thesis by (simp only: option.case) blast
  qed
  with r s(2-4) sv' nm a show ?thesis
    by (intro exI [of _ s] exI [of _ "es @ [e]"] exI [of _ ident] exI [of _ xs] exI [of _ f] conjI)
qed

text \<open>Two clients, each of which has set its flag when it is looked at: each is joined before the next is created.\<close>

theorem server_refines_threads_witness:
  "\<exists>st' st'' s t es ds ident. accept_loop 5 demo_net 3 demo_serving = Some (Some st') \<and>
     shutdown True demo_net 3 st' = Some st'' \<and> trace tp_start es s \<and> trace s ds t \<and> mpc t = Closed \<and>
     map (map_act (ident :: nat \<Rightarrow> nat)) (es @ ds) =
       [Starts 1, Locks [1], Joins 1, Unlocks, Starts 2, Locks [2], Joins 2, Unlocks, Locks [], Unlocks]"
proof -
  let ?as = "[Starts 1, Locks [1], Joins 1, Unlocks, Starts 2, Locks [2], Joins 2, Unlocks, Locks [], Unlocks]"
  have "case accept_loop 5 demo_net 3 demo_serving of
      Some (Some st') \<Rightarrow> (case shutdown True demo_net 3 st' of Some st'' \<Rightarrow> acts (s_pool st'') = ?as | _ \<Rightarrow> False)
    | _ \<Rightarrow> False"
    by code_simp
  then obtain st' st'' where e: "accept_loop 5 demo_net 3 demo_serving = Some (Some st')"
    "shutdown True demo_net 3 st' = Some st''" "acts (s_pool st'') = ?as"
    by (auto split: option.splits)
  have "serving 3 demo_serving []" by (simp add: serving_def demo_serving_def demo_start_def linked_def)
  from server_refines_threads [OF demo_fresh this e(1), of True] obtain s es ident t ds where
    r: "trace tp_start es s" "trace s ds t" "mpc t = Closed"
    "acts (s_pool st'') = acts (s_pool demo_serving) @ map (map_act (ident :: nat \<Rightarrow> nat)) (es @ ds)"
    unfolding e(2) option.case by blast
  have "acts (s_pool demo_serving) = []" by (simp add: demo_serving_def demo_start_def)
  with r(4) e(3) have "map (map_act ident) (es @ ds) = ?as" by (simp only: append_Nil)
  with e(1,2) r(1-3) show ?thesis
    by (intro exI [of _ st'] exI [of _ st''] exI [of _ s] exI [of _ t] exI [of _ es] exI [of _ ds]
        exI [of _ ident] conjI)
qed

end
