(* ===== verification/Queue_Links.thy ===== *)
theory Queue_Links
  imports Prelude
begin

text \<open>
  The memory under the queues of \<^verbatim>\<open>server/queue.h\<close>: cells of two pointers.  A list or queue head
  and the entry of an element hold a pointer to an element (\<open>first\<close>, \<open>next\<close>) and, in some of the
  queues, the address of such a pointer (\<open>last\<close>, \<open>prev\<close>).  The first pointer is also the first
  member of its struct, so an address of such a pointer is the address of a cell; this is what the
  casts of \<open>TAILQ_LAST\<close> and \<open>TAILQ_PREV\<close> rely on.  Here are the cells, what it is for them to hold
  a list, what an operation on a family of queues promises, and the contract \<open>queue_macros\<close> that
  the three kinds of queues are proved to keep.
\<close>

section \<open>Cells\<close>

text \<open>Heads and elements by address; the element \<open>0\<close> is NULL.\<close>

datatype loc = Head nat | Elem nat

lemma Elem_image [simp]: "Elem x \<in> Elem ` A \<longleftrightarrow> x \<in> A" "Head q \<notin> Elem ` A"
  by auto

record link =
  lk_ptr :: nat
  lk_back :: loc

type_synonym links = "loc \<rightharpoonup> link"

definition alive :: "links \<Rightarrow> loc \<Rightarrow> bool" where
  "alive h l \<longleftrightarrow> h l \<noteq> None"

text \<open>Reads and writes; \<open>None\<close> is the dereference of NULL or of memory that does not exist.\<close>

definition nxt :: "links \<Rightarrow> loc \<Rightarrow> nat option" where
  "nxt h l = map_option lk_ptr (h l)"

definition bck :: "links \<Rightarrow> loc \<Rightarrow> loc option" where
  "bck h l = map_option lk_back (h l)"

definition upd_nxt :: "links \<Rightarrow> loc \<Rightarrow> nat \<Rightarrow> links" where
  "upd_nxt h l n = h(l := map_option (\<lambda>k. k\<lparr>lk_ptr := n\<rparr>) (h l))"

definition upd_bck :: "links \<Rightarrow> loc \<Rightarrow> loc \<Rightarrow> links" where
  "upd_bck h l b = h(l := map_option (\<lambda>k. k\<lparr>lk_back := b\<rparr>) (h l))"

definition put_nxt :: "links \<Rightarrow> loc \<Rightarrow> nat \<Rightarrow> links option" where
  "put_nxt h l n = (if h l = None then None else Some (upd_nxt h l n))"

definition put_bck :: "links \<Rightarrow> loc \<Rightarrow> loc \<Rightarrow> links option" where
  "put_bck h l b = (if h l = None then None else Some (upd_bck h l b))"

lemma put_alive [simp]:
  "alive h l \<Longrightarrow> put_nxt h l n = Some (upd_nxt h l n)"
  "alive h l \<Longrightarrow> put_bck h l b = Some (upd_bck h l b)"
  by (simp_all add: put_nxt_def put_bck_def alive_def)

lemma alive_upd [simp]:
  "alive (upd_nxt h l n) m = alive h m" "alive (upd_bck h l b) m = alive h m"
  by (simp_all add: alive_def upd_nxt_def upd_bck_def)

lemma read_upd [simp]:
  "nxt (upd_nxt h l n) m = (if m = l \<and> alive h l then Some n else nxt h m)"
  "nxt (upd_bck h l b) m = nxt h m"
  "bck (upd_bck h l b) m = (if m = l \<and> alive h l then Some b else bck h m)"
  "bck (upd_nxt h l n) m = bck h m"
  by (auto simp: nxt_def bck_def upd_nxt_def upd_bck_def alive_def option.map_comp comp_def)

lemma alive_nxt: "nxt h l = Some n \<Longrightarrow> alive h l"
  by (auto simp: nxt_def alive_def)

lemma upd_other [simp]:
  "m \<noteq> l \<Longrightarrow> upd_nxt h l n m = h m" "m \<noteq> l \<Longrightarrow> upd_bck h l b m = h m"
  by (simp_all add: upd_nxt_def upd_bck_def)

section \<open>Chains\<close>

text \<open>From the pointer at \<open>l\<close> through the elements; the back pointers on the way; where it ends.\<close>

fun seg :: "links \<Rightarrow> loc \<Rightarrow> nat list \<Rightarrow> bool" where
  "seg h l [] \<longleftrightarrow> True"
| "seg h l (x # xs) \<longleftrightarrow> nxt h l = Some x \<and> seg h (Elem x) xs"

fun backs :: "links \<Rightarrow> loc \<Rightarrow> nat list \<Rightarrow> bool" where
  "backs h l [] \<longleftrightarrow> True"
| "backs h l (x # xs) \<longleftrightarrow> bck h (Elem x) = Some l \<and> backs h (Elem x) xs"

fun endl :: "loc \<Rightarrow> nat list \<Rightarrow> loc" where
  "endl l [] = l"
| "endl l (x # xs) = endl (Elem x) xs"

lemma endl_append [simp]: "endl l (xs @ ys) = endl (endl l xs) ys"
  by (induction xs arbitrary: l) simp_all

lemma seg_append [simp]: "seg h l (xs @ ys) \<longleftrightarrow> seg h l xs \<and> seg h (endl l xs) ys"
  by (induction xs arbitrary: l) simp_all

lemma backs_append [simp]: "backs h l (xs @ ys) \<longleftrightarrow> backs h l xs \<and> backs h (endl l xs) ys"
  by (induction xs arbitrary: l) simp_all

lemma endl_in: "endl l xs \<in> insert l (Elem ` set xs)"
  by (induction xs arbitrary: l) auto

lemma endl_neq [simp]:
  "m \<noteq> l \<Longrightarrow> m \<notin> Elem ` set xs \<Longrightarrow> endl l xs \<noteq> m"
  "m \<noteq> l \<Longrightarrow> m \<notin> Elem ` set xs \<Longrightarrow> m \<noteq> endl l xs"
  using endl_in [of l xs] by auto

lemma endl_Head [simp]: "endl (Head q) xs = Head r \<longleftrightarrow> xs = [] \<and> q = r"
  "Head r = endl (Head q) xs \<longleftrightarrow> xs = [] \<and> q = r"
  by (cases xs rule: rev_cases; auto)+

lemma seg_other [simp]:
  "m \<noteq> l \<Longrightarrow> m \<notin> Elem ` set xs \<Longrightarrow> seg (upd_nxt h m n) l xs = seg h l xs"
  by (induction xs arbitrary: l) simp_all

lemma seg_bck [simp]: "seg (upd_bck h m b) l xs = seg h l xs"
  by (induction xs arbitrary: l) simp_all

lemma backs_other [simp]: "m \<notin> Elem ` set xs \<Longrightarrow> backs (upd_bck h m b) l xs = backs h l xs"
  by (induction xs arbitrary: l) auto

lemma backs_nxt [simp]: "backs (upd_nxt h m n) l xs = backs h l xs"
  by (induction xs arbitrary: l) simp_all

lemma seg_cong: "\<forall>m\<in>insert l (Elem ` set xs). h' m = h m \<Longrightarrow> seg h' l xs = seg h l xs"
  by (induction xs arbitrary: l) (simp_all add: nxt_def)

lemma backs_cong: "\<forall>m\<in>Elem ` set xs. h' m = h m \<Longrightarrow> backs h' l xs = backs h l xs"
  by (induction xs arbitrary: l) (simp_all add: bck_def)

lemma seg_alive: "seg h l xs \<Longrightarrow> nxt h (endl l xs) = Some n \<Longrightarrow> m \<in> insert l (Elem ` set xs) \<Longrightarrow> alive h m"
  by (induction xs arbitrary: l) (auto dest: alive_nxt)

section \<open>Queues\<close>

text \<open>
  The queue with head \<open>q\<close> holds \<open>xs\<close>.  \<open>tail\<close>: its head points to the last next pointer;
  \<open>prev\<close>: its elements point back.  The four kinds of \<^verbatim>\<open>queue.h\<close> are the four combinations.
\<close>

definition holds :: "bool \<Rightarrow> bool \<Rightarrow> links \<Rightarrow> nat \<Rightarrow> nat list \<Rightarrow> bool" where
  "holds tail prev h q xs \<longleftrightarrow>
     seg h (Head q) xs \<and> nxt h (endl (Head q) xs) = Some 0 \<and> distinct xs \<and> 0 \<notin> set xs \<and>
     (prev \<longrightarrow> backs h (Head q) xs) \<and> (tail \<longrightarrow> bck h (Head q) = Some (endl (Head q) xs))"

lemma holds_alive:
  "holds tail prev h q xs \<Longrightarrow> alive h (Head q)"
  "holds tail prev h q xs \<Longrightarrow> x \<in> set xs \<Longrightarrow> alive h (Elem x)"
  by (auto simp: holds_def dest: seg_alive)

lemma holds_end: "holds tail prev h q xs \<Longrightarrow> alive h (endl (Head q) xs)"
  by (auto simp: holds_def dest: alive_nxt)

text \<open>The operations change nothing outside the queues they are about.\<close>

definition cells :: "nat \<Rightarrow> nat list \<Rightarrow> loc set" where
  "cells q xs = insert (Head q) (Elem ` set xs)"

definition only :: "loc set \<Rightarrow> links \<Rightarrow> links \<Rightarrow> bool" where
  "only A h h' \<longleftrightarrow> dom h' = dom h \<and> (\<forall>l. l \<notin> A \<longrightarrow> h' l = h l)"

lemma dom_upd [simp]: "dom (upd_nxt h l n) = dom h" "dom (upd_bck h l b) = dom h"
  by (auto simp: upd_nxt_def upd_bck_def split: if_splits)

lemma only_refl [simp]: "only A h h"
  by (simp add: only_def)

lemma only_upd [simp]:
  "l \<in> A \<Longrightarrow> only A h (upd_nxt g l n) = only A h g"
  "l \<in> A \<Longrightarrow> only A h (upd_bck g l b) = only A h g"
  by (auto simp: only_def) (metis upd_other)+

lemma holds_only:
  assumes "holds tail prev h q xs" "only A h h'" "cells q xs \<inter> A = {}"
  shows "holds tail prev h' q xs"
proof -
  have same: "h' m = h m" if "m \<in> cells q xs" for m using assms(2,3) that by (auto simp: only_def)
  have "endl (Head q) xs \<in> cells q xs" using endl_in [of "Head q" xs] by (simp add: cells_def)
  then have "nxt h' (endl (Head q) xs) = nxt h (endl (Head q) xs)" using same by (simp add: nxt_def)
  moreover have "bck h' (Head q) = bck h (Head q)" using same [of "Head q"] by (simp add: bck_def cells_def)
  moreover have "seg h' (Head q) xs = seg h (Head q) xs" "backs h' (Head q) xs = backs h (Head q) xs"
    using same by (auto intro!: seg_cong backs_cong simp: cells_def)
  ultimately show ?thesis using assms(1) by (simp add: holds_def)
qed

section \<open>Families of queues\<close>

definition family :: "bool \<Rightarrow> bool \<Rightarrow> links \<Rightarrow> (nat \<rightharpoonup> nat list) \<Rightarrow> bool" where
  "family tail prev h Q \<longleftrightarrow>
     (\<forall>q xs. Q q = Some xs \<longrightarrow> holds tail prev h q xs) \<and>
     (\<forall>q r xs ys. q \<noteq> r \<longrightarrow> Q q = Some xs \<longrightarrow> Q r = Some ys \<longrightarrow> set xs \<inter> set ys = {})"

definition free_elem :: "loc set \<Rightarrow> (nat \<rightharpoonup> nat list) \<Rightarrow> nat \<Rightarrow> bool" where
  "free_elem A Q x \<longleftrightarrow> x \<noteq> 0 \<and> Elem x \<in> A \<and> (\<forall>q xs. Q q = Some xs \<longrightarrow> x \<notin> set xs)"

lemma family_disjoint:
  "family tail prev h Q \<Longrightarrow> Q q = Some xs \<Longrightarrow> Q r = Some ys \<Longrightarrow> q \<noteq> r \<Longrightarrow> set xs \<inter> set ys = {}"
  by (simp add: family_def)

lemma family_one:
  assumes f: "family tail prev h Q" and o: "only (cells q (xs @ ys)) h h'" and n: "holds tail prev h' q ys"
    and xs: "case Q q of None \<Rightarrow> xs = [] | Some zs \<Rightarrow> xs = zs"
    and ys: "\<forall>x\<in>set ys. x \<in> set xs \<or> free_elem (dom h) Q x"
  shows "family tail prev h' (Q(q \<mapsto> ys))"
proof -
  have dis: "set zs \<inter> (set xs \<union> set ys) = {}" if "Q r = Some zs" "r \<noteq> q" for r zs
  proof -
    have "set zs \<inter> set xs = {}" using f that xs by (cases "Q q") (auto simp: family_def)
    with ys that(1) show ?thesis by (auto simp: free_elem_def)
  qed
  have "holds tail prev h' r zs" if z: "Q r = Some zs" "r \<noteq> q" for r zs
  proof (rule holds_only [OF _ o])
    show "holds tail prev h r zs" using f z(1) by (simp add: family_def)
    show "cells r zs \<inter> cells q (xs @ ys) = {}" using dis [OF z] z(2) by (auto simp: cells_def)
  qed
  moreover have "set zs \<inter> set zs' = {}" if "p \<noteq> p'" "Q p = Some zs" "Q p' = Some zs'" for p p' zs zs'
    by (rule family_disjoint [OF f that(2,3,1)])
  moreover have "set zs \<inter> set ys = {}" if "Q r = Some zs" "r \<noteq> q" for r zs
    using dis [OF that] by blast
  ultimately show ?thesis using n unfolding family_def by (simp add: Int_commute)
qed

lemma family_two:
  assumes f: "family tail prev h Q" and o: "only (cells q xs \<union> cells r ys) h h'"
    and Q: "q \<noteq> r" "Q q = Some xs" "Q r = Some ys"
    and n: "holds tail prev h' q xs'" "holds tail prev h' r ys'"
    and s: "set xs' \<union> set ys' \<subseteq> set xs \<union> set ys" "set xs' \<inter> set ys' = {}"
  shows "family tail prev h' (Q(q \<mapsto> xs', r \<mapsto> ys'))"
proof -
  have dis: "set zs \<inter> (set xs \<union> set ys) = {}" if "Q p = Some zs" "p \<noteq> q" "p \<noteq> r" for p zs
    using family_disjoint [OF f that(1) Q(2) that(2)] family_disjoint [OF f that(1) Q(3) that(3)] by blast
  have "holds tail prev h' p zs" if z: "Q p = Some zs" "p \<noteq> q" "p \<noteq> r" for p zs
  proof (rule holds_only [OF _ o])
    show "holds tail prev h p zs" using f z(1) by (simp add: family_def)
    show "cells p zs \<inter> (cells q xs \<union> cells r ys) = {}" using dis [OF z] z(2,3) by (auto simp: cells_def)
  qed
  moreover have "set zs \<inter> set zs' = {}" if "p \<noteq> p'" "Q p = Some zs" "Q p' = Some zs'" for p p' zs zs'
    using f that by (simp add: family_def)
  moreover have "set zs \<inter> set xs' = {}" "set zs \<inter> set ys' = {}" if "Q p = Some zs" "p \<noteq> q" "p \<noteq> r" for p zs
    using dis [OF that] s(1) by auto
  ultimately show ?thesis
    using n s(2) Q(1) unfolding family_def by (simp add: Int_commute)
qed

section \<open>What the operations promise\<close>

datatype qop =
    Init nat | Insert_head nat nat | Insert_tail nat nat | Insert_after nat nat nat
  | Insert_before nat nat nat | Remove nat nat | Remove_head nat | Concat nat nat | Swap nat nat

text \<open>Where an operation may be used and what it does, over the existing cells \<open>A\<close>.\<close>

inductive qspec :: "loc set \<Rightarrow> (nat \<rightharpoonup> nat list) \<Rightarrow> qop \<Rightarrow> (nat \<rightharpoonup> nat list) \<Rightarrow> bool" for A Q where
  init: "Head q \<in> A \<Longrightarrow> qspec A Q (Init q) (Q(q \<mapsto> []))"
| insert_head: "Q q = Some xs \<Longrightarrow> free_elem A Q x \<Longrightarrow> qspec A Q (Insert_head q x) (Q(q \<mapsto> x # xs))"
| insert_tail: "Q q = Some xs \<Longrightarrow> free_elem A Q x \<Longrightarrow> qspec A Q (Insert_tail q x) (Q(q \<mapsto> xs @ [x]))"
| insert_after: "Q q = Some (us @ y # vs) \<Longrightarrow> free_elem A Q x \<Longrightarrow>
    qspec A Q (Insert_after q y x) (Q(q \<mapsto> us @ y # x # vs))"
| insert_before: "Q q = Some (us @ y # vs) \<Longrightarrow> free_elem A Q x \<Longrightarrow>
    qspec A Q (Insert_before q y x) (Q(q \<mapsto> us @ x # y # vs))"
| remove: "Q q = Some (us @ x # vs) \<Longrightarrow> qspec A Q (Remove q x) (Q(q \<mapsto> us @ vs))"
| remove_head: "Q q = Some (x # xs) \<Longrightarrow> qspec A Q (Remove_head q) (Q(q \<mapsto> xs))"
| concat: "q \<noteq> r \<Longrightarrow> Q q = Some xs \<Longrightarrow> Q r = Some ys \<Longrightarrow>
    qspec A Q (Concat q r) (Q(q \<mapsto> xs @ ys, r \<mapsto> []))"
| swap: "q \<noteq> r \<Longrightarrow> Q q = Some xs \<Longrightarrow> Q r = Some ys \<Longrightarrow> qspec A Q (Swap q r) (Q(q \<mapsto> ys, r \<mapsto> xs))"

inductive_cases qspec_cases: "qspec A Q c Q'"

inductive qspecs :: "loc set \<Rightarrow> (nat \<rightharpoonup> nat list) \<Rightarrow> qop list \<Rightarrow> (nat \<rightharpoonup> nat list) \<Rightarrow> bool" for A where
  nil: "qspecs A Q [] Q"
| cons: "qspec A Q c Q' \<Longrightarrow> qspecs A Q' cs Q'' \<Longrightarrow> qspecs A Q (c # cs) Q''"

text \<open>
  A kind of queue: which of the operations it has, and what its macros do to the queues they are
  about.  The rest of memory, so every other queue, stays as it is.
\<close>

locale queue_macros =
  fixes tail prev :: bool and provided :: "qop \<Rightarrow> bool" and exec :: "links \<Rightarrow> qop \<Rightarrow> links option"
  assumes init_ok: "provided (Init q) \<Longrightarrow> alive h (Head q) \<Longrightarrow>
      \<exists>h'. exec h (Init q) = Some h' \<and> holds tail prev h' q [] \<and> only (cells q []) h h'"
    and head_ok: "provided (Insert_head q x) \<Longrightarrow> holds tail prev h q xs \<Longrightarrow> alive h (Elem x) \<Longrightarrow> x \<noteq> 0 \<Longrightarrow>
      x \<notin> set xs \<Longrightarrow> \<exists>h'. exec h (Insert_head q x) = Some h' \<and> holds tail prev h' q (x # xs) \<and>
        only (cells q (x # xs)) h h'"
    and tail_ok: "provided (Insert_tail q x) \<Longrightarrow> holds tail prev h q xs \<Longrightarrow> alive h (Elem x) \<Longrightarrow> x \<noteq> 0 \<Longrightarrow>
      x \<notin> set xs \<Longrightarrow> \<exists>h'. exec h (Insert_tail q x) = Some h' \<and> holds tail prev h' q (xs @ [x]) \<and>
        only (cells q (xs @ [x])) h h'"
    and after_ok: "provided (Insert_after q y x) \<Longrightarrow> holds tail prev h q (us @ y # vs) \<Longrightarrow> alive h (Elem x) \<Longrightarrow>
      x \<noteq> 0 \<Longrightarrow> x \<notin> set (us @ y # vs) \<Longrightarrow> \<exists>h'. exec h (Insert_after q y x) = Some h' \<and>
        holds tail prev h' q (us @ y # x # vs) \<and> only (cells q (us @ y # x # vs)) h h'"
    and before_ok: "provided (Insert_before q y x) \<Longrightarrow> holds tail prev h q (us @ y # vs) \<Longrightarrow> alive h (Elem x) \<Longrightarrow>
      x \<noteq> 0 \<Longrightarrow> x \<notin> set (us @ y # vs) \<Longrightarrow> \<exists>h'. exec h (Insert_before q y x) = Some h' \<and>
        holds tail prev h' q (us @ x # y # vs) \<and> only (cells q (us @ x # y # vs)) h h'"
    and remove_ok: "provided (Remove q x) \<Longrightarrow> holds tail prev h q (us @ x # vs) \<Longrightarrow>
      \<exists>h'. exec h (Remove q x) = Some h' \<and> holds tail prev h' q (us @ vs) \<and> only (cells q (us @ x # vs)) h h'"
    and remove_head_ok: "provided (Remove_head q) \<Longrightarrow> holds tail prev h q (x # xs) \<Longrightarrow>
      \<exists>h'. exec h (Remove_head q) = Some h' \<and> holds tail prev h' q xs \<and> only (cells q (x # xs)) h h'"
    and concat_ok: "provided (Concat q r) \<Longrightarrow> holds tail prev h q xs \<Longrightarrow> holds tail prev h r ys \<Longrightarrow> q \<noteq> r \<Longrightarrow>
      set xs \<inter> set ys = {} \<Longrightarrow> \<exists>h'. exec h (Concat q r) = Some h' \<and> holds tail prev h' q (xs @ ys) \<and>
        holds tail prev h' r [] \<and> only (cells q xs \<union> cells r ys) h h'"
    and swap_ok: "provided (Swap q r) \<Longrightarrow> holds tail prev h q xs \<Longrightarrow> holds tail prev h r ys \<Longrightarrow> q \<noteq> r \<Longrightarrow>
      set xs \<inter> set ys = {} \<Longrightarrow> \<exists>h'. exec h (Swap q r) = Some h' \<and> holds tail prev h' q ys \<and>
        holds tail prev h' r xs \<and> only (cells q xs \<union> cells r ys) h h'"
begin

lemma step_one:
  assumes f: "family tail prev h Q" and xs: "case Q q of None \<Rightarrow> xs = [] | Some zs \<Rightarrow> xs = zs"
    and ys: "\<forall>x\<in>set ys. x \<in> set xs \<or> free_elem (dom h) Q x"
    and e: "\<exists>h'. exec h c = Some h' \<and> holds tail prev h' q ys \<and> only A h h'"
    and A: "A \<subseteq> cells q (xs @ ys)"
  shows "\<exists>h'. exec h c = Some h' \<and> family tail prev h' (Q(q \<mapsto> ys)) \<and> dom h' = dom h"
proof -
  obtain h' where h': "exec h c = Some h'" "holds tail prev h' q ys" "only A h h'" using e by blast
  then have "only (cells q (xs @ ys)) h h'" using A by (auto simp: only_def)
  from family_one [OF f this h'(2) xs ys] h' show ?thesis by (auto simp: only_def)
qed

lemma step_two:
  assumes f: "family tail prev h Q" and Q: "q \<noteq> r" "Q q = Some xs" "Q r = Some ys"
    and s: "set xs' \<union> set ys' \<subseteq> set xs \<union> set ys" "set xs' \<inter> set ys' = {}"
    and e: "\<exists>h'. exec h c = Some h' \<and> holds tail prev h' q xs' \<and> holds tail prev h' r ys' \<and>
      only (cells q xs \<union> cells r ys) h h'"
  shows "\<exists>h'. exec h c = Some h' \<and> family tail prev h' (Q(q \<mapsto> xs', r \<mapsto> ys')) \<and> dom h' = dom h"
  using e family_two [OF f _ Q _ _ s] by (auto simp: only_def)

lemma exec_step:
  assumes f: "family tail prev h Q" and c: "qspec (dom h) Q c Q'" and p: "provided c"
  shows "\<exists>h'. exec h c = Some h' \<and> family tail prev h' Q' \<and> dom h' = dom h"
proof -
  have free: "alive h (Elem x) \<and> x \<noteq> 0 \<and> x \<notin> set xs" if "free_elem (dom h) Q x" "Q q = Some xs" for q x xs
    using that by (auto simp: free_elem_def alive_def)
  have hold: "holds tail prev h q xs" if "Q q = Some xs" for q xs using f that by (simp add: family_def)
  from c show ?thesis
  proof (cases rule: qspec.cases)
    case (init q)
    then show ?thesis using init_ok [of q h] p
      by (auto intro!: step_one [OF f, where xs = "case Q q of None \<Rightarrow> [] | Some zs \<Rightarrow> zs"]
          simp: cells_def alive_def split: option.split)
  next
    case (insert_head q xs x)
    then have i: "provided c" "Q q = Some (xs)" "free_elem (dom h) Q x" using p by simp_all
    from free [OF i(3,2)] have fr: "alive h (Elem x)" "x \<noteq> 0" "x \<notin> set (xs)" by simp_all
    note e = head_ok [OF i(1) [unfolded insert_head] hold [OF i(2)] fr]
    show ?thesis unfolding insert_head by (rule step_one [OF f _ _ e]) (use i in \<open>auto simp: cells_def\<close>)
  next
    case (insert_tail q xs x)
    then have i: "provided c" "Q q = Some (xs)" "free_elem (dom h) Q x" using p by simp_all
    from free [OF i(3,2)] have fr: "alive h (Elem x)" "x \<noteq> 0" "x \<notin> set (xs)" by simp_all
    note e = tail_ok [OF i(1) [unfolded insert_tail] hold [OF i(2)] fr]
    show ?thesis unfolding insert_tail by (rule step_one [OF f _ _ e]) (use i in \<open>auto simp: cells_def\<close>)
  next
    case (insert_after q us y vs x)
    then have i: "provided c" "Q q = Some (us @ y # vs)" "free_elem (dom h) Q x" using p by simp_all
    from free [OF i(3,2)] have fr: "alive h (Elem x)" "x \<noteq> 0" "x \<notin> set (us @ y # vs)" by simp_all
    note e = after_ok [OF i(1) [unfolded insert_after] hold [OF i(2)] fr]
    show ?thesis unfolding insert_after by (rule step_one [OF f _ _ e]) (use i in \<open>auto simp: cells_def\<close>)
  next
    case (insert_before q us y vs x)
    then have i: "provided c" "Q q = Some (us @ y # vs)" "free_elem (dom h) Q x" using p by simp_all
    from free [OF i(3,2)] have fr: "alive h (Elem x)" "x \<noteq> 0" "x \<notin> set (us @ y # vs)" by simp_all
    note e = before_ok [OF i(1) [unfolded insert_before] hold [OF i(2)] fr]
    show ?thesis unfolding insert_before by (rule step_one [OF f _ _ e]) (use i in \<open>auto simp: cells_def\<close>)
  next
    case (remove q us x vs)
    then have i: "provided c" "Q q = Some (us @ x # vs)" using p by simp_all
    note e = remove_ok [OF i(1) [unfolded remove] hold [OF i(2)]]
    show ?thesis unfolding remove by (rule step_one [OF f _ _ e]) (use i in \<open>auto simp: cells_def\<close>)
  next
    case (remove_head q x xs)
    then have i: "provided c" "Q q = Some (x # xs)" using p by simp_all
    note e = remove_head_ok [OF i(1) [unfolded remove_head] hold [OF i(2)]]
    show ?thesis unfolding remove_head by (rule step_one [OF f _ _ e]) (use i in \<open>auto simp: cells_def\<close>)
  next
    case (concat q r xs ys)
    then have i: "provided c" "Q q = Some xs" "Q r = Some ys" "q \<noteq> r" using p by simp_all
    have d: "set xs \<inter> set ys = {}" by (rule family_disjoint [OF f i(2-4)])
    note e = concat_ok [OF i(1) [unfolded concat] hold [OF i(2)] hold [OF i(3)] i(4) d]
    show ?thesis unfolding concat
      by (rule step_two [OF f i(4,2,3) _ _ e]) (use d in \<open>auto\<close>)
  next
    case (swap q r xs ys)
    then have i: "provided c" "Q q = Some xs" "Q r = Some ys" "q \<noteq> r" using p by simp_all
    have d: "set xs \<inter> set ys = {}" by (rule family_disjoint [OF f i(2-4)])
    note e = swap_ok [OF i(1) [unfolded swap] hold [OF i(2)] hold [OF i(3)] i(4) d]
    show ?thesis unfolding swap
      by (rule step_two [OF f i(4,2,3) _ _ e]) (use d in \<open>auto\<close>)
  qed
qed

lemma exec_run:
  "qspecs A Q cs Q' \<Longrightarrow> family tail prev h Q \<Longrightarrow> A = dom h \<Longrightarrow> \<forall>c\<in>set cs. provided c \<Longrightarrow>
     \<exists>h'. run_adds exec h cs = Some h' \<and> family tail prev h' Q' \<and> dom h' = dom h"
proof (induction arbitrary: h rule: qspecs.induct)
  case (nil Q)
  then show ?case by simp
next
  case (cons Q c Q' cs Q'')
  have "qspec (dom h) Q c Q'" "provided c" using cons.hyps(1) cons.prems by simp_all
  from exec_step [OF cons.prems(1) this] obtain h1 where "exec h c = Some h1" "family tail prev h1 Q'"
    "dom h1 = dom h" by blast
  with cons.IH [of h1] cons.prems(2,3) show ?case by auto
qed

end

lemma family_empty: "family tail prev h Map.empty"
  by (simp add: family_def)

section \<open>Walking a queue\<close>

text \<open>
  The loops of the \<open>FOREACH\<close> macros from the element \<open>var\<close> on.  \<open>heap\<close> is the memory in the state
  the body works on; the safe form reads the next element before the body runs.
\<close>

partial_function (option) walk ::
  "('s \<Rightarrow> nat \<Rightarrow> nat option) \<Rightarrow> (nat \<Rightarrow> 's \<Rightarrow> 's option) \<Rightarrow> nat \<Rightarrow> 's \<Rightarrow> 's option" where
  "walk succ body var s =
     (if var = 0 then Some s
      else do {
        s \<leftarrow> body var s;
        n \<leftarrow> succ s var;
        walk succ body n s
      })"

partial_function (option) walk_safe ::
  "('s \<Rightarrow> nat \<Rightarrow> nat option) \<Rightarrow> (nat \<Rightarrow> 's \<Rightarrow> 's option) \<Rightarrow> nat \<Rightarrow> 's \<Rightarrow> 's option" where
  "walk_safe succ body var s =
     (if var = 0 then Some s
      else do {
        tvar \<leftarrow> succ s var;
        s \<leftarrow> body var s;
        walk_safe succ body tvar s
      })"

text \<open>The elements that \<open>succ\<close> leads through from \<open>v\<close> on.\<close>

fun follows :: "(nat \<Rightarrow> nat option) \<Rightarrow> nat \<Rightarrow> nat list \<Rightarrow> bool" where
  "follows nx v [] \<longleftrightarrow> v = 0"
| "follows nx v (x # xs) \<longleftrightarrow> v = x \<and> x \<noteq> 0 \<and> (case nx x of None \<Rightarrow> False | Some n \<Rightarrow> follows nx n xs)"

text \<open>A body that leaves the links alone is run on each element in turn.\<close>

lemma walk_run:
  assumes "\<And>x s s'. body x s = Some s' \<Longrightarrow> succ s' = succ s"
  shows "follows (succ s) v xs \<Longrightarrow> walk succ body v s = run_adds (\<lambda>s x. body x s) s xs"
proof (induction xs arbitrary: v s)
  case Nil
  then show ?case by (subst walk.simps) simp
next
  case (Cons x xs)
  then obtain n where n: "v = x" "x \<noteq> 0" "succ s x = Some n" "follows (succ s) n xs"
    by (auto split: option.splits)
  show ?case
  proof (cases "body x s")
    case None
    with n show ?thesis by (subst walk.simps) simp
  next
    case (Some s')
    then have "succ s' = succ s" by (rule assms)
    with Some n Cons.IH [of s' n] show ?thesis by (subst walk.simps) simp
  qed
qed

text \<open>The safe form also allows a body that takes its element out of the queue: \<open>R\<close> is kept.\<close>

lemma walk_safe_run:
  assumes nil: "\<And>s v. R s v [] \<Longrightarrow> v = 0"
    and cons: "\<And>s v x xs. R s v (x # xs) \<Longrightarrow>
      v = x \<and> x \<noteq> 0 \<and> (\<exists>n. succ s x = Some n \<and> (\<forall>s'. body x s = Some s' \<longrightarrow> R s' n xs))"
  shows "R s v xs \<Longrightarrow> walk_safe succ body v s = run_adds (\<lambda>s x. body x s) s xs"
proof (induction xs arbitrary: v s)
  case Nil
  with nil have "v = 0" by blast
  then show ?case by (subst walk_safe.simps) simp
next
  case (Cons x xs)
  obtain n where "v = x" "x \<noteq> 0" "succ s x = Some n" "\<forall>s'. body x s = Some s' \<longrightarrow> R s' n xs"
    using cons [OF Cons.prems] by blast
  with Cons.IH show ?case by (subst walk_safe.simps) (cases "body x s"; simp)
qed

lemma seg_follows:
  assumes "seg h l xs" "nxt h (endl l xs) = Some 0" "0 \<notin> set xs"
  shows "\<exists>v. nxt h l = Some v \<and> follows (\<lambda>x. nxt h (Elem x)) v xs"
  using assms
proof (induction xs arbitrary: l)
  case (Cons x xs)
  then obtain v where "nxt h (Elem x) = Some v" "follows (\<lambda>x. nxt h (Elem x)) v xs" by auto
  with Cons.prems show ?case by auto
qed simp

lemma holds_follows:
  assumes "holds tail prev h q xs"
  shows "\<exists>v. nxt h (Head q) = Some v \<and> follows (\<lambda>x. nxt h (Elem x)) v xs"
  using assms by (auto simp: holds_def intro!: seg_follows)

lemma follows_suffix:
  assumes "holds tail prev h q (us @ xs)"
  shows "follows (\<lambda>x. nxt h (Elem x)) (case xs of [] \<Rightarrow> 0 | x # _ \<Rightarrow> x) xs"
proof -
  have "\<exists>v. nxt h (endl (Head q) us) = Some v \<and> follows (\<lambda>x. nxt h (Elem x)) v xs"
    using assms by (auto simp: holds_def intro!: seg_follows)
  then show ?thesis by (cases xs) auto
qed

end
