(* ===== verification/Slist_Macros.thy ===== *)
theory Slist_Macros
  imports Queue_Links
begin

text \<open>
  The macros of the singly-linked lists of \<^verbatim>\<open>server/queue.h\<close> that the server does not use, over the cells of
  \<open>Queue_Links\<close>.  Those it uses are in \<open>Slist\<close>, over its own nodes.
\<close>

section \<open>The macros\<close>

text \<open>The initialiser of a head, whose second pointer does not exist in the source.\<close>

definition SLIST_HEAD_INITIALIZER :: "loc \<Rightarrow> link" where
  "SLIST_HEAD_INITIALIZER unused = \<lparr>lk_ptr = 0, lk_back = unused\<rparr>"

text \<open>\<open>SLIST_FIRST\<close>, \<open>SLIST_NEXT\<close> and \<open>SLIST_INIT\<close> on these cells.\<close>

abbreviation first_of :: "links \<Rightarrow> nat \<Rightarrow> nat option" where
  "first_of h head \<equiv> nxt h (Head head)"

abbreviation next_of :: "links \<Rightarrow> nat \<Rightarrow> nat option" where
  "next_of h elm \<equiv> nxt h (Elem elm)"

abbreviation init_of :: "links \<Rightarrow> nat \<Rightarrow> links option" where
  "init_of h head \<equiv> put_nxt h (Head head) 0"

definition SLIST_INSERT_AFTER :: "links \<Rightarrow> nat \<Rightarrow> nat \<Rightarrow> links option" where
  "SLIST_INSERT_AFTER h slistelm elm =
     do {
       n \<leftarrow> next_of h slistelm;
       h \<leftarrow> put_nxt h (Elem elm) n;
       put_nxt h (Elem slistelm) elm
     }"

text \<open>The loop of \<open>SLIST_CONCAT\<close> that looks for the last element.\<close>

partial_function (option) slist_last :: "links \<Rightarrow> nat \<Rightarrow> nat option" where
  "slist_last h curelm =
     do {
       n \<leftarrow> next_of h curelm;
       if n \<noteq> 0 then slist_last h n else Some curelm
     }"

definition SLIST_CONCAT :: "links \<Rightarrow> nat \<Rightarrow> nat \<Rightarrow> links option" where
  "SLIST_CONCAT h head1 head2 =
     do {
       curelm \<leftarrow> first_of h head1;
       f \<leftarrow> first_of h head2;
       if curelm = 0
       then do {
         h \<leftarrow> put_nxt h (Head head1) f;
         if f \<noteq> 0 then init_of h head2 else Some h
       }
       else if f \<noteq> 0
       then do {
         curelm \<leftarrow> slist_last h curelm;
         h \<leftarrow> put_nxt h (Elem curelm) f;
         init_of h head2
       }
       else Some h
     }"

definition SLIST_SWAP :: "links \<Rightarrow> nat \<Rightarrow> nat \<Rightarrow> links option" where
  "SLIST_SWAP h head1 head2 =
     do {
       swap_first \<leftarrow> first_of h head1;
       n \<leftarrow> first_of h head2;
       h \<leftarrow> put_nxt h (Head head1) n;
       put_nxt h (Head head2) swap_first
     }"

text \<open>The loops; \<open>heap\<close> is the memory in the state the body works on.\<close>

definition SLIST_FOREACH ::
  "('s \<Rightarrow> links) \<Rightarrow> (nat \<Rightarrow> 's \<Rightarrow> 's option) \<Rightarrow> nat \<Rightarrow> 's \<Rightarrow> 's option" where
  "SLIST_FOREACH heap body head s =
     do {
       v \<leftarrow> first_of (heap s) head;
       walk (\<lambda>s. next_of (heap s)) body v s
     }"

definition SLIST_FOREACH_FROM ::
  "('s \<Rightarrow> links) \<Rightarrow> (nat \<Rightarrow> 's \<Rightarrow> 's option) \<Rightarrow> nat \<Rightarrow> nat \<Rightarrow> 's \<Rightarrow> 's option" where
  "SLIST_FOREACH_FROM heap body var head s =
     do {
       v \<leftarrow> (if var \<noteq> 0 then Some var else first_of (heap s) head);
       walk (\<lambda>s. next_of (heap s)) body v s
     }"

definition SLIST_FOREACH_SAFE ::
  "('s \<Rightarrow> links) \<Rightarrow> (nat \<Rightarrow> 's \<Rightarrow> 's option) \<Rightarrow> nat \<Rightarrow> 's \<Rightarrow> 's option" where
  "SLIST_FOREACH_SAFE heap body head s =
     do {
       v \<leftarrow> first_of (heap s) head;
       walk_safe (\<lambda>s. next_of (heap s)) body v s
     }"

definition SLIST_FOREACH_FROM_SAFE ::
  "('s \<Rightarrow> links) \<Rightarrow> (nat \<Rightarrow> 's \<Rightarrow> 's option) \<Rightarrow> nat \<Rightarrow> nat \<Rightarrow> 's \<Rightarrow> 's option" where
  "SLIST_FOREACH_FROM_SAFE heap body var head s =
     do {
       v \<leftarrow> (if var \<noteq> 0 then Some var else first_of (heap s) head);
       walk_safe (\<lambda>s. next_of (heap s)) body v s
     }"

text \<open>The loop over the pointers to the elements: the body gets the element and where it is pointed to.\<close>

partial_function (option) walk_ptr ::
  "('s \<Rightarrow> links) \<Rightarrow> (nat \<Rightarrow> loc \<Rightarrow> 's \<Rightarrow> 's option) \<Rightarrow> loc \<Rightarrow> 's \<Rightarrow> 's option" where
  "walk_ptr heap body varp s =
     do {
       var \<leftarrow> nxt (heap s) varp;
       if var = 0 then Some s
       else do {
         s \<leftarrow> body var varp s;
         walk_ptr heap body (Elem var) s
       }
     }"

definition SLIST_FOREACH_PREVPTR ::
  "('s \<Rightarrow> links) \<Rightarrow> (nat \<Rightarrow> loc \<Rightarrow> 's \<Rightarrow> 's option) \<Rightarrow> nat \<Rightarrow> 's \<Rightarrow> 's option" where
  "SLIST_FOREACH_PREVPTR heap body head s = walk_ptr heap body (Head head) s"

text \<open>
  The calls of the macros by name; the other operations are those of \<open>Slist\<close> on these cells, with
  which a list can be built.
\<close>

fun slist_exec :: "links \<Rightarrow> qop \<Rightarrow> links option" where
  "slist_exec h (Init q) = init_of h q"
| "slist_exec h (Insert_head q x) =
     do {
       n \<leftarrow> first_of h q;
       h \<leftarrow> put_nxt h (Elem x) n;
       put_nxt h (Head q) x
     }"
| "slist_exec h (Insert_tail q x) = None"
| "slist_exec h (Insert_after q y x) = SLIST_INSERT_AFTER h y x"
| "slist_exec h (Insert_before q y x) = None"
| "slist_exec h (Remove q x) = None"
| "slist_exec h (Remove_head q) =
     do {
       f \<leftarrow> first_of h q;
       n \<leftarrow> next_of h f;
       put_nxt h (Head q) n
     }"
| "slist_exec h (Concat q r) = SLIST_CONCAT h q r"
| "slist_exec h (Swap q r) = SLIST_SWAP h q r"

fun slist_provided :: "qop \<Rightarrow> bool" where
  "slist_provided (Insert_tail q x) = False"
| "slist_provided (Insert_before q y x) = False"
| "slist_provided (Remove q x) = False"
| "slist_provided _ = True"

section \<open>What they do to a list\<close>

abbreviation slist :: "links \<Rightarrow> nat \<Rightarrow> nat list \<Rightarrow> bool" where
  "slist \<equiv> holds False False"

lemma slist_init: "alive h (Head q) \<Longrightarrow> \<exists>h'. slist_exec h (Init q) = Some h' \<and> slist h' q [] \<and> only (cells q []) h h'"
  by (simp add: holds_def cells_def)

lemma slist_insert_head:
  assumes q: "slist h q xs" and x: "alive h (Elem x)" "x \<noteq> 0" "x \<notin> set xs"
  shows "\<exists>h'. slist_exec h (Insert_head q x) = Some h' \<and> slist h' q (x # xs) \<and> only (cells q (x # xs)) h h'"
  using q x holds_alive [OF q] by (cases xs) (auto simp: holds_def cells_def)

lemma slist_insert_after:
  assumes q: "slist h q (us @ y # vs)" and x: "alive h (Elem x)" "x \<noteq> 0" "x \<notin> set (us @ y # vs)"
  shows "\<exists>h'. SLIST_INSERT_AFTER h y x = Some h' \<and> slist h' q (us @ y # x # vs) \<and>
     only (cells q (us @ y # x # vs)) h h'"
  using q x holds_alive [OF q] by (cases vs) (auto simp: holds_def SLIST_INSERT_AFTER_def cells_def)

lemma slist_remove_head:
  assumes q: "slist h q (x # xs)"
  shows "\<exists>h'. slist_exec h (Remove_head q) = Some h' \<and> slist h' q xs \<and> only (cells q (x # xs)) h h'"
  using q holds_alive [OF q] by (cases xs) (auto simp: holds_def cells_def)

lemma slist_last_seg:
  "seg h (Elem u) us \<Longrightarrow> nxt h (endl (Elem u) us) = Some 0 \<Longrightarrow> 0 \<notin> set us \<Longrightarrow>
     slist_last h u = Some (last (u # us))"
proof (induction us arbitrary: u)
  case Nil
  then show ?case by (subst slist_last.simps) simp
next
  case (Cons v us)
  then show ?case by (subst slist_last.simps) simp
qed

lemma slist_last_holds:
  assumes "slist h q (us @ [b])"
  shows "\<exists>f. nxt h (Head q) = Some f \<and> f \<noteq> 0 \<and> slist_last h f = Some b"
proof -
  obtain f ws where "us @ [b] = f # ws" by (cases us) auto
  moreover from this assms have "nxt h (Head q) = Some f" "f \<noteq> 0" "slist_last h f = Some (last (f # ws))"
    using slist_last_seg [of h f ws] by (simp_all add: holds_def)
  ultimately show ?thesis by (metis last_snoc)
qed

lemma slist_concat:
  assumes q: "slist h q xs" and r: "slist h r ys" and d: "q \<noteq> r" "set xs \<inter> set ys = {}"
  shows "\<exists>h'. SLIST_CONCAT h q r = Some h' \<and> slist h' q (xs @ ys) \<and> slist h' r [] \<and>
     only (cells q xs \<union> cells r ys) h h'"
proof (cases xs rule: rev_cases)
  case Nil
  then show ?thesis
    using q r d holds_alive [OF q] holds_alive [OF r]
    by (cases ys) (auto simp: holds_def SLIST_CONCAT_def cells_def)
next
  case (snoc ws b)
  obtain f where f: "nxt h (Head q) = Some f" "f \<noteq> 0" "slist_last h f = Some b"
    using slist_last_holds [of h q ws b] q snoc by auto
  with snoc show ?thesis
    using q r d holds_alive [OF q] holds_alive [OF r]
    by (cases ys) (auto simp: holds_def SLIST_CONCAT_def cells_def)
qed

lemma slist_swap:
  assumes q: "slist h q xs" and r: "slist h r ys" and d: "q \<noteq> r" "set xs \<inter> set ys = {}"
  shows "\<exists>h'. SLIST_SWAP h q r = Some h' \<and> slist h' q ys \<and> slist h' r xs \<and>
     only (cells q xs \<union> cells r ys) h h'"
  using q r d holds_alive [OF q] holds_alive [OF r]
  by (cases ys; cases xs) (auto simp: holds_def SLIST_SWAP_def cells_def)

lemma slist_initializer: "h (Head q) = Some (SLIST_HEAD_INITIALIZER b) \<Longrightarrow> slist h q []"
  by (simp add: holds_def nxt_def SLIST_HEAD_INITIALIZER_def)

interpretation slist: queue_macros False False slist_provided slist_exec
  by unfold_locales
    (simp_all add: slist_init slist_insert_head slist_insert_after slist_remove_head slist_concat slist_swap
      del: append_Cons slist_exec.simps(1,2,7))

section \<open>Walking a list\<close>

lemma slist_foreach:
  assumes q: "slist (heap s) q xs" and body: "\<And>x s s'. body x s = Some s' \<Longrightarrow> heap s' = heap s"
  shows "SLIST_FOREACH heap body q s = run_adds (\<lambda>s x. body x s) s xs"
proof -
  obtain v where v: "nxt (heap s) (Head q) = Some v" "follows (next_of (heap s)) v xs"
    using holds_follows [OF q] by blast
  have "walk (\<lambda>s. next_of (heap s)) body v s = run_adds (\<lambda>s x. body x s) s xs"
    using body v(2) by (intro walk_run [where succ = "\<lambda>s. next_of (heap s)"]) simp_all
  with v(1) show ?thesis by (simp add: SLIST_FOREACH_def)
qed

text \<open>The pointer the loop over pointers is at when it visits an element.\<close>

fun pointers :: "loc \<Rightarrow> nat list \<Rightarrow> (nat \<times> loc) list" where
  "pointers l [] = []"
| "pointers l (x # xs) = (x, l) # pointers (Elem x) xs"

lemma walk_ptr_run:
  assumes body: "\<And>x l s s'. body x l s = Some s' \<Longrightarrow> heap s' = heap s"
  shows "seg (heap s) l xs \<Longrightarrow> nxt (heap s) (endl l xs) = Some 0 \<Longrightarrow> 0 \<notin> set xs \<Longrightarrow>
     walk_ptr heap body l s = run_adds (\<lambda>s (x, l). body x l s) s (pointers l xs)"
proof (induction xs arbitrary: l s)
  case Nil
  then show ?case by (subst walk_ptr.simps) simp
next
  case (Cons x xs)
  show ?case
  proof (cases "body x l s")
    case None
    with Cons.prems show ?thesis by (subst walk_ptr.simps) simp
  next
    case (Some s')
    then have "heap s' = heap s" by (rule body)
    with Some Cons.IH [of s' "Elem x"] Cons.prems show ?thesis by (subst walk_ptr.simps) simp
  qed
qed

lemma slist_foreach_prevptr:
  assumes "slist (heap s) q xs" "\<And>x l s s'. body x l s = Some s' \<Longrightarrow> heap s' = heap s"
  shows "SLIST_FOREACH_PREVPTR heap body q s = run_adds (\<lambda>s (x, l). body x l s) s (pointers (Head q) xs)"
  using assms walk_ptr_run [of body heap s "Head q" xs] by (simp add: SLIST_FOREACH_PREVPTR_def holds_def)

end
