(* ===== verification/Stailq.thy ===== *)
theory Stailq
  imports Queue_Links
begin

text \<open>
  The singly-linked tail queues of \<^verbatim>\<open>server/queue.h\<close>: elements point to the next one only, the
  head to the first element and to the last next pointer.
\<close>

section \<open>The macros\<close>

text \<open>The initialiser of a head.\<close>

definition STAILQ_HEAD_INITIALIZER :: "nat \<Rightarrow> link" where
  "STAILQ_HEAD_INITIALIZER head = \<lparr>lk_ptr = 0, lk_back = Head head\<rparr>"

definition STAILQ_INIT :: "links \<Rightarrow> nat \<Rightarrow> links option" where
  "STAILQ_INIT h head =
     do {
       h \<leftarrow> put_nxt h (Head head) 0;
       put_bck h (Head head) (Head head)
     }"

definition STAILQ_FIRST :: "links \<Rightarrow> nat \<Rightarrow> nat option" where
  "STAILQ_FIRST h head = nxt h (Head head)"

definition STAILQ_EMPTY :: "links \<Rightarrow> nat \<Rightarrow> bool option" where
  "STAILQ_EMPTY h head = map_option (\<lambda>n. n = 0) (nxt h (Head head))"

definition STAILQ_NEXT :: "links \<Rightarrow> nat \<Rightarrow> nat option" where
  "STAILQ_NEXT h elm = nxt h (Elem elm)"

text \<open>\<open>__containerof\<close>: the element whose next pointer the address is; of another address it is nothing.\<close>

definition STAILQ_LAST :: "links \<Rightarrow> nat \<Rightarrow> nat option" where
  "STAILQ_LAST h head =
     do {
       empty \<leftarrow> STAILQ_EMPTY h head;
       if empty then Some 0
       else do {
         l \<leftarrow> bck h (Head head);
         (case l of Head _ \<Rightarrow> None | Elem e \<Rightarrow> Some e)
       }
     }"

definition STAILQ_INSERT_HEAD :: "links \<Rightarrow> nat \<Rightarrow> nat \<Rightarrow> links option" where
  "STAILQ_INSERT_HEAD h head elm =
     do {
       n \<leftarrow> STAILQ_FIRST h head;
       h \<leftarrow> put_nxt h (Elem elm) n;
       h \<leftarrow> (if n = 0 then put_bck h (Head head) (Elem elm) else Some h);
       put_nxt h (Head head) elm
     }"

definition STAILQ_INSERT_TAIL :: "links \<Rightarrow> nat \<Rightarrow> nat \<Rightarrow> links option" where
  "STAILQ_INSERT_TAIL h head elm =
     do {
       h \<leftarrow> put_nxt h (Elem elm) 0;
       l \<leftarrow> bck h (Head head);
       h \<leftarrow> put_nxt h l elm;
       put_bck h (Head head) (Elem elm)
     }"

definition STAILQ_INSERT_AFTER :: "links \<Rightarrow> nat \<Rightarrow> nat \<Rightarrow> nat \<Rightarrow> links option" where
  "STAILQ_INSERT_AFTER h head tqelm elm =
     do {
       n \<leftarrow> STAILQ_NEXT h tqelm;
       h \<leftarrow> put_nxt h (Elem elm) n;
       h \<leftarrow> (if n = 0 then put_bck h (Head head) (Elem elm) else Some h);
       put_nxt h (Elem tqelm) elm
     }"

definition STAILQ_REMOVE_HEAD :: "links \<Rightarrow> nat \<Rightarrow> links option" where
  "STAILQ_REMOVE_HEAD h head =
     do {
       f \<leftarrow> STAILQ_FIRST h head;
       n \<leftarrow> STAILQ_NEXT h f;
       h \<leftarrow> put_nxt h (Head head) n;
       if n = 0 then put_bck h (Head head) (Head head) else Some h
     }"

definition STAILQ_REMOVE_AFTER :: "links \<Rightarrow> nat \<Rightarrow> nat \<Rightarrow> links option" where
  "STAILQ_REMOVE_AFTER h head elm =
     do {
       n \<leftarrow> STAILQ_NEXT h elm;
       n \<leftarrow> STAILQ_NEXT h n;
       h \<leftarrow> put_nxt h (Elem elm) n;
       if n = 0 then put_bck h (Head head) (Elem elm) else Some h
     }"

text \<open>The loop of \<open>STAILQ_REMOVE\<close> that looks for the predecessor.\<close>

partial_function (option) stailq_find :: "links \<Rightarrow> nat \<Rightarrow> nat \<Rightarrow> nat option" where
  "stailq_find h curelm elm =
     do {
       n \<leftarrow> STAILQ_NEXT h curelm;
       if n = elm then Some curelm else stailq_find h n elm
     }"

definition STAILQ_REMOVE :: "links \<Rightarrow> nat \<Rightarrow> nat \<Rightarrow> links option" where
  "STAILQ_REMOVE h head elm =
     do {
       f \<leftarrow> STAILQ_FIRST h head;
       if f = elm then STAILQ_REMOVE_HEAD h head
       else do {
         curelm \<leftarrow> stailq_find h f elm;
         STAILQ_REMOVE_AFTER h head curelm
       }
     }"

definition STAILQ_CONCAT :: "links \<Rightarrow> nat \<Rightarrow> nat \<Rightarrow> links option" where
  "STAILQ_CONCAT h head1 head2 =
     do {
       empty2 \<leftarrow> STAILQ_EMPTY h head2;
       if empty2 then Some h
       else do {
         l \<leftarrow> bck h (Head head1);
         n \<leftarrow> STAILQ_FIRST h head2;
         h \<leftarrow> put_nxt h l n;
         l \<leftarrow> bck h (Head head2);
         h \<leftarrow> put_bck h (Head head1) l;
         STAILQ_INIT h head2
       }
     }"

text \<open>The end of \<open>STAILQ_SWAP\<close> for one head: an empty head points to itself.\<close>

definition stailq_relink :: "links \<Rightarrow> nat \<Rightarrow> links option" where
  "stailq_relink h head =
     do {
       empty \<leftarrow> STAILQ_EMPTY h head;
       if empty then put_bck h (Head head) (Head head) else Some h
     }"

definition STAILQ_SWAP :: "links \<Rightarrow> nat \<Rightarrow> nat \<Rightarrow> links option" where
  "STAILQ_SWAP h head1 head2 =
     do {
       swap_first \<leftarrow> STAILQ_FIRST h head1;
       swap_last \<leftarrow> bck h (Head head1);
       n \<leftarrow> STAILQ_FIRST h head2;
       h \<leftarrow> put_nxt h (Head head1) n;
       l \<leftarrow> bck h (Head head2);
       h \<leftarrow> put_bck h (Head head1) l;
       h \<leftarrow> put_nxt h (Head head2) swap_first;
       h \<leftarrow> put_bck h (Head head2) swap_last;
       h \<leftarrow> stailq_relink h head1;
       stailq_relink h head2
     }"

text \<open>The loops; \<open>heap\<close> is the memory in the state the body works on.\<close>

definition STAILQ_FOREACH ::
  "('s \<Rightarrow> links) \<Rightarrow> (nat \<Rightarrow> 's \<Rightarrow> 's option) \<Rightarrow> nat \<Rightarrow> 's \<Rightarrow> 's option" where
  "STAILQ_FOREACH heap body head s =
     do {
       v \<leftarrow> STAILQ_FIRST (heap s) head;
       walk (\<lambda>s. STAILQ_NEXT (heap s)) body v s
     }"

definition STAILQ_FOREACH_FROM ::
  "('s \<Rightarrow> links) \<Rightarrow> (nat \<Rightarrow> 's \<Rightarrow> 's option) \<Rightarrow> nat \<Rightarrow> nat \<Rightarrow> 's \<Rightarrow> 's option" where
  "STAILQ_FOREACH_FROM heap body var head s =
     do {
       v \<leftarrow> (if var \<noteq> 0 then Some var else STAILQ_FIRST (heap s) head);
       walk (\<lambda>s. STAILQ_NEXT (heap s)) body v s
     }"

definition STAILQ_FOREACH_SAFE ::
  "('s \<Rightarrow> links) \<Rightarrow> (nat \<Rightarrow> 's \<Rightarrow> 's option) \<Rightarrow> nat \<Rightarrow> 's \<Rightarrow> 's option" where
  "STAILQ_FOREACH_SAFE heap body head s =
     do {
       v \<leftarrow> STAILQ_FIRST (heap s) head;
       walk_safe (\<lambda>s. STAILQ_NEXT (heap s)) body v s
     }"

definition STAILQ_FOREACH_FROM_SAFE ::
  "('s \<Rightarrow> links) \<Rightarrow> (nat \<Rightarrow> 's \<Rightarrow> 's option) \<Rightarrow> nat \<Rightarrow> nat \<Rightarrow> 's \<Rightarrow> 's option" where
  "STAILQ_FOREACH_FROM_SAFE heap body var head s =
     do {
       v \<leftarrow> (if var \<noteq> 0 then Some var else STAILQ_FIRST (heap s) head);
       walk_safe (\<lambda>s. STAILQ_NEXT (heap s)) body v s
     }"

text \<open>The calls of the macros by name.\<close>

fun stailq_exec :: "links \<Rightarrow> qop \<Rightarrow> links option" where
  "stailq_exec h (Init q) = STAILQ_INIT h q"
| "stailq_exec h (Insert_head q x) = STAILQ_INSERT_HEAD h q x"
| "stailq_exec h (Insert_tail q x) = STAILQ_INSERT_TAIL h q x"
| "stailq_exec h (Insert_after q y x) = STAILQ_INSERT_AFTER h q y x"
| "stailq_exec h (Insert_before q y x) = None"
| "stailq_exec h (Remove q x) = STAILQ_REMOVE h q x"
| "stailq_exec h (Remove_head q) = STAILQ_REMOVE_HEAD h q"
| "stailq_exec h (Concat q r) = STAILQ_CONCAT h q r"
| "stailq_exec h (Swap q r) = STAILQ_SWAP h q r"

fun not_before :: "qop \<Rightarrow> bool" where
  "not_before (Insert_before q y x) = False"
| "not_before _ = True"

section \<open>What they do to a queue\<close>

abbreviation stailq :: "links \<Rightarrow> nat \<Rightarrow> nat list \<Rightarrow> bool" where
  "stailq \<equiv> holds True False"

lemma stailq_init: "alive h (Head q) \<Longrightarrow> \<exists>h'. STAILQ_INIT h q = Some h' \<and> stailq h' q [] \<and> only (cells q []) h h'"
  by (simp add: STAILQ_INIT_def holds_def cells_def)

lemma stailq_insert_head:
  assumes q: "stailq h q xs" and x: "alive h (Elem x)" "x \<noteq> 0" "x \<notin> set xs"
  shows "\<exists>h'. STAILQ_INSERT_HEAD h q x = Some h' \<and> stailq h' q (x # xs) \<and> only (cells q (x # xs)) h h'"
  using q x holds_alive [OF q]
  by (cases xs) (auto simp: holds_def STAILQ_INSERT_HEAD_def STAILQ_FIRST_def cells_def)

lemma stailq_insert_tail:
  assumes q: "stailq h q xs" and x: "alive h (Elem x)" "x \<noteq> 0" "x \<notin> set xs"
  shows "\<exists>h'. STAILQ_INSERT_TAIL h q x = Some h' \<and> stailq h' q (xs @ [x]) \<and> only (cells q (xs @ [x])) h h'"
  using q x holds_alive [OF q]
  by (cases xs rule: rev_cases) (auto simp: holds_def STAILQ_INSERT_TAIL_def cells_def)

lemma stailq_insert_after:
  assumes q: "stailq h q (us @ y # vs)" and x: "alive h (Elem x)" "x \<noteq> 0" "x \<notin> set (us @ y # vs)"
  shows "\<exists>h'. STAILQ_INSERT_AFTER h q y x = Some h' \<and> stailq h' q (us @ y # x # vs) \<and>
     only (cells q (us @ y # x # vs)) h h'"
  using q x holds_alive [OF q]
  by (cases vs) (auto simp: holds_def STAILQ_INSERT_AFTER_def STAILQ_NEXT_def cells_def)

lemma stailq_remove_head:
  assumes q: "stailq h q (x # xs)"
  shows "\<exists>h'. STAILQ_REMOVE_HEAD h q = Some h' \<and> stailq h' q xs \<and> only (cells q (x # xs)) h h'"
  using q holds_alive [OF q]
  by (cases xs) (auto simp: holds_def STAILQ_REMOVE_HEAD_def STAILQ_FIRST_def STAILQ_NEXT_def cells_def)

lemma stailq_find_seg:
  "seg h (Elem u) (us @ [x]) \<Longrightarrow> distinct (u # us @ [x]) \<Longrightarrow> stailq_find h u x = Some (last (u # us))"
proof (induction us arbitrary: u)
  case Nil
  then show ?case by (subst stailq_find.simps) (simp add: STAILQ_NEXT_def)
next
  case (Cons v us)
  then show ?case by (subst stailq_find.simps) (simp add: STAILQ_NEXT_def)
qed

lemma stailq_remove:
  assumes q: "stailq h q (us @ x # vs)"
  shows "\<exists>h'. STAILQ_REMOVE h q x = Some h' \<and> stailq h' q (us @ vs) \<and> only (cells q (us @ x # vs)) h h'"
proof (cases us)
  case Nil
  with q have "STAILQ_FIRST h q = Some x" by (simp add: holds_def STAILQ_FIRST_def)
  with Nil stailq_remove_head [of h q x vs] q show ?thesis by (simp add: STAILQ_REMOVE_def)
next
  case (Cons u ws)
  obtain ts b where tb: "u # ws = ts @ [b]" by (cases "u # ws" rule: rev_cases) auto
  have f: "STAILQ_FIRST h q = Some u" "u \<noteq> x" "seg h (Elem u) (ws @ [x])" "distinct (u # ws @ [x])"
    using q Cons by (auto simp: holds_def STAILQ_FIRST_def)
  have "stailq_find h u x = Some b" using stailq_find_seg [OF f(3,4)] tb by simp
  with f(1,2) have "STAILQ_REMOVE h q x = STAILQ_REMOVE_AFTER h q b" by (simp add: STAILQ_REMOVE_def)
  moreover have "us = ts @ [b]" using Cons tb by simp
  ultimately show ?thesis
    using q holds_alive [OF q]
    by (cases vs) (auto simp: holds_def STAILQ_REMOVE_AFTER_def STAILQ_NEXT_def cells_def)
qed

lemma stailq_concat:
  assumes q: "stailq h q xs" and r: "stailq h r ys" and d: "q \<noteq> r" "set xs \<inter> set ys = {}"
  shows "\<exists>h'. STAILQ_CONCAT h q r = Some h' \<and> stailq h' q (xs @ ys) \<and> stailq h' r [] \<and>
     only (cells q xs \<union> cells r ys) h h'"
  using q r d holds_alive [OF q] holds_alive [OF r]
  by (cases ys; cases xs rule: rev_cases)
    (auto simp: holds_def STAILQ_CONCAT_def STAILQ_EMPTY_def STAILQ_FIRST_def STAILQ_INIT_def cells_def)

lemma stailq_swap:
  assumes q: "stailq h q xs" and r: "stailq h r ys" and d: "q \<noteq> r" "set xs \<inter> set ys = {}"
  shows "\<exists>h'. STAILQ_SWAP h q r = Some h' \<and> stailq h' q ys \<and> stailq h' r xs \<and>
     only (cells q xs \<union> cells r ys) h h'"
  using q r d holds_alive [OF q] holds_alive [OF r]
  by (cases ys; cases xs)
    (auto simp: holds_def STAILQ_SWAP_def STAILQ_FIRST_def STAILQ_EMPTY_def stailq_relink_def cells_def)

lemma stailq_initializer: "h (Head q) = Some (STAILQ_HEAD_INITIALIZER q) \<Longrightarrow> stailq h q []"
  by (simp add: holds_def nxt_def bck_def STAILQ_HEAD_INITIALIZER_def)

interpretation stailq: queue_macros True False not_before stailq_exec
  by unfold_locales
    (simp_all add: stailq_init stailq_insert_head stailq_insert_tail stailq_insert_after
      stailq_remove stailq_remove_head stailq_concat stailq_swap del: append_Cons)

section \<open>Reading a queue\<close>

lemma stailq_ends:
  assumes "stailq h q xs"
  shows "STAILQ_EMPTY h q = Some (xs = [])" "STAILQ_LAST h q = Some (if xs = [] then 0 else last xs)"
proof -
  show e: "STAILQ_EMPTY h q = Some (xs = [])"
    using assms by (cases xs) (auto simp: holds_def STAILQ_EMPTY_def)
  show "STAILQ_LAST h q = Some (if xs = [] then 0 else last xs)"
    using assms e by (cases xs rule: rev_cases) (auto simp: holds_def STAILQ_LAST_def)
qed

lemma stailq_foreach:
  assumes q: "stailq (heap s) q xs" and body: "\<And>x s s'. body x s = Some s' \<Longrightarrow> heap s' = heap s"
  shows "STAILQ_FOREACH heap body q s = run_adds (\<lambda>s x. body x s) s xs"
proof -
  obtain v where v: "STAILQ_FIRST (heap s) q = Some v" "follows (STAILQ_NEXT (heap s)) v xs"
    using holds_follows [OF q] by (auto simp: STAILQ_FIRST_def STAILQ_NEXT_def [abs_def])
  have "walk (\<lambda>s. STAILQ_NEXT (heap s)) body v s = run_adds (\<lambda>s x. body x s) s xs"
    using body v(2) by (intro walk_run [where succ = "\<lambda>s. STAILQ_NEXT (heap s)"]) simp_all
  with v(1) show ?thesis by (simp add: STAILQ_FOREACH_def)
qed

text \<open>The loop from an element on, and the safe loop, with such a body.\<close>

lemma stailq_foreach_from:
  assumes q: "stailq (heap s) q (us @ x # xs)" and body: "\<And>x s s'. body x s = Some s' \<Longrightarrow> heap s' = heap s"
  shows "STAILQ_FOREACH_FROM heap body x q s = run_adds (\<lambda>s x. body x s) s (x # xs)"
proof -
  have x: "x \<noteq> 0" using q by (simp add: holds_def)
  have "follows (STAILQ_NEXT (heap s)) x (x # xs)"
    using follows_suffix [OF q] by (simp add: STAILQ_NEXT_def [abs_def])
  then have "walk (\<lambda>s. STAILQ_NEXT (heap s)) body x s = run_adds (\<lambda>s x. body x s) s (x # xs)"
    using body by (intro walk_run [where succ = "\<lambda>s. STAILQ_NEXT (heap s)"]) simp_all
  with x show ?thesis by (simp add: STAILQ_FOREACH_FROM_def)
qed

end
