(* ===== verification/List_Queue.thy ===== *)
theory List_Queue
  imports Queue_Links
begin

text \<open>
  The lists of \<^verbatim>\<open>server/queue.h\<close>: every element points to the next one and to the pointer that
  points to it, the head to the first element only.
\<close>

section \<open>The macros\<close>

text \<open>The initialiser of a head, whose second pointer does not exist in the source.\<close>

definition LIST_HEAD_INITIALIZER :: "loc \<Rightarrow> link" where
  "LIST_HEAD_INITIALIZER unused = \<lparr>lk_ptr = 0, lk_back = unused\<rparr>"

definition LIST_INIT :: "links \<Rightarrow> nat \<Rightarrow> links option" where
  "LIST_INIT h head = put_nxt h (Head head) 0"

definition LIST_FIRST :: "links \<Rightarrow> nat \<Rightarrow> nat option" where
  "LIST_FIRST h head = nxt h (Head head)"

definition LIST_EMPTY :: "links \<Rightarrow> nat \<Rightarrow> bool option" where
  "LIST_EMPTY h head = map_option (\<lambda>n. n = 0) (nxt h (Head head))"

definition LIST_NEXT :: "links \<Rightarrow> nat \<Rightarrow> nat option" where
  "LIST_NEXT h elm = nxt h (Elem elm)"

text \<open>\<open>__containerof\<close> of an address that is no next pointer is nothing.\<close>

definition LIST_PREV :: "links \<Rightarrow> nat \<Rightarrow> nat \<Rightarrow> nat option" where
  "LIST_PREV h elm head =
     do {
       b \<leftarrow> bck h (Elem elm);
       if b = Head head then Some 0
       else (case b of Head _ \<Rightarrow> None | Elem e \<Rightarrow> Some e)
     }"

definition LIST_INSERT_HEAD :: "links \<Rightarrow> nat \<Rightarrow> nat \<Rightarrow> links option" where
  "LIST_INSERT_HEAD h head elm =
     do {
       n \<leftarrow> LIST_FIRST h head;
       h \<leftarrow> put_nxt h (Elem elm) n;
       h \<leftarrow> (if n \<noteq> 0 then do { f \<leftarrow> LIST_FIRST h head; put_bck h (Elem f) (Elem elm) } else Some h);
       h \<leftarrow> put_nxt h (Head head) elm;
       put_bck h (Elem elm) (Head head)
     }"

definition LIST_INSERT_AFTER :: "links \<Rightarrow> nat \<Rightarrow> nat \<Rightarrow> links option" where
  "LIST_INSERT_AFTER h listelm elm =
     do {
       n \<leftarrow> LIST_NEXT h listelm;
       h \<leftarrow> put_nxt h (Elem elm) n;
       h \<leftarrow> (if n \<noteq> 0 then do { m \<leftarrow> LIST_NEXT h listelm; put_bck h (Elem m) (Elem elm) } else Some h);
       h \<leftarrow> put_nxt h (Elem listelm) elm;
       put_bck h (Elem elm) (Elem listelm)
     }"

definition LIST_INSERT_BEFORE :: "links \<Rightarrow> nat \<Rightarrow> nat \<Rightarrow> links option" where
  "LIST_INSERT_BEFORE h listelm elm =
     do {
       b \<leftarrow> bck h (Elem listelm);
       h \<leftarrow> put_bck h (Elem elm) b;
       h \<leftarrow> put_nxt h (Elem elm) listelm;
       b \<leftarrow> bck h (Elem listelm);
       h \<leftarrow> put_nxt h b elm;
       put_bck h (Elem listelm) (Elem elm)
     }"

definition LIST_REMOVE :: "links \<Rightarrow> nat \<Rightarrow> links option" where
  "LIST_REMOVE h elm =
     do {
       n \<leftarrow> LIST_NEXT h elm;
       h \<leftarrow> (if n \<noteq> 0 then do { b \<leftarrow> bck h (Elem elm); put_bck h (Elem n) b } else Some h);
       b \<leftarrow> bck h (Elem elm);
       n \<leftarrow> LIST_NEXT h elm;
       put_nxt h b n
     }"

text \<open>The loop of \<open>LIST_CONCAT\<close> that looks for the last element.\<close>

partial_function (option) list_last :: "links \<Rightarrow> nat \<Rightarrow> nat option" where
  "list_last h curelm =
     do {
       n \<leftarrow> LIST_NEXT h curelm;
       if n \<noteq> 0 then list_last h n else Some curelm
     }"

definition LIST_CONCAT :: "links \<Rightarrow> nat \<Rightarrow> nat \<Rightarrow> links option" where
  "LIST_CONCAT h head1 head2 =
     do {
       curelm \<leftarrow> LIST_FIRST h head1;
       f \<leftarrow> LIST_FIRST h head2;
       if curelm = 0
       then do {
         h \<leftarrow> put_nxt h (Head head1) f;
         if f \<noteq> 0
         then do {
           h \<leftarrow> put_bck h (Elem f) (Head head1);
           LIST_INIT h head2
         }
         else Some h
       }
       else if f \<noteq> 0
       then do {
         curelm \<leftarrow> list_last h curelm;
         h \<leftarrow> put_nxt h (Elem curelm) f;
         h \<leftarrow> put_bck h (Elem f) (Elem curelm);
         LIST_INIT h head2
       }
       else Some h
     }"

definition LIST_SWAP :: "links \<Rightarrow> nat \<Rightarrow> nat \<Rightarrow> links option" where
  "LIST_SWAP h head1 head2 =
     do {
       swap_tmp \<leftarrow> LIST_FIRST h head1;
       n \<leftarrow> LIST_FIRST h head2;
       h \<leftarrow> put_nxt h (Head head1) n;
       h \<leftarrow> put_nxt h (Head head2) swap_tmp;
       swap_tmp \<leftarrow> LIST_FIRST h head1;
       h \<leftarrow> (if swap_tmp \<noteq> 0 then put_bck h (Elem swap_tmp) (Head head1) else Some h);
       swap_tmp \<leftarrow> LIST_FIRST h head2;
       if swap_tmp \<noteq> 0 then put_bck h (Elem swap_tmp) (Head head2) else Some h
     }"

text \<open>The checks of a kernel with \<open>INVARIANTS\<close>; \<open>False\<close> is the panic.\<close>

definition QMD_LIST_CHECK_HEAD :: "links \<Rightarrow> nat \<Rightarrow> bool option" where
  "QMD_LIST_CHECK_HEAD h head =
     do {
       f \<leftarrow> LIST_FIRST h head;
       if f = 0 then Some True
       else do {
         b \<leftarrow> bck h (Elem f);
         Some (b = Head head)
       }
     }"

definition QMD_LIST_CHECK_NEXT :: "links \<Rightarrow> nat \<Rightarrow> bool option" where
  "QMD_LIST_CHECK_NEXT h elm =
     do {
       n \<leftarrow> LIST_NEXT h elm;
       if n = 0 then Some True
       else do {
         b \<leftarrow> bck h (Elem n);
         Some (b = Elem elm)
       }
     }"

definition QMD_LIST_CHECK_PREV :: "links \<Rightarrow> nat \<Rightarrow> bool option" where
  "QMD_LIST_CHECK_PREV h elm =
     do {
       b \<leftarrow> bck h (Elem elm);
       n \<leftarrow> nxt h b;
       Some (n = elm)
     }"

text \<open>The loops; \<open>heap\<close> is the memory in the state the body works on.\<close>

definition LIST_FOREACH ::
  "('s \<Rightarrow> links) \<Rightarrow> (nat \<Rightarrow> 's \<Rightarrow> 's option) \<Rightarrow> nat \<Rightarrow> 's \<Rightarrow> 's option" where
  "LIST_FOREACH heap body head s =
     do {
       v \<leftarrow> LIST_FIRST (heap s) head;
       walk (\<lambda>s. LIST_NEXT (heap s)) body v s
     }"

definition LIST_FOREACH_FROM ::
  "('s \<Rightarrow> links) \<Rightarrow> (nat \<Rightarrow> 's \<Rightarrow> 's option) \<Rightarrow> nat \<Rightarrow> nat \<Rightarrow> 's \<Rightarrow> 's option" where
  "LIST_FOREACH_FROM heap body var head s =
     do {
       v \<leftarrow> (if var \<noteq> 0 then Some var else LIST_FIRST (heap s) head);
       walk (\<lambda>s. LIST_NEXT (heap s)) body v s
     }"

definition LIST_FOREACH_SAFE ::
  "('s \<Rightarrow> links) \<Rightarrow> (nat \<Rightarrow> 's \<Rightarrow> 's option) \<Rightarrow> nat \<Rightarrow> 's \<Rightarrow> 's option" where
  "LIST_FOREACH_SAFE heap body head s =
     do {
       v \<leftarrow> LIST_FIRST (heap s) head;
       walk_safe (\<lambda>s. LIST_NEXT (heap s)) body v s
     }"

definition LIST_FOREACH_FROM_SAFE ::
  "('s \<Rightarrow> links) \<Rightarrow> (nat \<Rightarrow> 's \<Rightarrow> 's option) \<Rightarrow> nat \<Rightarrow> nat \<Rightarrow> 's \<Rightarrow> 's option" where
  "LIST_FOREACH_FROM_SAFE heap body var head s =
     do {
       v \<leftarrow> (if var \<noteq> 0 then Some var else LIST_FIRST (heap s) head);
       walk_safe (\<lambda>s. LIST_NEXT (heap s)) body v s
     }"

text \<open>The calls of the macros by name.\<close>

fun list_exec :: "links \<Rightarrow> qop \<Rightarrow> links option" where
  "list_exec h (Init q) = LIST_INIT h q"
| "list_exec h (Insert_head q x) = LIST_INSERT_HEAD h q x"
| "list_exec h (Insert_tail q x) = None"
| "list_exec h (Insert_after q y x) = LIST_INSERT_AFTER h y x"
| "list_exec h (Insert_before q y x) = LIST_INSERT_BEFORE h y x"
| "list_exec h (Remove q x) = LIST_REMOVE h x"
| "list_exec h (Remove_head q) = None"
| "list_exec h (Concat q r) = LIST_CONCAT h q r"
| "list_exec h (Swap q r) = LIST_SWAP h q r"

fun list_provided :: "qop \<Rightarrow> bool" where
  "list_provided (Insert_tail q x) = False"
| "list_provided (Remove_head q) = False"
| "list_provided _ = True"

section \<open>What they do to a list\<close>

abbreviation blist :: "links \<Rightarrow> nat \<Rightarrow> nat list \<Rightarrow> bool" where
  "blist \<equiv> holds False True"

lemma list_init: "alive h (Head q) \<Longrightarrow> \<exists>h'. LIST_INIT h q = Some h' \<and> blist h' q [] \<and> only (cells q []) h h'"
  by (simp add: LIST_INIT_def holds_def cells_def)

lemma list_insert_head:
  assumes q: "blist h q xs" and x: "alive h (Elem x)" "x \<noteq> 0" "x \<notin> set xs"
  shows "\<exists>h'. LIST_INSERT_HEAD h q x = Some h' \<and> blist h' q (x # xs) \<and> only (cells q (x # xs)) h h'"
  using q x holds_alive [OF q]
  by (cases xs) (auto simp: holds_def LIST_INSERT_HEAD_def LIST_FIRST_def cells_def)

lemma list_insert_after:
  assumes q: "blist h q (us @ y # vs)" and x: "alive h (Elem x)" "x \<noteq> 0" "x \<notin> set (us @ y # vs)"
  shows "\<exists>h'. LIST_INSERT_AFTER h y x = Some h' \<and> blist h' q (us @ y # x # vs) \<and>
     only (cells q (us @ y # x # vs)) h h'"
  using q x holds_alive [OF q]
  by (cases vs) (auto simp: holds_def LIST_INSERT_AFTER_def LIST_NEXT_def cells_def)

lemma list_insert_before:
  assumes q: "blist h q (us @ y # vs)" and x: "alive h (Elem x)" "x \<noteq> 0" "x \<notin> set (us @ y # vs)"
  shows "\<exists>h'. LIST_INSERT_BEFORE h y x = Some h' \<and> blist h' q (us @ x # y # vs) \<and>
     only (cells q (us @ x # y # vs)) h h'"
  using q x holds_alive [OF q]
  by (cases us rule: rev_cases) (auto simp: holds_def LIST_INSERT_BEFORE_def cells_def)

lemma list_remove:
  assumes q: "blist h q (us @ x # vs)"
  shows "\<exists>h'. LIST_REMOVE h x = Some h' \<and> blist h' q (us @ vs) \<and> only (cells q (us @ x # vs)) h h'"
  using q holds_alive [OF q]
  by (cases us rule: rev_cases; cases vs) (auto simp: holds_def LIST_REMOVE_def LIST_NEXT_def cells_def)

lemma list_last_seg:
  "seg h (Elem u) us \<Longrightarrow> nxt h (endl (Elem u) us) = Some 0 \<Longrightarrow> 0 \<notin> set us \<Longrightarrow>
     list_last h u = Some (last (u # us))"
proof (induction us arbitrary: u)
  case Nil
  then show ?case by (subst list_last.simps) (simp add: LIST_NEXT_def)
next
  case (Cons v us)
  then show ?case by (subst list_last.simps) (simp add: LIST_NEXT_def)
qed

lemma list_last_holds:
  assumes "blist h q (us @ [b])"
  shows "\<exists>f. LIST_FIRST h q = Some f \<and> f \<noteq> 0 \<and> list_last h f = Some b"
proof -
  obtain f ws where "us @ [b] = f # ws" by (cases us) auto
  moreover from this assms have "LIST_FIRST h q = Some f" "f \<noteq> 0" "list_last h f = Some (last (f # ws))"
    using list_last_seg [of h f ws] by (simp_all add: holds_def LIST_FIRST_def)
  ultimately show ?thesis by (metis last_snoc)
qed

lemma list_concat:
  assumes q: "blist h q xs" and r: "blist h r ys" and d: "q \<noteq> r" "set xs \<inter> set ys = {}"
  shows "\<exists>h'. LIST_CONCAT h q r = Some h' \<and> blist h' q (xs @ ys) \<and> blist h' r [] \<and>
     only (cells q xs \<union> cells r ys) h h'"
proof (cases xs rule: rev_cases)
  case Nil
  then show ?thesis
    using q r d holds_alive [OF q] holds_alive [OF r]
    by (cases ys) (auto simp: holds_def LIST_CONCAT_def LIST_FIRST_def LIST_INIT_def cells_def)
next
  case (snoc ws b)
  obtain f where f: "nxt h (Head q) = Some f" "f \<noteq> 0" "list_last h f = Some b"
    using list_last_holds [of h q ws b] q snoc by (auto simp: LIST_FIRST_def)
  with snoc show ?thesis
    using q r d holds_alive [OF q] holds_alive [OF r]
    by (cases ys) (auto simp: holds_def LIST_CONCAT_def LIST_FIRST_def LIST_INIT_def cells_def)
qed

lemma list_swap:
  assumes q: "blist h q xs" and r: "blist h r ys" and d: "q \<noteq> r" "set xs \<inter> set ys = {}"
  shows "\<exists>h'. LIST_SWAP h q r = Some h' \<and> blist h' q ys \<and> blist h' r xs \<and>
     only (cells q xs \<union> cells r ys) h h'"
  using q r d holds_alive [OF q] holds_alive [OF r]
  by (cases ys; cases xs) (auto simp: holds_def LIST_SWAP_def LIST_FIRST_def cells_def)

lemma blist_initializer: "h (Head q) = Some (LIST_HEAD_INITIALIZER b) \<Longrightarrow> blist h q []"
  by (simp add: holds_def nxt_def LIST_HEAD_INITIALIZER_def)

interpretation blist: queue_macros False True list_provided list_exec
  by unfold_locales
    (simp_all add: list_init list_insert_head list_insert_after list_insert_before
      list_remove list_concat list_swap del: append_Cons)

section \<open>Reading a list\<close>

lemma list_ends:
  assumes "blist h q xs"
  shows "LIST_EMPTY h q = Some (xs = [])" "QMD_LIST_CHECK_HEAD h q = Some True"
  using assms by (cases xs; auto simp: holds_def LIST_EMPTY_def QMD_LIST_CHECK_HEAD_def LIST_FIRST_def)+

lemma list_neighbours:
  assumes "blist h q (us @ x # vs)"
  shows "LIST_NEXT h x = Some (case vs of [] \<Rightarrow> 0 | v # _ \<Rightarrow> v)"
    and "LIST_PREV h x q = Some (if us = [] then 0 else last us)"
    and "QMD_LIST_CHECK_NEXT h x = Some True" "QMD_LIST_CHECK_PREV h x = Some True"
proof -
  show n: "LIST_NEXT h x = Some (case vs of [] \<Rightarrow> 0 | v # _ \<Rightarrow> v)"
    using assms by (cases vs) (auto simp: holds_def LIST_NEXT_def)
  show "LIST_PREV h x q = Some (if us = [] then 0 else last us)"
    using assms by (cases us rule: rev_cases) (auto simp: holds_def LIST_PREV_def)
  show "QMD_LIST_CHECK_NEXT h x = Some True"
    using assms n by (cases vs) (auto simp: holds_def QMD_LIST_CHECK_NEXT_def)
  show "QMD_LIST_CHECK_PREV h x = Some True"
    using assms by (auto simp: holds_def QMD_LIST_CHECK_PREV_def)
qed

lemma list_foreach:
  assumes q: "blist (heap s) q xs" and body: "\<And>x s s'. body x s = Some s' \<Longrightarrow> heap s' = heap s"
  shows "LIST_FOREACH heap body q s = run_adds (\<lambda>s x. body x s) s xs"
proof -
  obtain v where v: "LIST_FIRST (heap s) q = Some v" "follows (LIST_NEXT (heap s)) v xs"
    using holds_follows [OF q] by (auto simp: LIST_FIRST_def LIST_NEXT_def [abs_def])
  have "walk (\<lambda>s. LIST_NEXT (heap s)) body v s = run_adds (\<lambda>s x. body x s) s xs"
    using body v(2) by (intro walk_run [where succ = "\<lambda>s. LIST_NEXT (heap s)"]) simp_all
  with v(1) show ?thesis by (simp add: LIST_FOREACH_def)
qed

text \<open>The loop from an element on, and the safe loop, with such a body.\<close>

lemma list_foreach_from:
  assumes q: "blist (heap s) q (us @ x # xs)" and body: "\<And>x s s'. body x s = Some s' \<Longrightarrow> heap s' = heap s"
  shows "LIST_FOREACH_FROM heap body x q s = run_adds (\<lambda>s x. body x s) s (x # xs)"
proof -
  have x: "x \<noteq> 0" using q by (simp add: holds_def)
  have "follows (LIST_NEXT (heap s)) x (x # xs)"
    using follows_suffix [OF q] by (simp add: LIST_NEXT_def [abs_def])
  then have "walk (\<lambda>s. LIST_NEXT (heap s)) body x s = run_adds (\<lambda>s x. body x s) s (x # xs)"
    using body by (intro walk_run [where succ = "\<lambda>s. LIST_NEXT (heap s)"]) simp_all
  with x show ?thesis by (simp add: LIST_FOREACH_FROM_def)
qed

end
