(* ===== verification/Tailq.thy ===== *)
theory Tailq
  imports Queue_Links
begin

text \<open>
  The tail queues of \<^verbatim>\<open>server/queue.h\<close>: every element points to the next one and to the pointer
  that points to it, the head to the first element and to the last next pointer.
\<close>

section \<open>The macros\<close>

text \<open>The initialiser of a head.\<close>

definition TAILQ_HEAD_INITIALIZER :: "nat \<Rightarrow> link" where
  "TAILQ_HEAD_INITIALIZER head = \<lparr>lk_ptr = 0, lk_back = Head head\<rparr>"

definition TAILQ_INIT :: "links \<Rightarrow> nat \<Rightarrow> links option" where
  "TAILQ_INIT h head =
     do {
       h \<leftarrow> put_nxt h (Head head) 0;
       put_bck h (Head head) (Head head)
     }"

definition TAILQ_FIRST :: "links \<Rightarrow> nat \<Rightarrow> nat option" where
  "TAILQ_FIRST h head = nxt h (Head head)"

definition TAILQ_EMPTY :: "links \<Rightarrow> nat \<Rightarrow> bool option" where
  "TAILQ_EMPTY h head = map_option (\<lambda>n. n = 0) (nxt h (Head head))"

definition TAILQ_NEXT :: "links \<Rightarrow> nat \<Rightarrow> nat option" where
  "TAILQ_NEXT h elm = nxt h (Elem elm)"

text \<open>The last member of the cell that \<open>tqh_last\<close> or \<open>tqe_prev\<close> points into, followed.\<close>

definition TAILQ_LAST :: "links \<Rightarrow> nat \<Rightarrow> nat option" where
  "TAILQ_LAST h head =
     do {
       l \<leftarrow> bck h (Head head);
       m \<leftarrow> bck h l;
       nxt h m
     }"

definition TAILQ_PREV :: "links \<Rightarrow> nat \<Rightarrow> nat option" where
  "TAILQ_PREV h elm =
     do {
       l \<leftarrow> bck h (Elem elm);
       m \<leftarrow> bck h l;
       nxt h m
     }"

definition TAILQ_INSERT_HEAD :: "links \<Rightarrow> nat \<Rightarrow> nat \<Rightarrow> links option" where
  "TAILQ_INSERT_HEAD h head elm =
     do {
       n \<leftarrow> TAILQ_FIRST h head;
       h \<leftarrow> put_nxt h (Elem elm) n;
       h \<leftarrow> (if n \<noteq> 0 then do { f \<leftarrow> TAILQ_FIRST h head; put_bck h (Elem f) (Elem elm) }
            else put_bck h (Head head) (Elem elm));
       h \<leftarrow> put_nxt h (Head head) elm;
       put_bck h (Elem elm) (Head head)
     }"

definition TAILQ_INSERT_TAIL :: "links \<Rightarrow> nat \<Rightarrow> nat \<Rightarrow> links option" where
  "TAILQ_INSERT_TAIL h head elm =
     do {
       h \<leftarrow> put_nxt h (Elem elm) 0;
       l \<leftarrow> bck h (Head head);
       h \<leftarrow> put_bck h (Elem elm) l;
       l \<leftarrow> bck h (Head head);
       h \<leftarrow> put_nxt h l elm;
       put_bck h (Head head) (Elem elm)
     }"

definition TAILQ_INSERT_AFTER :: "links \<Rightarrow> nat \<Rightarrow> nat \<Rightarrow> nat \<Rightarrow> links option" where
  "TAILQ_INSERT_AFTER h head listelm elm =
     do {
       n \<leftarrow> TAILQ_NEXT h listelm;
       h \<leftarrow> put_nxt h (Elem elm) n;
       h \<leftarrow> (if n \<noteq> 0 then do { m \<leftarrow> TAILQ_NEXT h elm; put_bck h (Elem m) (Elem elm) }
            else put_bck h (Head head) (Elem elm));
       h \<leftarrow> put_nxt h (Elem listelm) elm;
       put_bck h (Elem elm) (Elem listelm)
     }"

definition TAILQ_INSERT_BEFORE :: "links \<Rightarrow> nat \<Rightarrow> nat \<Rightarrow> links option" where
  "TAILQ_INSERT_BEFORE h listelm elm =
     do {
       b \<leftarrow> bck h (Elem listelm);
       h \<leftarrow> put_bck h (Elem elm) b;
       h \<leftarrow> put_nxt h (Elem elm) listelm;
       b \<leftarrow> bck h (Elem listelm);
       h \<leftarrow> put_nxt h b elm;
       put_bck h (Elem listelm) (Elem elm)
     }"

definition TAILQ_REMOVE :: "links \<Rightarrow> nat \<Rightarrow> nat \<Rightarrow> links option" where
  "TAILQ_REMOVE h head elm =
     do {
       n \<leftarrow> TAILQ_NEXT h elm;
       b \<leftarrow> bck h (Elem elm);
       h \<leftarrow> (if n \<noteq> 0 then put_bck h (Elem n) b else put_bck h (Head head) b);
       b \<leftarrow> bck h (Elem elm);
       n \<leftarrow> TAILQ_NEXT h elm;
       put_nxt h b n
     }"

definition TAILQ_CONCAT :: "links \<Rightarrow> nat \<Rightarrow> nat \<Rightarrow> links option" where
  "TAILQ_CONCAT h head1 head2 =
     do {
       empty2 \<leftarrow> TAILQ_EMPTY h head2;
       if empty2 then Some h
       else do {
         l \<leftarrow> bck h (Head head1);
         n \<leftarrow> TAILQ_FIRST h head2;
         h \<leftarrow> put_nxt h l n;
         n \<leftarrow> TAILQ_FIRST h head2;
         l \<leftarrow> bck h (Head head1);
         h \<leftarrow> put_bck h (Elem n) l;
         l \<leftarrow> bck h (Head head2);
         h \<leftarrow> put_bck h (Head head1) l;
         TAILQ_INIT h head2
       }
     }"

text \<open>The end of \<open>TAILQ_SWAP\<close> for one head: the first element, or the empty head, points back to it.\<close>

definition tailq_relink :: "links \<Rightarrow> nat \<Rightarrow> links option" where
  "tailq_relink h head =
     do {
       f \<leftarrow> TAILQ_FIRST h head;
       if f \<noteq> 0 then put_bck h (Elem f) (Head head) else put_bck h (Head head) (Head head)
     }"

definition TAILQ_SWAP :: "links \<Rightarrow> nat \<Rightarrow> nat \<Rightarrow> links option" where
  "TAILQ_SWAP h head1 head2 =
     do {
       swap_first \<leftarrow> TAILQ_FIRST h head1;
       swap_last \<leftarrow> bck h (Head head1);
       n \<leftarrow> TAILQ_FIRST h head2;
       h \<leftarrow> put_nxt h (Head head1) n;
       l \<leftarrow> bck h (Head head2);
       h \<leftarrow> put_bck h (Head head1) l;
       h \<leftarrow> put_nxt h (Head head2) swap_first;
       h \<leftarrow> put_bck h (Head head2) swap_last;
       h \<leftarrow> tailq_relink h head1;
       tailq_relink h head2
     }"

text \<open>The checks of a kernel with \<open>INVARIANTS\<close>; \<open>False\<close> is the panic.\<close>

definition QMD_TAILQ_CHECK_HEAD :: "links \<Rightarrow> nat \<Rightarrow> bool option" where
  "QMD_TAILQ_CHECK_HEAD h head =
     do {
       empty \<leftarrow> TAILQ_EMPTY h head;
       if empty then Some True
       else do {
         f \<leftarrow> TAILQ_FIRST h head;
         b \<leftarrow> bck h (Elem f);
         Some (b = Head head)
       }
     }"

definition QMD_TAILQ_CHECK_TAIL :: "links \<Rightarrow> nat \<Rightarrow> bool option" where
  "QMD_TAILQ_CHECK_TAIL h head =
     do {
       l \<leftarrow> bck h (Head head);
       n \<leftarrow> nxt h l;
       Some (n = 0)
     }"

definition QMD_TAILQ_CHECK_NEXT :: "links \<Rightarrow> nat \<Rightarrow> bool option" where
  "QMD_TAILQ_CHECK_NEXT h elm =
     do {
       n \<leftarrow> TAILQ_NEXT h elm;
       if n = 0 then Some True
       else do {
         b \<leftarrow> bck h (Elem n);
         Some (b = Elem elm)
       }
     }"

definition QMD_TAILQ_CHECK_PREV :: "links \<Rightarrow> nat \<Rightarrow> bool option" where
  "QMD_TAILQ_CHECK_PREV h elm =
     do {
       b \<leftarrow> bck h (Elem elm);
       n \<leftarrow> nxt h b;
       Some (n = elm)
     }"

text \<open>The loops; \<open>heap\<close> is the memory in the state the body works on.\<close>

definition TAILQ_FOREACH ::
  "('s \<Rightarrow> links) \<Rightarrow> (nat \<Rightarrow> 's \<Rightarrow> 's option) \<Rightarrow> nat \<Rightarrow> 's \<Rightarrow> 's option" where
  "TAILQ_FOREACH heap body head s =
     do {
       v \<leftarrow> TAILQ_FIRST (heap s) head;
       walk (\<lambda>s. TAILQ_NEXT (heap s)) body v s
     }"

definition TAILQ_FOREACH_FROM ::
  "('s \<Rightarrow> links) \<Rightarrow> (nat \<Rightarrow> 's \<Rightarrow> 's option) \<Rightarrow> nat \<Rightarrow> nat \<Rightarrow> 's \<Rightarrow> 's option" where
  "TAILQ_FOREACH_FROM heap body var head s =
     do {
       v \<leftarrow> (if var \<noteq> 0 then Some var else TAILQ_FIRST (heap s) head);
       walk (\<lambda>s. TAILQ_NEXT (heap s)) body v s
     }"

definition TAILQ_FOREACH_SAFE ::
  "('s \<Rightarrow> links) \<Rightarrow> (nat \<Rightarrow> 's \<Rightarrow> 's option) \<Rightarrow> nat \<Rightarrow> 's \<Rightarrow> 's option" where
  "TAILQ_FOREACH_SAFE heap body head s =
     do {
       v \<leftarrow> TAILQ_FIRST (heap s) head;
       walk_safe (\<lambda>s. TAILQ_NEXT (heap s)) body v s
     }"

definition TAILQ_FOREACH_FROM_SAFE ::
  "('s \<Rightarrow> links) \<Rightarrow> (nat \<Rightarrow> 's \<Rightarrow> 's option) \<Rightarrow> nat \<Rightarrow> nat \<Rightarrow> 's \<Rightarrow> 's option" where
  "TAILQ_FOREACH_FROM_SAFE heap body var head s =
     do {
       v \<leftarrow> (if var \<noteq> 0 then Some var else TAILQ_FIRST (heap s) head);
       walk_safe (\<lambda>s. TAILQ_NEXT (heap s)) body v s
     }"

definition TAILQ_FOREACH_REVERSE ::
  "('s \<Rightarrow> links) \<Rightarrow> (nat \<Rightarrow> 's \<Rightarrow> 's option) \<Rightarrow> nat \<Rightarrow> 's \<Rightarrow> 's option" where
  "TAILQ_FOREACH_REVERSE heap body head s =
     do {
       v \<leftarrow> TAILQ_LAST (heap s) head;
       walk (\<lambda>s. TAILQ_PREV (heap s)) body v s
     }"

definition TAILQ_FOREACH_REVERSE_FROM ::
  "('s \<Rightarrow> links) \<Rightarrow> (nat \<Rightarrow> 's \<Rightarrow> 's option) \<Rightarrow> nat \<Rightarrow> nat \<Rightarrow> 's \<Rightarrow> 's option" where
  "TAILQ_FOREACH_REVERSE_FROM heap body var head s =
     do {
       v \<leftarrow> (if var \<noteq> 0 then Some var else TAILQ_LAST (heap s) head);
       walk (\<lambda>s. TAILQ_PREV (heap s)) body v s
     }"

definition TAILQ_FOREACH_REVERSE_SAFE ::
  "('s \<Rightarrow> links) \<Rightarrow> (nat \<Rightarrow> 's \<Rightarrow> 's option) \<Rightarrow> nat \<Rightarrow> 's \<Rightarrow> 's option" where
  "TAILQ_FOREACH_REVERSE_SAFE heap body head s =
     do {
       v \<leftarrow> TAILQ_LAST (heap s) head;
       walk_safe (\<lambda>s. TAILQ_PREV (heap s)) body v s
     }"

definition TAILQ_FOREACH_REVERSE_FROM_SAFE ::
  "('s \<Rightarrow> links) \<Rightarrow> (nat \<Rightarrow> 's \<Rightarrow> 's option) \<Rightarrow> nat \<Rightarrow> nat \<Rightarrow> 's \<Rightarrow> 's option" where
  "TAILQ_FOREACH_REVERSE_FROM_SAFE heap body var head s =
     do {
       v \<leftarrow> (if var \<noteq> 0 then Some var else TAILQ_LAST (heap s) head);
       walk_safe (\<lambda>s. TAILQ_PREV (heap s)) body v s
     }"

text \<open>The calls of the macros by name.\<close>

fun tailq_exec :: "links \<Rightarrow> qop \<Rightarrow> links option" where
  "tailq_exec h (Init q) = TAILQ_INIT h q"
| "tailq_exec h (Insert_head q x) = TAILQ_INSERT_HEAD h q x"
| "tailq_exec h (Insert_tail q x) = TAILQ_INSERT_TAIL h q x"
| "tailq_exec h (Insert_after q y x) = TAILQ_INSERT_AFTER h q y x"
| "tailq_exec h (Insert_before q y x) = TAILQ_INSERT_BEFORE h y x"
| "tailq_exec h (Remove q x) = TAILQ_REMOVE h q x"
| "tailq_exec h (Remove_head q) = None"
| "tailq_exec h (Concat q r) = TAILQ_CONCAT h q r"
| "tailq_exec h (Swap q r) = TAILQ_SWAP h q r"

fun has_no_remove_head :: "qop \<Rightarrow> bool" where
  "has_no_remove_head (Remove_head q) = False"
| "has_no_remove_head _ = True"

section \<open>What they do to a queue\<close>

abbreviation tailq :: "links \<Rightarrow> nat \<Rightarrow> nat list \<Rightarrow> bool" where
  "tailq \<equiv> holds True True"

lemma tailq_init: "alive h (Head q) \<Longrightarrow> \<exists>h'. TAILQ_INIT h q = Some h' \<and> tailq h' q [] \<and> only (cells q []) h h'"
  by (simp add: TAILQ_INIT_def holds_def cells_def)

lemma tailq_insert_head:
  assumes q: "tailq h q xs" and x: "alive h (Elem x)" "x \<noteq> 0" "x \<notin> set xs"
  shows "\<exists>h'. TAILQ_INSERT_HEAD h q x = Some h' \<and> tailq h' q (x # xs) \<and> only (cells q (x # xs)) h h'"
  using q x holds_alive [OF q]
  by (cases xs) (auto simp: holds_def TAILQ_INSERT_HEAD_def TAILQ_FIRST_def cells_def)

lemma tailq_insert_tail:
  assumes q: "tailq h q xs" and x: "alive h (Elem x)" "x \<noteq> 0" "x \<notin> set xs"
  shows "\<exists>h'. TAILQ_INSERT_TAIL h q x = Some h' \<and> tailq h' q (xs @ [x]) \<and> only (cells q (xs @ [x])) h h'"
  using q x holds_alive [OF q]
  by (cases xs rule: rev_cases) (auto simp: holds_def TAILQ_INSERT_TAIL_def cells_def)

lemma tailq_insert_after:
  assumes q: "tailq h q (us @ y # vs)" and x: "alive h (Elem x)" "x \<noteq> 0" "x \<notin> set (us @ y # vs)"
  shows "\<exists>h'. TAILQ_INSERT_AFTER h q y x = Some h' \<and> tailq h' q (us @ y # x # vs) \<and>
     only (cells q (us @ y # x # vs)) h h'"
  using q x holds_alive [OF q]
  by (cases vs) (auto simp: holds_def TAILQ_INSERT_AFTER_def TAILQ_NEXT_def cells_def)

lemma tailq_insert_before:
  assumes q: "tailq h q (us @ y # vs)" and x: "alive h (Elem x)" "x \<noteq> 0" "x \<notin> set (us @ y # vs)"
  shows "\<exists>h'. TAILQ_INSERT_BEFORE h y x = Some h' \<and> tailq h' q (us @ x # y # vs) \<and>
     only (cells q (us @ x # y # vs)) h h'"
  using q x holds_alive [OF q]
  by (cases us rule: rev_cases) (auto simp: holds_def TAILQ_INSERT_BEFORE_def cells_def)

lemma tailq_remove:
  assumes q: "tailq h q (us @ x # vs)"
  shows "\<exists>h'. TAILQ_REMOVE h q x = Some h' \<and> tailq h' q (us @ vs) \<and> only (cells q (us @ x # vs)) h h'"
  using q holds_alive [OF q]
  by (cases us rule: rev_cases; cases vs) (auto simp: holds_def TAILQ_REMOVE_def TAILQ_NEXT_def cells_def)

lemma tailq_concat:
  assumes q: "tailq h q xs" and r: "tailq h r ys" and d: "q \<noteq> r" "set xs \<inter> set ys = {}"
  shows "\<exists>h'. TAILQ_CONCAT h q r = Some h' \<and> tailq h' q (xs @ ys) \<and> tailq h' r [] \<and>
     only (cells q xs \<union> cells r ys) h h'"
  using q r d holds_alive [OF q] holds_alive [OF r]
  by (cases ys; cases xs rule: rev_cases)
    (auto simp: holds_def TAILQ_CONCAT_def TAILQ_EMPTY_def TAILQ_FIRST_def TAILQ_INIT_def cells_def)

lemma tailq_swap:
  assumes q: "tailq h q xs" and r: "tailq h r ys" and d: "q \<noteq> r" "set xs \<inter> set ys = {}"
  shows "\<exists>h'. TAILQ_SWAP h q r = Some h' \<and> tailq h' q ys \<and> tailq h' r xs \<and>
     only (cells q xs \<union> cells r ys) h h'"
  using q r d holds_alive [OF q] holds_alive [OF r]
  by (cases ys; cases xs)
    (auto simp: holds_def TAILQ_SWAP_def TAILQ_FIRST_def tailq_relink_def cells_def)

lemma tailq_initializer: "h (Head q) = Some (TAILQ_HEAD_INITIALIZER q) \<Longrightarrow> tailq h q []"
  by (simp add: holds_def nxt_def bck_def TAILQ_HEAD_INITIALIZER_def)

interpretation tailq: queue_macros True True has_no_remove_head tailq_exec
  by unfold_locales
    (simp_all add: tailq_init tailq_insert_head tailq_insert_tail tailq_insert_after tailq_insert_before
      tailq_remove tailq_concat tailq_swap del: append_Cons)

section \<open>Reading a queue\<close>

lemma tailq_ends:
  assumes "tailq h q xs"
  shows "TAILQ_EMPTY h q = Some (xs = [])"
    and "TAILQ_FIRST h q = Some (case xs of [] \<Rightarrow> 0 | x # _ \<Rightarrow> x)"
    and "TAILQ_LAST h q = Some (if xs = [] then 0 else last xs)"
proof -
  show "TAILQ_EMPTY h q = Some (xs = [])" "TAILQ_FIRST h q = Some (case xs of [] \<Rightarrow> 0 | x # _ \<Rightarrow> x)"
    using assms by (cases xs; auto simp: holds_def TAILQ_EMPTY_def TAILQ_FIRST_def)+
  show "TAILQ_LAST h q = Some (if xs = [] then 0 else last xs)"
    using assms by (cases xs rule: rev_cases) (auto simp: holds_def TAILQ_LAST_def)
qed

lemma tailq_neighbours:
  assumes "tailq h q (us @ x # vs)"
  shows "TAILQ_NEXT h x = Some (case vs of [] \<Rightarrow> 0 | v # _ \<Rightarrow> v)"
    and "TAILQ_PREV h x = Some (if us = [] then 0 else last us)"
proof -
  show "TAILQ_NEXT h x = Some (case vs of [] \<Rightarrow> 0 | v # _ \<Rightarrow> v)"
    using assms by (cases vs) (auto simp: holds_def TAILQ_NEXT_def)
  show "TAILQ_PREV h x = Some (if us = [] then 0 else last us)"
    using assms by (cases us rule: rev_cases) (auto simp: holds_def TAILQ_PREV_def)
qed

lemma tailq_checks:
  assumes "tailq h q xs"
  shows "QMD_TAILQ_CHECK_HEAD h q = Some True" "QMD_TAILQ_CHECK_TAIL h q = Some True"
    and "x \<in> set xs \<Longrightarrow> QMD_TAILQ_CHECK_NEXT h x = Some True \<and> QMD_TAILQ_CHECK_PREV h x = Some True"
proof -
  show "QMD_TAILQ_CHECK_HEAD h q = Some True" "QMD_TAILQ_CHECK_TAIL h q = Some True"
    using assms tailq_ends [OF assms]
    by (cases xs; auto simp: holds_def QMD_TAILQ_CHECK_HEAD_def QMD_TAILQ_CHECK_TAIL_def)+
  assume "x \<in> set xs"
  then obtain us vs where xs: "xs = us @ x # vs" by (meson split_list)
  show "QMD_TAILQ_CHECK_NEXT h x = Some True \<and> QMD_TAILQ_CHECK_PREV h x = Some True"
    using assms tailq_neighbours(1) [of h q us x vs]
    by (cases vs) (auto simp: xs holds_def QMD_TAILQ_CHECK_NEXT_def QMD_TAILQ_CHECK_PREV_def)
qed

lemma tailq_follows:
  assumes "tailq h q xs"
  shows "\<exists>v. TAILQ_FIRST h q = Some v \<and> follows (TAILQ_NEXT h) v xs"
  using holds_follows [OF assms] by (simp add: TAILQ_FIRST_def TAILQ_NEXT_def [abs_def])

lemma tailq_follows_back:
  "tailq h q (us @ vs) \<Longrightarrow> follows (TAILQ_PREV h) (if us = [] then 0 else last us) (rev us)"
proof (induction us arbitrary: vs rule: rev_induct)
  case Nil
  then show ?case by simp
next
  case (snoc x us)
  have q: "tailq h q (us @ x # vs)" using snoc.prems by simp
  then have "x \<noteq> 0" by (simp add: holds_def)
  with tailq_neighbours(2) [OF q] snoc.IH [OF q] show ?case by simp
qed

text \<open>The loops with a body that leaves the links alone run it on the elements in order, or in reverse.\<close>

lemma tailq_foreach:
  assumes q: "tailq (heap s) q xs" and body: "\<And>x s s'. body x s = Some s' \<Longrightarrow> heap s' = heap s"
  shows "TAILQ_FOREACH heap body q s = run_adds (\<lambda>s x. body x s) s xs"
    and "TAILQ_FOREACH_REVERSE heap body q s = run_adds (\<lambda>s x. body x s) s (rev xs)"
proof -
  obtain v where v: "TAILQ_FIRST (heap s) q = Some v" "follows (TAILQ_NEXT (heap s)) v xs"
    using tailq_follows [OF q] by blast
  have "walk (\<lambda>s. TAILQ_NEXT (heap s)) body v s = run_adds (\<lambda>s x. body x s) s xs"
    using body v(2) by (intro walk_run [where succ = "\<lambda>s. TAILQ_NEXT (heap s)"]) simp_all
  with v(1) show "TAILQ_FOREACH heap body q s = run_adds (\<lambda>s x. body x s) s xs"
    by (simp add: TAILQ_FOREACH_def)
  have "follows (TAILQ_PREV (heap s)) (if xs = [] then 0 else last xs) (rev xs)"
    using tailq_follows_back [of "heap s" q xs "[]"] q by simp
  then have "walk (\<lambda>s. TAILQ_PREV (heap s)) body (if xs = [] then 0 else last xs) s =
      run_adds (\<lambda>s x. body x s) s (rev xs)"
    using body by (intro walk_run [where succ = "\<lambda>s. TAILQ_PREV (heap s)"]) simp_all
  then show "TAILQ_FOREACH_REVERSE heap body q s = run_adds (\<lambda>s x. body x s) s (rev xs)"
    by (simp add: TAILQ_FOREACH_REVERSE_def tailq_ends(3) [OF q])
qed

text \<open>The safe loop may take elements out as it goes.\<close>

lemma tailq_prune:
  assumes "tailq h q (us @ xs)"
  shows "\<exists>h'. run_adds (\<lambda>h x. if P x then TAILQ_REMOVE h q x else Some h) h xs = Some h' \<and>
     tailq h' q (us @ filter (\<lambda>x. \<not> P x) xs) \<and> only (cells q (us @ xs)) h h'"
  using assms
proof (induction xs arbitrary: us h)
  case Nil
  then show ?case by simp
next
  case (Cons x xs)
  show ?case
  proof (cases "P x")
    case False
    with Cons.IH [of h "us @ [x]"] Cons.prems show ?thesis by simp
  next
    case True
    from tailq_remove [OF Cons.prems] obtain h1 where h1: "TAILQ_REMOVE h q x = Some h1"
      "tailq h1 q (us @ xs)" "only (cells q (us @ x # xs)) h h1" by blast
    from Cons.IH [OF h1(2)] obtain h' where
      "run_adds (\<lambda>h x. if P x then TAILQ_REMOVE h q x else Some h) h1 xs = Some h'"
      "tailq h' q (us @ filter (\<lambda>x. \<not> P x) xs)" "only (cells q (us @ xs)) h1 h'" by blast
    with True h1 show ?thesis by (auto simp: only_def cells_def)
  qed
qed

lemma tailq_foreach_safe:
  assumes q: "tailq h q xs"
  shows "TAILQ_FOREACH_SAFE id (\<lambda>x h. if P x then TAILQ_REMOVE h q x else Some h) q h =
     run_adds (\<lambda>h x. if P x then TAILQ_REMOVE h q x else Some h) h xs"
proof -
  let ?R = "\<lambda>h v xs. \<exists>us. tailq h q (us @ xs) \<and> v = (case xs of [] \<Rightarrow> 0 | x # _ \<Rightarrow> x)"
  have "walk_safe TAILQ_NEXT (\<lambda>x h. if P x then TAILQ_REMOVE h q x else Some h) v h =
      run_adds (\<lambda>h x. if P x then TAILQ_REMOVE h q x else Some h) h xs"
    if v: "v = (case xs of [] \<Rightarrow> 0 | x # _ \<Rightarrow> x)" for v
  proof (rule walk_safe_run [where R = ?R])
    show "?R h v xs" using q v by (intro exI [of _ "[]"]) simp
    fix h v x ys
    assume "?R h v (x # ys)"
    then obtain us where us: "tailq h q (us @ x # ys)" "v = x" by auto
    have "\<exists>us. tailq h' q (us @ ys)" if "(if P x then TAILQ_REMOVE h q x else Some h) = Some h'" for h'
    proof (cases "P x")
      case True
      with that tailq_remove [OF us(1)] show ?thesis by auto
    next
      case False
      with that us(1) show ?thesis by (intro exI [of _ "us @ [x]"]) simp
    qed
    with us tailq_neighbours(1) [OF us(1)] show "v = x \<and> x \<noteq> 0 \<and> (\<exists>n. TAILQ_NEXT h x = Some n \<and>
        (\<forall>h'. (if P x then TAILQ_REMOVE h q x else Some h) = Some h' \<longrightarrow> ?R h' n ys))"
      by (auto simp: holds_def)
  qed auto
  then show ?thesis by (simp add: TAILQ_FOREACH_SAFE_def tailq_ends(2) [OF q])
qed

end
