(* ===== verification/Queue_Debug.thy ===== *)
theory Queue_Debug
  imports Slist Slist_Macros Stailq List_Queue Tailq
begin

text \<open>
  The macros of \<^verbatim>\<open>server/queue.h\<close> that only do something with \<open>QUEUE_MACRO_DEBUG\<close>: removed elements
  get pointers that cannot be used (\<open>TRASHIT\<close>), and heads and elements of tail queues remember where
  they were last changed (\<open>QMD_TRACE_HEAD\<close>, \<open>QMD_TRACE_ELEM\<close>).  The queues themselves are the same in
  either build.
\<close>

section \<open>Pointers of removed elements\<close>

text \<open>The value \<open>(void *) - 1\<close>, as the address of an element and as the address of a link.\<close>

definition trashed :: nat where "trashed = 2 ^ 64 - 1"

definition TRASHIT_nxt :: "links \<Rightarrow> loc \<Rightarrow> links option" where
  "TRASHIT_nxt h l = put_nxt h l trashed"

definition TRASHIT_bck :: "links \<Rightarrow> loc \<Rightarrow> links option" where
  "TRASHIT_bck h l = put_bck h l (Elem trashed)"

text \<open>
  \<open>QMD_SAVELINK\<close> at the start of the \<open>REMOVE\<close> macros keeps the addresses of the element's own
  pointers, so it is these that \<open>TRASHIT\<close> overwrites at the end.
\<close>

fun debug_exec :: "bool \<Rightarrow> (links \<Rightarrow> qop \<Rightarrow> links option) \<Rightarrow> links \<Rightarrow> qop \<Rightarrow> links option" where
  "debug_exec prev exec h (Remove q x) =
     do {
       h \<leftarrow> exec h (Remove q x);
       h \<leftarrow> TRASHIT_nxt h (Elem x);
       if prev then TRASHIT_bck h (Elem x) else Some h
     }"
| "debug_exec prev exec h c = exec h c"

context queue_macros
begin

lemma debug_remove:
  assumes p: "provided (Remove q x)" and q: "holds tail prev h q (us @ x # vs)"
  shows "\<exists>h'. debug_exec prev exec h (Remove q x) = Some h' \<and> holds tail prev h' q (us @ vs) \<and>
    only (cells q (us @ x # vs)) h h'"
proof -
  obtain h' where h': "exec h (Remove q x) = Some h'" "holds tail prev h' q (us @ vs)"
    "only (cells q (us @ x # vs)) h h'"
    using remove_ok [OF p q] by blast
  have alive: "alive h' (Elem x)"
    using holds_alive(2) [OF q, of x] h'(3) by (auto simp: only_def alive_def)
  have out: "cells q (us @ vs) \<inter> {Elem x} = {}" using q by (auto simp: holds_def cells_def)
  have in_cells: "Elem x \<in> cells q (us @ x # vs)" by (simp add: cells_def)
  let ?h1 = "upd_nxt h' (Elem x) trashed"
  let ?h2 = "if prev then upd_bck ?h1 (Elem x) (Elem trashed) else ?h1"
  have "debug_exec prev exec h (Remove q x) = Some ?h2"
    using h'(1) alive by (simp add: TRASHIT_nxt_def TRASHIT_bck_def)
  moreover have "holds tail prev ?h2 q (us @ vs)"
    by (rule holds_only [OF h'(2) _ out]) simp
  moreover have "only (cells q (us @ x # vs)) h ?h2" using h'(3) in_cells by simp
  ultimately show ?thesis by blast
qed

text \<open>The contract holds in the debug build whenever it holds without.\<close>

lemma debug_macros: "queue_macros tail prev provided (debug_exec prev exec)"
  using init_ok head_ok tail_ok after_ok before_ok debug_remove remove_head_ok concat_ok swap_ok
  by unfold_locales (simp_all del: append_Cons)

end

text \<open>The kinds of queues with a \<open>REMOVE\<close>; the list of the server, over its own nodes, is next.\<close>

interpretation stailq_debug: queue_macros True False not_before "debug_exec False stailq_exec"
  by (rule stailq.debug_macros)

interpretation blist_debug: queue_macros False True list_provided "debug_exec True list_exec"
  by (rule blist.debug_macros)

interpretation tailq_debug: queue_macros True True has_no_remove_head "debug_exec True tailq_exec"
  by (rule tailq.debug_macros)

definition SLIST_REMOVE_debug :: "pool \<Rightarrow> nat \<Rightarrow> pool option" where
  "SLIST_REMOVE_debug p elm = do { p \<leftarrow> SLIST_REMOVE p elm; set_next p elm trashed }"

lemma remove_debug_linked:
  assumes "linked p (us @ x # vs)"
  shows "\<exists>p'. SLIST_REMOVE_debug p x = Some p' \<and> linked p' (us @ vs) \<and> SLIST_NEXT p' x = Some trashed"
proof -
  obtain p1 where r: "SLIST_REMOVE p x = Some p1" "linked p1 (us @ vs)" "nodes p1 x = nodes p x"
    using remove_linked [OF assms] by blast
  have x: "x \<notin> set (us @ vs)" using linked_distinct [OF assms] by auto
  have "nodes p x \<noteq> None" using path_live [of "nodes p" _ _ _ x] assms by (auto simp: linked_def)
  then obtain d where d: "nodes p1 x = Some d" using r(3) by auto
  let ?h = "(nodes p1)(x \<mapsto> d\<lparr>sle_next := trashed\<rparr>)"
  have "path ?h (slh_first p1) (us @ vs) 0"
    using r(2) x by (subst path_cong [of "us @ vs" _ "nodes p1"]) (auto simp: linked_def)
  with r(1) d show ?thesis
    by (simp add: SLIST_REMOVE_debug_def set_next_def SLIST_NEXT_def linked_def)
qed

section \<open>Traces\<close>

record qm_trace =
  lastline :: "64 word"
  prevline :: "64 word"
  lastfile :: "string option"
  prevfile :: "string option"

text \<open>A place is \<open>__LINE__\<close> and \<open>__FILE__\<close>.\<close>

definition TRACEBUF_INITIALIZER :: "64 word \<Rightarrow> string \<Rightarrow> qm_trace" where
  "TRACEBUF_INITIALIZER line file = \<lparr>lastline = line, prevline = 0, lastfile = Some file, prevfile = None\<rparr>"

definition QMD_TRACE_HEAD :: "64 word \<Rightarrow> string \<Rightarrow> qm_trace \<Rightarrow> qm_trace" where
  "QMD_TRACE_HEAD line file trace =
     (let trace = trace\<lparr>prevline := lastline trace\<rparr>;
          trace = trace\<lparr>prevfile := lastfile trace\<rparr>;
          trace = trace\<lparr>lastline := line\<rparr>
      in trace\<lparr>lastfile := Some file\<rparr>)"

definition QMD_TRACE_ELEM :: "64 word \<Rightarrow> string \<Rightarrow> qm_trace \<Rightarrow> qm_trace" where
  "QMD_TRACE_ELEM line file trace =
     (let trace = trace\<lparr>prevline := lastline trace\<rparr>;
          trace = trace\<lparr>prevfile := lastfile trace\<rparr>;
          trace = trace\<lparr>lastline := line\<rparr>
      in trace\<lparr>lastfile := Some file\<rparr>)"

text \<open>
  A record holds the last two places, of which the initialisation may be one; files and lines of
  older places are gone.
\<close>

lemma trace_holds_last_two:
  "fold (\<lambda>(l, f). QMD_TRACE_HEAD l f) (places @ [(l1, f1), (l2, f2)]) t =
     \<lparr>lastline = l2, prevline = l1, lastfile = Some f2, prevfile = Some f1\<rparr>"
  "QMD_TRACE_HEAD l2 f2 (TRACEBUF_INITIALIZER l1 f1) =
     \<lparr>lastline = l2, prevline = l1, lastfile = Some f2, prevfile = Some f1\<rparr>"
proof -
  have step: "QMD_TRACE_HEAD l f t = \<lparr>lastline = l, prevline = lastline t, lastfile = Some f, prevfile = lastfile t\<rparr>"
    for l f t by (cases t) (simp add: QMD_TRACE_HEAD_def)
  show "fold (\<lambda>(l, f). QMD_TRACE_HEAD l f) (places @ [(l1, f1), (l2, f2)]) t =
     \<lparr>lastline = l2, prevline = l1, lastfile = Some f2, prevfile = Some f1\<rparr>"
    by (simp add: step)
  show "QMD_TRACE_HEAD l2 f2 (TRACEBUF_INITIALIZER l1 f1) =
     \<lparr>lastline = l2, prevline = l1, lastfile = Some f2, prevfile = Some f1\<rparr>"
    by (simp add: step TRACEBUF_INITIALIZER_def)
qed

lemma trace_elem_same: "QMD_TRACE_ELEM = QMD_TRACE_HEAD"
  by (simp add: fun_eq_iff QMD_TRACE_ELEM_def QMD_TRACE_HEAD_def)

end
