(* ===== verification/Queue_Properties.thy ===== *)
theory Queue_Properties
  imports Queue_Debug
begin

text \<open>
  What the macros of \<^verbatim>\<open>server/queue.h\<close> promise, for the four kinds of queues together: any number of
  queues in one memory, any sequence of operations on them, and the loops over them.
\<close>

section \<open>Sequences of operations\<close>

text \<open>
  The four kinds: whether the head keeps the tail and the elements point back, and their macros; three
  of them also as \<open>QUEUE_MACRO_DEBUG\<close> compiles them.
\<close>

definition queue_kinds :: "(bool \<times> bool \<times> (qop \<Rightarrow> bool) \<times> (links \<Rightarrow> qop \<Rightarrow> links option)) set" where
  "queue_kinds =
     {(False, False, slist_provided, slist_exec), (True, False, not_before, stailq_exec),
      (False, True, list_provided, list_exec), (True, True, has_no_remove_head, tailq_exec),
      (True, False, not_before, debug_exec False stailq_exec),
      (False, True, list_provided, debug_exec True list_exec),
      (True, True, has_no_remove_head, debug_exec True tailq_exec)}"

lemma kind_macros: "(tail, prev, provided, exec) \<in> queue_kinds \<Longrightarrow> queue_macros tail prev provided exec"
  using slist.queue_macros_axioms stailq.queue_macros_axioms blist.queue_macros_axioms tailq.queue_macros_axioms
    stailq_debug.queue_macros_axioms blist_debug.queue_macros_axioms tailq_debug.queue_macros_axioms
  by (auto simp: queue_kinds_def)

text \<open>
  C22: for each kind, in either build, any sequence of operations used as their description allows (a new element is in
  no queue, a named one is in the queue it is named with, two queues are different) runs without
  touching NULL or foreign memory, and leaves the queues holding the lists the same operations
  make of the lists they held.
\<close>

theorem queues_refine_lists:
  assumes kind: "(tail, prev, provided, exec) \<in> queue_kinds"
    and q: "family tail prev h Q" and ops: "qspecs (dom h) Q cs Q'" "\<forall>c\<in>set cs. provided c"
  shows "\<exists>h'. run_adds exec h cs = Some h' \<and> family tail prev h' Q' \<and> dom h' = dom h"
  by (rule queue_macros.exec_run [OF kind_macros [OF kind] ops(1) q refl ops(2)])

text \<open>Two heads and three elements, none of them linked yet.\<close>

definition blank :: links where
  "blank l = (if l \<in> {Head 1, Head 2, Elem 5, Elem 6, Elem 7} then Some \<lparr>lk_ptr = 0, lk_back = Head 0\<rparr> else None)"

lemma dom_blank: "dom blank = {Head 1, Head 2, Elem 5, Elem 6, Elem 7}"
  by (auto simp: blank_def split: if_splits)

text \<open>One queue is filled, the other gets one element, and they are joined and exchanged.\<close>

definition demo_ops :: "qop list" where
  "demo_ops = [Init 1, Init 2, Insert_head 1 5, Insert_after 1 5 6, Insert_head 2 7, Concat 1 2, Swap 1 2]"

lemma demo_spec: "qspecs (dom blank) Map.empty demo_ops [1 \<mapsto> [], 2 \<mapsto> [5, 6, 7]]"
  unfolding dom_blank demo_ops_def
proof (intro qspecs.cons)
  let ?A = "{Head 1, Head 2, Elem 5, Elem 6, Elem (7 :: nat)}"
  show "qspec ?A Map.empty (Init 1) [1 \<mapsto> []]" using qspec.init [of 1 ?A Map.empty] by simp
  show "qspec ?A [1 \<mapsto> []] (Init 2) [1 \<mapsto> [], 2 \<mapsto> []]" using qspec.init [of 2 ?A "[1 \<mapsto> []]"] by simp
  show "qspec ?A [1 \<mapsto> [], 2 \<mapsto> []] (Insert_head 1 5) [1 \<mapsto> [5], 2 \<mapsto> []]"
    using qspec.insert_head [of "[1 \<mapsto> [], 2 \<mapsto> []]" 1 "[]" ?A 5]
    by (simp add: free_elem_def fun_upd_twist)
  show "qspec ?A [1 \<mapsto> [5], 2 \<mapsto> []] (Insert_after 1 5 6) [1 \<mapsto> [5, 6], 2 \<mapsto> []]"
    using qspec.insert_after [of "[1 \<mapsto> [5], 2 \<mapsto> []]" 1 "[]" 5 "[]" ?A 6]
    by (auto simp: free_elem_def fun_upd_twist)
  show "qspec ?A [1 \<mapsto> [5, 6], 2 \<mapsto> []] (Insert_head 2 7) [1 \<mapsto> [5, 6], 2 \<mapsto> [7]]"
    using qspec.insert_head [of "[1 \<mapsto> [5, 6], 2 \<mapsto> []]" 2 "[]" ?A 7]
    by (auto simp: free_elem_def fun_upd_twist)
  show "qspec ?A [1 \<mapsto> [5, 6], 2 \<mapsto> [7]] (Concat 1 2) [1 \<mapsto> [5, 6, 7], 2 \<mapsto> []]"
    using qspec.concat [of 1 2 "[1 \<mapsto> [5, 6], 2 \<mapsto> [7]]" "[5, 6]" "[7]" ?A] by simp
  show "qspec ?A [1 \<mapsto> [5, 6, 7], 2 \<mapsto> []] (Swap 1 2) [1 \<mapsto> [], 2 \<mapsto> [5, 6, 7]]"
    using qspec.swap [of 1 2 "[1 \<mapsto> [5, 6, 7], 2 \<mapsto> []]" "[5, 6, 7]" "[]" ?A] by simp
  show "qspecs ?A [1 \<mapsto> [], 2 \<mapsto> [5, 6, 7]] [] [1 \<mapsto> [], 2 \<mapsto> [5, 6, 7]]" by (rule qspecs.nil)
qed

theorem queues_refine_lists_witness:
  "(\<exists>h'. run_adds tailq_exec blank demo_ops = Some h' \<and> tailq h' 2 [5, 6, 7] \<and> tailq h' 1 []) \<and>
   (\<exists>h'. run_adds stailq_exec blank demo_ops = Some h' \<and> stailq h' 2 [5, 6, 7]) \<and>
   (\<exists>h'. run_adds list_exec blank demo_ops = Some h' \<and> blist h' 2 [5, 6, 7]) \<and>
   (\<exists>h'. run_adds slist_exec blank demo_ops = Some h' \<and> slist h' 2 [5, 6, 7])"
proof -
  note run = queues_refine_lists [OF _ family_empty demo_spec]
  have k: "\<forall>c\<in>set demo_ops. has_no_remove_head c \<and> not_before c \<and> list_provided c \<and> slist_provided c"
    by (simp add: demo_ops_def)
  have "\<exists>h'. run_adds tailq_exec blank demo_ops = Some h' \<and> family True True h' [1 \<mapsto> [], 2 \<mapsto> [5, 6, 7]]"
    "\<exists>h'. run_adds stailq_exec blank demo_ops = Some h' \<and> family True False h' [1 \<mapsto> [], 2 \<mapsto> [5, 6, 7]]"
    "\<exists>h'. run_adds list_exec blank demo_ops = Some h' \<and> family False True h' [1 \<mapsto> [], 2 \<mapsto> [5, 6, 7]]"
    "\<exists>h'. run_adds slist_exec blank demo_ops = Some h' \<and> family False False h' [1 \<mapsto> [], 2 \<mapsto> [5, 6, 7]]"
    using k run [of True True has_no_remove_head tailq_exec] run [of True False not_before stailq_exec]
      run [of False True list_provided list_exec] run [of False False slist_provided slist_exec]
    by (auto simp: queue_kinds_def)
  then show ?thesis by (auto simp: family_def)
qed

section \<open>Loops\<close>

text \<open>
  The loops over a tail queue end; forwards they run the body on its elements in order, backwards in
  reverse order, as long as the body leaves the links alone; and the safe loop may remove elements
  as it goes: removing those that satisfy \<open>P\<close> leaves exactly the others, in order.
\<close>

theorem tailq_loops:
  assumes q: "tailq (heap s) q xs" and body: "\<And>x s s'. body x s = Some s' \<Longrightarrow> heap s' = heap s"
  shows "TAILQ_FOREACH heap body q s = run_adds (\<lambda>s x. body x s) s xs \<and>
     TAILQ_FOREACH_REVERSE heap body q s = run_adds (\<lambda>s x. body x s) s (rev xs) \<and>
     (\<exists>h'. TAILQ_FOREACH_SAFE id (\<lambda>x h. if P x then TAILQ_REMOVE h q x else Some h) q (heap s) = Some h' \<and>
        tailq h' q (filter (\<lambda>x. \<not> P x) xs))"
proof -
  have "TAILQ_FOREACH heap body q s = run_adds (\<lambda>s x. body x s) s xs"
    "TAILQ_FOREACH_REVERSE heap body q s = run_adds (\<lambda>s x. body x s) s (rev xs)"
    using q body by (simp_all add: tailq_foreach)
  then show ?thesis
    using tailq_foreach_safe [OF q, of P] tailq_prune [of "heap s" q "[]" xs P] q by auto
qed

text \<open>A tail queue of three elements, and a body that collects what it visits.\<close>

definition three_elements :: links where
  "three_elements =
     [Head 1 \<mapsto> \<lparr>lk_ptr = 5, lk_back = Elem 7\<rparr>, Elem 5 \<mapsto> \<lparr>lk_ptr = 6, lk_back = Head 1\<rparr>,
      Elem 6 \<mapsto> \<lparr>lk_ptr = 7, lk_back = Elem 5\<rparr>, Elem 7 \<mapsto> \<lparr>lk_ptr = 0, lk_back = Elem 6\<rparr>]"

definition collect :: "nat \<Rightarrow> links \<times> nat list \<Rightarrow> (links \<times> nat list) option" where
  "collect x s = Some (fst s, snd s @ [x])"

theorem tailq_loops_witness:
  "TAILQ_FOREACH fst collect 1 (three_elements, []) = Some (three_elements, [5, 6, 7]) \<and>
   TAILQ_FOREACH_REVERSE fst collect 1 (three_elements, []) = Some (three_elements, [7, 6, 5]) \<and>
   (\<exists>h'. TAILQ_FOREACH_SAFE id (\<lambda>x h. if even x then TAILQ_REMOVE h 1 x else Some h) 1 three_elements = Some h' \<and>
      tailq h' 1 [5, 7])"
proof -
  have "tailq (fst (three_elements, [])) 1 [5, 6, 7]"
    by (simp add: holds_def three_elements_def nxt_def bck_def)
  moreover have "fst s' = fst s" if "collect x s = Some s'" for x s s'
    using that by (auto simp: collect_def)
  ultimately show ?thesis
    using tailq_loops [of fst "(three_elements, [])" 1 "[5, 6, 7]" collect even] by (simp add: collect_def)
qed

end
