(* ===== verification/System_Calls.thy ===== *)
theory System_Calls
  imports Prelude
begin

text \<open>
  \<^verbatim>\<open>examples/systemcalls/systemcalls.c\<close>: running a command through \<open>system\<close>, and through
  \<open>fork\<close>, \<open>execv\<close> and \<open>waitpid\<close>, with and without redirecting its output.  A function that
  forks has one result in the parent and one in the child; both are outcomes of the model,
  chosen by what \<open>fork\<close> returns.
\<close>

section \<open>The calls and the state\<close>

text \<open>What \<open>waitpid\<close> reports: an error, a normal exit with its status, or a signal.\<close>

datatype wait_result = Wait_error | Exited_with nat | Killed_by nat

record 'w sys =
  y_system :: "string \<Rightarrow> 'w \<Rightarrow> int \<times> 'w"
  y_fork :: "'w \<Rightarrow> int \<times> 'w"
  y_execv :: "string \<Rightarrow> string list \<Rightarrow> 'w \<Rightarrow> bool"
  y_waitpid :: "int \<Rightarrow> 'w \<Rightarrow> wait_result \<times> 'w"
  y_open :: "string \<Rightarrow> 'w \<Rightarrow> int \<times> 'w"
  y_dup2 :: "int \<Rightarrow> int \<Rightarrow> 'w \<Rightarrow> bool \<times> 'w"

record 'w proc =
  y_env :: 'w
  y_log :: bool
  y_fds :: "int list"
  y_stdout :: int

text \<open>
  How a call ends: it returns, the process becomes another program, or the process exits.
\<close>

datatype outcome = Returns bool | Becomes string "string list" | Exits int

definition openlog :: "'w proc \<Rightarrow> 'w proc" where "openlog st = st\<lparr>y_log := True\<rparr>"
definition closelog :: "'w proc \<Rightarrow> 'w proc" where "closelog st = st\<lparr>y_log := False\<rparr>"

definition close_y :: "int \<Rightarrow> 'w proc \<Rightarrow> 'w proc" where
  "close_y fd st = st\<lparr>y_fds := remove1 fd (y_fds st)\<rparr>"

text \<open>The first byte of a string, its NUL when it is empty.\<close>

definition first_char :: "string \<Rightarrow> char" where
  "first_char s = (case s of [] \<Rightarrow> NUL | c # _ \<Rightarrow> c)"

section \<open>The functions\<close>

definition do_system :: "'w sys \<Rightarrow> string \<Rightarrow> 'w proc \<Rightarrow> bool \<times> 'w proc" where
  "do_system y cmd st =
     (let (ret, w) = y_system y cmd (y_env st);
          st = openlog (st\<lparr>y_env := w\<rparr>)
      in if ret = - 1 then (False, closelog st) else (True, closelog st))"

text \<open>The argument check of \<open>do_exec\<close>: options and absolute paths only.\<close>

fun args_ok :: "string list \<Rightarrow> bool" where
  "args_ok [] = True"
| "args_ok (a # as) =
     (if first_char a \<noteq> CHR ''-'' \<and> first_char a \<noteq> CHR ''/'' then False else args_ok as)"

text \<open>The end of both functions in the parent.\<close>

definition wait_child :: "'w sys \<Rightarrow> int \<Rightarrow> 'w proc \<Rightarrow> outcome \<times> 'w proc" where
  "wait_child y pid st =
     (let (r, w) = y_waitpid y pid (y_env st); st = st\<lparr>y_env := w\<rparr>
      in case r of
           Wait_error \<Rightarrow> (Returns False, closelog st)
         | Exited_with _ \<Rightarrow> (Returns True, closelog st)
         | Killed_by _ \<Rightarrow> (Returns False, closelog st))"


definition do_exec_redirect :: "'w sys \<Rightarrow> string \<Rightarrow> string list \<Rightarrow> 'w proc \<Rightarrow> (outcome \<times> 'w proc) option" where
  "do_exec_redirect y outputfile command st =
     (let st = openlog st in
      case command of
        [] \<Rightarrow> None
      | c # as \<Rightarrow>
          if first_char c \<noteq> CHR ''/'' then Some (Returns False, closelog st)
          else let (fd, w) = y_open y outputfile (y_env st); st = st\<lparr>y_env := w\<rparr>
          in if fd = - 1 then Some (Returns False, closelog st)
          else let
            st = st\<lparr>y_fds := fd # y_fds st\<rparr>;
            (pid, w) = y_fork y (y_env st); st = st\<lparr>y_env := w\<rparr>
          in if pid = - 1 then Some (Returns False, closelog st)
          else if pid = 0
          then let (dup, w) = y_dup2 y fd 1 (y_env st); st = st\<lparr>y_env := w\<rparr>
            in if \<not> dup then Some (Exits (- 1), st)
            else let st = close_y fd (st\<lparr>y_stdout := fd\<rparr>)
            in if y_execv y c command (y_env st) then Some (Becomes c command, st)
               else Some (Exits (- 1), st)
          else Some (wait_child y pid (close_y fd st)))"

lemma args_ok_iff: "args_ok as \<longleftrightarrow> (\<forall>a\<in>set as. first_char a = CHR ''-'' \<or> first_char a = CHR ''/'')"
  by (induction as) auto



section \<open>A scripted system\<close>

text \<open>Every call answers with the value given for it; for the runs below.\<close>

definition scripted :: "int \<Rightarrow> int \<Rightarrow> bool \<Rightarrow> wait_result \<Rightarrow> int \<Rightarrow> unit sys" where
  "scripted ret pid runs wr fd =
     \<lparr>y_system = (\<lambda>_ w. (ret, w)), y_fork = (\<lambda>w. (pid, w)), y_execv = (\<lambda>_ _ _. runs),
      y_waitpid = (\<lambda>_ w. (wr, w)), y_open = (\<lambda>_ w. (fd, w)), y_dup2 = (\<lambda>_ _ w. (True, w))\<rparr>"

definition fresh_proc :: "unit proc" where
  "fresh_proc = \<lparr>y_env = (), y_log = False, y_fds = [], y_stdout = 1\<rparr>"

section \<open>Properties\<close>



text \<open>
  \<open>do_system\<close> reports success for every result of \<open>system\<close> but -1, so also for a command
  that returned a non-zero status; it leaves the log closed.
\<close>

theorem do_system_true_iff:
  "(fst (do_system y cmd st) \<longleftrightarrow> fst (y_system y cmd (y_env st)) \<noteq> - 1) \<and>
     \<not> y_log (snd (do_system y cmd st))"
  by (simp_all add: do_system_def closelog_def Let_def split: prod.split)

text \<open>
  What the parent is left with when \<open>do_exec_redirect\<close> returns: the log is closed and the descriptors
  are those it had, except that a failed \<open>fork\<close> leaves the output file open.
\<close>

theorem redirect_leaves:
  assumes r: "do_exec_redirect y out (c # as) st = Some (Returns b, st')"
    and o: "y_open y out (y_env st) = (fd, w)" and f: "y_fork y w = (pid, w')"
  shows "\<not> y_log st' \<and>
     y_fds st' = (if first_char c = CHR ''/'' \<and> fd \<noteq> - 1 \<and> pid = - 1 then fd # y_fds st else y_fds st)"
  using assms
  by (auto simp: do_exec_redirect_def wait_child_def openlog_def closelog_def close_y_def Let_def
      split: if_splits prod.splits wait_result.splits)

theorem redirect_leaves_witness:
  "\<exists>st'. do_exec_redirect (scripted 0 (- 1) True Wait_error 3) ''/tmp/o'' [''/bin/ls''] fresh_proc =
     Some (Returns False, st') \<and> y_fds st' = [3]"
proof -
  obtain st' where e: "do_exec_redirect (scripted 0 (- 1) True Wait_error 3) ''/tmp/o'' [''/bin/ls''] fresh_proc =
     Some (Returns False, st')"
    by (simp add: do_exec_redirect_def scripted_def fresh_proc_def openlog_def Let_def first_char_def)
  with redirect_leaves [OF e, of 3 "()" "- 1" "()"] show ?thesis
    by (simp add: scripted_def first_char_def fresh_proc_def)
qed

text \<open>
  The child of \<open>do_exec_redirect\<close> only runs the command with its standard output on the file and
  the file's own descriptor closed; when it cannot, it exits and never returns into the caller.
\<close>

theorem redirect_child:
  assumes "do_exec_redirect y out (c # as) st = Some (r, st')"
    and "y_open y out (y_env st) = (fd, w)" "y_fork y w = (0, w')" "fd \<noteq> - 1" "first_char c = CHR ''/''"
  shows "(r = Becomes c (c # as) \<and> y_stdout st' = fd \<and> y_fds st' = y_fds st) \<or> r = Exits (- 1)"
  using assms
  by (auto simp: do_exec_redirect_def openlog_def close_y_def Let_def split: if_splits prod.splits)

theorem redirect_child_witness:
  "\<exists>st'. do_exec_redirect (scripted 0 0 True Wait_error 3) ''/tmp/o'' [''/bin/ls''] fresh_proc =
     Some (Becomes ''/bin/ls'' [''/bin/ls''], st') \<and> y_stdout st' = 3"
proof -
  obtain st' where e: "do_exec_redirect (scripted 0 0 True Wait_error 3) ''/tmp/o'' [''/bin/ls''] fresh_proc =
     Some (Becomes ''/bin/ls'' [''/bin/ls''], st')"
    by (simp add: do_exec_redirect_def scripted_def fresh_proc_def openlog_def Let_def first_char_def)
  from redirect_child [OF e, of 3 "()" "()"] e show ?thesis
    by (simp add: scripted_def first_char_def)
qed

end
