(* ===== verification/Writer.thy ===== *)
theory Writer
  imports Prelude
begin

text \<open>
  \<^verbatim>\<open>finder-app/writer.c\<close>: write a string to a file, going on after partial and interrupted
  writes.  The file system is a parameter; the locale \<open>append_file\<close> states what is
  documented of \<open>write\<close>.  The loop takes fuel, one unit for each call of \<open>write\<close>.
\<close>

section \<open>The program\<close>

datatype write_result = Wrote nat | Interrupted | Failed

record 'w fs =
  f_open :: "string \<Rightarrow> 'w \<Rightarrow> int \<times> 'w"
  f_write :: "int \<Rightarrow> char list \<Rightarrow> 'w \<Rightarrow> write_result \<times> 'w"

record 'w writer_st =
  f_env :: 'w
  f_fds :: "int list"
  f_log :: bool

definition close_f :: "int \<Rightarrow> 'w writer_st \<Rightarrow> 'w writer_st" where
  "close_f fd st = st\<lparr>f_fds := remove1 fd (f_fds st)\<rparr>"

text \<open>\<open>buf\<close> is what is still to be written; its length is the variable \<open>len\<close>.\<close>

fun write_all :: "nat \<Rightarrow> 'w fs \<Rightarrow> int \<Rightarrow> char list \<Rightarrow> 'w writer_st \<Rightarrow> (int \<times> 'w writer_st) option" where
  "write_all 0 fs fd buf st = None"
| "write_all (Suc k) fs fd buf st =
     (if length buf > 0
      then case f_write fs fd buf (f_env st) of
             (Interrupted, w) \<Rightarrow> write_all k fs fd buf (st\<lparr>f_env := w\<rparr>)
           | (Failed, w) \<Rightarrow> Some (1, (close_f fd (st\<lparr>f_env := w\<rparr>))\<lparr>f_log := False\<rparr>)
           | (Wrote ret, w) \<Rightarrow> write_all k fs fd (drop ret buf) (st\<lparr>f_env := w\<rparr>)
      else Some (0, (close_f fd st)\<lparr>f_log := False\<rparr>))"

text \<open>\<open>args\<close> are the arguments with the program's name first.\<close>

definition writer_main :: "nat \<Rightarrow> 'w fs \<Rightarrow> string list \<Rightarrow> 'w writer_st \<Rightarrow> (int \<times> 'w writer_st) option" where
  "writer_main fuel fs args st =
     (let st = st\<lparr>f_log := True\<rparr>
      in if length args < 3 then Some (1, st\<lparr>f_log := False\<rparr>)
      else let
        writefile = args ! 1; writestr = args ! 2;
        (fd, w) = f_open fs writefile (f_env st); st = st\<lparr>f_env := w\<rparr>
      in if fd = - 1 then Some (1, st\<lparr>f_log := False\<rparr>)
      else write_all fuel fs fd writestr (st\<lparr>f_fds := fd # f_fds st\<rparr>))"

lemma write_all_clean:
  "write_all fuel fs fd buf st = Some (r, st') \<Longrightarrow>
     f_fds st' = remove1 fd (f_fds st) \<and> \<not> f_log st' \<and> (r = 0 \<or> r = 1)"
proof (induction fuel arbitrary: buf st)
  case 0
  then show ?case by simp
next
  case (Suc k)
  obtain res w where w: "f_write fs fd buf (f_env st) = (res, w)" by fastforce
  show ?case
  proof (cases "buf = []")
    case True
    with Suc.prems show ?thesis by (auto simp: close_f_def)
  next
    case False
    with Suc w show ?thesis by (cases res) (auto simp: close_f_def dest: Suc.IH)
  qed
qed

section \<open>Files that write as documented\<close>

text \<open>
  \<open>held\<close> is what the open file holds, \<open>retries\<close> how often \<open>write\<close> will still be
  interrupted: finitely often.
\<close>

locale append_file =
  fixes fs :: "'w fs" and fd :: int and held :: "'w \<Rightarrow> char list" and retries :: "'w \<Rightarrow> nat"
  assumes wrote: "f_write fs fd bs w = (Wrote n, w') \<Longrightarrow> bs \<noteq> [] \<Longrightarrow>
      0 < n \<and> n \<le> length bs \<and> held w' = held w @ take n bs \<and> retries w' \<le> retries w"
    and interrupted: "f_write fs fd bs w = (Interrupted, w') \<Longrightarrow>
      held w' = held w \<and> retries w' < retries w"
    and failed: "f_write fs fd bs w = (Failed, w') \<Longrightarrow> held w' = held w"
begin

text \<open>The loop ends, and has written the string, or a part of it when it reports failure.\<close>

lemma write_all_ends:
  "length buf + retries (f_env st) < fuel \<Longrightarrow>
     \<exists>r st' done_part rest. write_all fuel fs fd buf st = Some (r, st') \<and> buf = done_part @ rest \<and>
       held (f_env st') = held (f_env st) @ done_part \<and> (r = 0 \<and> rest = [] \<or> r = 1)"
proof (induction fuel arbitrary: buf st)
  case 0
  then show ?case by simp
next
  case (Suc k)
  obtain res w where w: "f_write fs fd buf (f_env st) = (res, w)" by fastforce
  show ?case
  proof (cases "buf = []")
    case True
    then show ?thesis by (simp add: close_f_def)
  next
    case ne: False
    show ?thesis
    proof (cases res)
      case (Wrote n)
      from wrote [OF w [unfolded Wrote] ne] have n: "0 < n" "n \<le> length buf"
        "held w = held (f_env st) @ take n buf" "retries w \<le> retries (f_env st)" by simp_all
      then have "length (drop n buf) + retries (f_env (st\<lparr>f_env := w\<rparr>)) < k"
        using Suc.prems ne by simp
      note ih = Suc.IH [OF this]
      have env: "f_env (st\<lparr>f_env := w\<rparr>) = w" by simp
      from ih [unfolded env] obtain r st' p q where
        "write_all k fs fd (drop n buf) (st\<lparr>f_env := w\<rparr>) = Some (r, st')" "drop n buf = p @ q"
        "held (f_env st') = held w @ p" "r = 0 \<and> q = [] \<or> r = 1" by blast
      moreover from this(2) have "buf = (take n buf @ p) @ q" by (metis append.assoc append_take_drop_id)
      ultimately show ?thesis
        using w Wrote ne n(3) by (intro exI [of _ r] exI [of _ st'] exI [of _ "take n buf @ p"] exI [of _ q]) simp
    next
      case Interrupted
      from interrupted [OF w [unfolded Interrupted]] have i: "held w = held (f_env st)"
        "retries w < retries (f_env st)" by simp_all
      then have "length buf + retries (f_env (st\<lparr>f_env := w\<rparr>)) < k" using Suc.prems by simp
      from Suc.IH [OF this] show ?thesis using w Interrupted ne i(1) by simp
    next
      case Failed
      with failed w have "held w = held (f_env st)" by blast
      with w Failed ne show ?thesis by (auto simp: close_f_def)
    qed
  qed
qed

end

section \<open>A file that answers from a script\<close>

record disk =
  d_file :: "char list"
  d_script :: "write_result list"

text \<open>Each \<open>write\<close> takes the next answer; at the end of the script everything is written.\<close>

definition disk_write :: "char list \<Rightarrow> disk \<Rightarrow> write_result \<times> disk" where
  "disk_write bs w =
     (case d_script w of
        [] \<Rightarrow> (Wrote (length bs), w\<lparr>d_file := d_file w @ bs\<rparr>)
      | Wrote n # rs \<Rightarrow>
          (let m = min (length bs) (max 1 n)
           in (Wrote m, w\<lparr>d_file := d_file w @ take m bs, d_script := rs\<rparr>))
      | r # rs \<Rightarrow> (r, w\<lparr>d_script := rs\<rparr>))"

definition disk_fs :: "disk fs" where
  "disk_fs = \<lparr>f_open = (\<lambda>path w. (3, w\<lparr>d_file := []\<rparr>)), f_write = (\<lambda>fd. disk_write)\<rparr>"

interpretation disk: append_file disk_fs 3 d_file "\<lambda>w. length (d_script w)"
  by unfold_locales
    (auto simp: disk_fs_def disk_write_def Let_def split: list.splits write_result.splits)

section \<open>Properties\<close>

text \<open>
  C35: on a file that truncates on opening and writes as documented, the writer ends; when it
  returns 0 the file holds exactly the string, however the writes were cut up or interrupted,
  and when it returns 1 a beginning of it.
\<close>

theorem writer_writes_string:
  assumes fs: "append_file fs fd held retries"
    and o: "f_open fs path (f_env st) = (fd, w)" "fd \<noteq> - 1" "held w = []"
    and fuel: "length text + retries w < fuel"
  shows "\<exists>r st' rest. writer_main fuel fs [prog, path, text] st = Some (r, st') \<and>
     held (f_env st') @ rest = text \<and> (r = 0 \<and> rest = [] \<or> r = 1)"
proof -
  let ?st = "st\<lparr>f_log := True, f_env := w, f_fds := fd # f_fds st\<rparr>"
  have "length text + retries (f_env ?st) < fuel" using fuel by simp
  from append_file.write_all_ends [OF fs this] o(3) obtain r st' p q where
    "write_all fuel fs fd text ?st = Some (r, st')" "text = p @ q"
    "held (f_env st') = p" "r = 0 \<and> q = [] \<or> r = 1" by auto
  moreover have "writer_main fuel fs [prog, path, text] st = write_all fuel fs fd text ?st"
    using o by (simp add: writer_main_def)
  ultimately show ?thesis by (intro exI [of _ r] exI [of _ st'] exI [of _ q]) simp
qed

definition busy_disk :: "disk writer_st" where
  "busy_disk = \<lparr>f_env = \<lparr>d_file = ''old'', d_script = [Wrote 2, Interrupted, Wrote 1]\<rparr>, f_fds = [], f_log = False\<rparr>"

theorem writer_writes_string_witness:
  "\<exists>r st' rest. writer_main 20 disk_fs [''writer'', ''/tmp/f'', ''hello''] busy_disk = Some (r, st') \<and>
     d_file (f_env st') @ rest = ''hello''"
  using writer_writes_string [OF disk.append_file_axioms, of "''/tmp/f''" busy_disk
      "\<lparr>d_file = [], d_script = [Wrote 2, Interrupted, Wrote 1]\<rparr>" "''hello''" 20 "''writer''"]
  by (auto simp: disk_fs_def busy_disk_def)

text \<open>
  The writer returns 0 or 1, and on every way out it has closed the log and the file it
  opened and no other; with fewer than two arguments it fails without touching the file system.
\<close>

theorem writer_cleans_up:
  assumes "writer_main fuel fs args st = Some (r, st')"
  shows "(r = 0 \<or> r = 1) \<and> \<not> f_log st' \<and> f_fds st' = f_fds st \<and>
     (length args < 3 \<longrightarrow> r = 1 \<and> f_env st' = f_env st)"
  using assms write_all_clean [of fuel fs _ "args ! 2"]
  by (fastforce simp: writer_main_def Let_def split: if_splits prod.splits)

theorem writer_cleans_up_witness:
  "writer_main 0 disk_fs [''writer''] busy_disk = Some (1, busy_disk)"
proof -
  obtain r st' where e: "writer_main 0 disk_fs [''writer''] busy_disk = Some (r, st')"
    by (simp add: writer_main_def)
  from writer_cleans_up [OF e] have "r = 1" "f_env st' = f_env busy_disk" "f_fds st' = f_fds busy_disk"
    "f_log st' = f_log busy_disk" by (simp_all add: busy_disk_def)
  with e show ?thesis by (cases st') (simp add: busy_disk_def)
qed

end
