(* ===== verification/Threading.thy ===== *)
theory Threading
  imports Prelude
begin

text \<open>
  \<^verbatim>\<open>examples/threading/threading.c\<close>: a thread that sleeps, takes a mutex, sleeps and releases
  it, and the function that starts it.  What a thread does is the list of its calls in order;
  what the calls return is a parameter.
\<close>

section \<open>The thread\<close>

text \<open>The fields of \<open>struct thread_data\<close>; the waits are C \<open>int\<close>s.\<close>

record wait_data =
  wait_mutex :: nat
  wait_to_obtain_ms :: int
  wait_to_release_ms :: int
  thread_complete_success :: bool

datatype call = Usleep int | Lock nat | Unlock nat

text \<open>The product with 1000 in \<open>int\<close>; \<open>None\<close> is its overflow.\<close>

definition usec :: "int \<Rightarrow> int option" where
  "usec ms = (if - (2 ^ 31) \<le> ms * 1000 \<and> ms * 1000 < 2 ^ 31 then Some (ms * 1000) else None)"

text \<open>
  \<open>rc\<close> and \<open>rc'\<close> are what \<open>pthread_mutex_lock\<close> and \<open>pthread_mutex_unlock\<close> return.  The
  function returns its argument, so the updated structure.
\<close>

definition threadfunc :: "int \<Rightarrow> int \<Rightarrow> wait_data \<Rightarrow> (call list \<times> wait_data) option" where
  "threadfunc rc rc' d =
     do {
       t1 \<leftarrow> usec (wait_to_obtain_ms d);
       if rc \<noteq> 0
       then Some ([Usleep t1, Lock (wait_mutex d)], d\<lparr>thread_complete_success := False\<rparr>)
       else do {
         t2 \<leftarrow> usec (wait_to_release_ms d);
         let calls = [Usleep t1, Lock (wait_mutex d), Usleep t2, Unlock (wait_mutex d)];
         if rc' \<noteq> 0
         then Some (calls, d\<lparr>thread_complete_success := False\<rparr>)
         else Some (calls, d\<lparr>thread_complete_success := True\<rparr>)
       }
     }"

text \<open>
  \<open>mem\<close> are the live structures by address; \<open>a\<close> is what \<open>malloc\<close> returns and \<open>rc\<close> what
  \<open>pthread_create\<close> returns.  \<open>None\<close> is the store through NULL when \<open>malloc\<close> fails.
\<close>

definition start_thread_obtaining_mutex ::
    "nat \<Rightarrow> int \<Rightarrow> nat \<Rightarrow> int \<Rightarrow> int \<Rightarrow> (nat \<rightharpoonup> wait_data) \<Rightarrow> (bool \<times> (nat \<rightharpoonup> wait_data)) option" where
  "start_thread_obtaining_mutex a rc mutex obtain_ms release_ms mem =
     (if a = 0 then None
      else
        let mem' = mem(a \<mapsto> \<lparr>wait_mutex = mutex, wait_to_obtain_ms = obtain_ms,
              wait_to_release_ms = release_ms, thread_complete_success = False\<rparr>)
        in if rc \<noteq> 0 then Some (False, mem'(a := None)) else Some (True, mem'))"

lemma usec_eq: "usec ms = (if \<bar>ms\<bar> \<le> 2147483 then Some (ms * 1000) else None)"
  by (auto simp: usec_def)

lemma usec_Some_iff: "usec ms = Some t \<longleftrightarrow> \<bar>ms\<bar> \<le> 2147483 \<and> t = ms * 1000"
  by (auto simp: usec_def)

section \<open>Properties\<close>

text \<open>
  The thread reports success exactly when both mutex calls succeed; it then slept, locked, slept and unlocked in
  this order, and it unlocks the mutex only after having locked it.
\<close>

theorem threadfunc_success:
  assumes "threadfunc rc rc' d = Some (calls, d')"
  shows "(thread_complete_success d' \<longleftrightarrow> rc = 0 \<and> rc' = 0) \<and>
     (rc = 0 \<longrightarrow> calls = [Usleep (wait_to_obtain_ms d * 1000), Lock (wait_mutex d),
        Usleep (wait_to_release_ms d * 1000), Unlock (wait_mutex d)]) \<and>
     (rc \<noteq> 0 \<longrightarrow> calls = [Usleep (wait_to_obtain_ms d * 1000), Lock (wait_mutex d)])"
  using assms
  by (auto simp: threadfunc_def bind_eq_Some_conv usec_Some_iff Let_def split: if_splits)

theorem threadfunc_success_witness:
  "\<exists>calls d'. threadfunc 0 0 \<lparr>wait_mutex = 7, wait_to_obtain_ms = 5, wait_to_release_ms = 10,
       thread_complete_success = False\<rparr> = Some (calls, d') \<and>
     thread_complete_success d' \<and> calls = [Usleep 5000, Lock 7, Usleep 10000, Unlock 7]"
proof -
  let ?d = "\<lparr>wait_mutex = 7, wait_to_obtain_ms = 5, wait_to_release_ms = 10, thread_complete_success = False\<rparr>"
  obtain calls d' where e: "threadfunc 0 0 ?d = Some (calls, d')"
    by (simp add: threadfunc_def usec_def Let_def)
  with threadfunc_success [OF e] show ?thesis by simp
qed

text \<open>
  The thread never computes a wait that is not exactly a thousand times the given one: it
  is undefined exactly when a wait it gets to is over 2147483 ms in size, about 36 minutes.
\<close>

theorem threadfunc_overflow_iff:
  "threadfunc rc rc' d = None \<longleftrightarrow>
     2147483 < \<bar>wait_to_obtain_ms d\<bar> \<or> rc = 0 \<and> 2147483 < \<bar>wait_to_release_ms d\<bar>"
  by (cases "rc = 0") (auto simp: threadfunc_def usec_eq Let_def)

text \<open>
  Starting a thread hands exactly one initialised structure to it when it succeeds and
  leaves no structure behind when it fails, given that \<open>malloc\<close> returns a fresh block.
\<close>

theorem start_thread_memory:
  assumes "start_thread_obtaining_mutex a rc mutex t1 t2 mem = Some (ok, mem')" "mem a = None"
  shows "ok = (rc = 0) \<and>
     mem' = (if ok then mem(a \<mapsto> \<lparr>wait_mutex = mutex, wait_to_obtain_ms = t1, wait_to_release_ms = t2,
        thread_complete_success = False\<rparr>) else mem)"
  using assms by (auto simp: start_thread_obtaining_mutex_def Let_def split: if_splits)

theorem start_thread_memory_witness:
  "\<exists>mem'. start_thread_obtaining_mutex 64 11 7 5 10 Map.empty = Some (False, mem') \<and> mem' = Map.empty"
proof -
  obtain mem' where e: "start_thread_obtaining_mutex 64 11 7 5 10 Map.empty = Some (False, mem')"
    by (simp add: start_thread_obtaining_mutex_def Let_def)
  with start_thread_memory [OF e] show ?thesis by simp
qed

end
