(* ===== verification/Thread_Crowd.thy ===== *)
theory Thread_Crowd
  imports Threading
begin

text \<open>
  Any number of threads of \<^verbatim>\<open>examples/threading/threading.c\<close> at once: each goes through the calls
  \<open>threadfunc\<close> makes, and a call that locks a mutex waits until no other thread holds it.  The steps
  interleave in any order.  However they do, at most one thread is between the lock and the unlock of a mutex,
  none of them is left waiting, and all of them end.
\<close>

section \<open>The steps\<close>

text \<open>The calls each thread has still to make, and the holder of each mutex.\<close>

record crowd =
  todo :: "nat \<Rightarrow> call list"
  holder :: "nat \<Rightarrow> nat option"

inductive crowd_step :: "crowd \<Rightarrow> crowd \<Rightarrow> bool" where
  sleeps: "todo s i = Usleep t # cs \<Longrightarrow> crowd_step s (s\<lparr>todo := (todo s)(i := cs)\<rparr>)"
| locks: "todo s i = Lock m # cs \<Longrightarrow> holder s m = None \<Longrightarrow>
    crowd_step s (s\<lparr>todo := (todo s)(i := cs), holder := (holder s)(m := Some i)\<rparr>)"
| unlocks: "todo s i = Unlock m # cs \<Longrightarrow> holder s m = Some i \<Longrightarrow>
    crowd_step s (s\<lparr>todo := (todo s)(i := cs), holder := (holder s)(m := None)\<rparr>)"

inductive crowd_runs :: "nat \<Rightarrow> crowd \<Rightarrow> crowd \<Rightarrow> bool" where
  none: "crowd_runs 0 s s"
| more: "crowd_runs k s t \<Longrightarrow> crowd_step t u \<Longrightarrow> crowd_runs (Suc k) s u"

text \<open>\<open>n\<close> threads about to run the calls \<open>prog\<close>.\<close>

definition crowd_start :: "nat \<Rightarrow> (nat \<Rightarrow> call list) \<Rightarrow> crowd" where
  "crowd_start n prog = \<lparr>todo = (\<lambda>i. if i < n then prog i else []), holder = (\<lambda>_. None)\<rparr>"

text \<open>Between the lock and the unlock of a mutex.\<close>

definition inside :: "crowd \<Rightarrow> nat \<Rightarrow> nat \<Rightarrow> bool" where
  "inside s i m \<longleftrightarrow> Unlock m \<in> set (todo s i) \<and> Lock m \<notin> set (todo s i)"

section \<open>The invariant\<close>

text \<open>A thread is somewhere in its four calls, and holds its mutex exactly when two or one are left.\<close>

definition crowd_inv :: "nat \<Rightarrow> (nat \<Rightarrow> int) \<Rightarrow> (nat \<Rightarrow> int) \<Rightarrow> (nat \<Rightarrow> nat) \<Rightarrow> crowd \<Rightarrow> bool" where
  "crowd_inv n t1 t2 mut s \<longleftrightarrow>
     (\<forall>i. todo s i \<in> {[], [Unlock (mut i)], [Usleep (t2 i), Unlock (mut i)],
        [Lock (mut i), Usleep (t2 i), Unlock (mut i)],
        [Usleep (t1 i), Lock (mut i), Usleep (t2 i), Unlock (mut i)]}) \<and>
     (\<forall>i. n \<le> i \<longrightarrow> todo s i = []) \<and>
     (\<forall>m i. holder s m = Some i \<longleftrightarrow> m = mut i \<and> length (todo s i) \<in> {1, 2})"

definition calls_left :: "nat \<Rightarrow> crowd \<Rightarrow> nat" where
  "calls_left n s = (\<Sum>i<n. length (todo s i))"

lemma crowd_inv_step: "crowd_step s u \<Longrightarrow> crowd_inv n t1 t2 mut s \<Longrightarrow> crowd_inv n t1 t2 mut u"
proof (induction rule: crowd_step.induct)
  case (sleeps s i t cs)
  have "length (todo s i) \<in> {1, 2} \<longleftrightarrow> length cs \<in> {1, 2}"
    "cs = [Unlock (mut i)] \<or> cs = [Lock (mut i), Usleep (t2 i), Unlock (mut i)]" "i < n"
    using sleeps.prems sleeps.hyps unfolding crowd_inv_def by (auto dest!: spec [of _ i] simp: not_less)
  with sleeps show ?case by (auto simp: crowd_inv_def)
next
  case (locks s i m cs)
  have "m = mut i" "cs = [Usleep (t2 i), Unlock (mut i)]" "i < n"
    using locks.prems locks.hyps(1) unfolding crowd_inv_def by (auto dest!: spec [of _ i] simp: not_less)
  moreover have "holder s m = Some j \<longleftrightarrow> m = mut j \<and> length (todo s j) \<in> {1, 2}" for j
    using locks.prems unfolding crowd_inv_def by blast
  then have "\<not> (m = mut j \<and> length (todo s j) \<in> {1, 2})" for j
    unfolding locks.hyps(2) by simp
  ultimately show ?case using locks by (auto simp: crowd_inv_def)
next
  case (unlocks s i m cs)
  have "m = mut i" "cs = []"
    using unlocks.prems unlocks.hyps(1) unfolding crowd_inv_def by (auto dest!: spec [of _ i])
  moreover have "holder s m = Some j \<longleftrightarrow> m = mut j \<and> length (todo s j) \<in> {1, 2}" for j
    using unlocks.prems unfolding crowd_inv_def by blast
  then have "j = i" if "m = mut j" "length (todo s j) \<in> {1, 2}" for j
    using that unlocks.hyps(2) by (metis option.inject)
  ultimately show ?case using unlocks by (auto simp: crowd_inv_def)
qed

lemma calls_left_step:
  assumes "crowd_step s u" "crowd_inv n t1 t2 mut s"
  shows "calls_left n s = Suc (calls_left n u)"
proof -
  obtain i c cs where i: "todo s i = c # cs" "todo u = (todo s)(i := cs)"
    using assms(1) by (auto elim: crowd_step.cases)
  then have "i < n" using assms(2) unfolding crowd_inv_def by (metis leI list.distinct(1))
  then have "calls_left n s = length (todo s i) + (\<Sum>j\<in>{..<n} - {i}. length (todo s j))"
    "calls_left n u = length (todo u i) + (\<Sum>j\<in>{..<n} - {i}. length (todo u j))"
    by (simp_all add: calls_left_def sum.remove)
  with i show ?thesis by simp
qed

lemma crowd_runs_inv:
  "crowd_runs k s u \<Longrightarrow> crowd_inv n t1 t2 mut s \<Longrightarrow>
     crowd_inv n t1 t2 mut u \<and> calls_left n s = k + calls_left n u"
  by (induction rule: crowd_runs.induct) (auto dest: crowd_inv_step calls_left_step)

text \<open>As long as a call is left, some thread can go on.\<close>

lemma crowd_progress:
  assumes inv: "crowd_inv n t1 t2 mut s" and left: "calls_left n s \<noteq> 0"
  shows "\<exists>u. crowd_step s u"
proof -
  obtain i where i: "todo s i \<noteq> []" using left by (auto simp: calls_left_def)
  show ?thesis
  proof (cases "\<exists>j c cs. todo s j = c # cs \<and> (\<forall>m. c \<noteq> Lock m)")
    case True
    then obtain j c cs where j: "todo s j = c # cs" "\<forall>m. c \<noteq> Lock m" by blast
    show ?thesis
    proof (cases c)
      case (Usleep t)
      with j show ?thesis by (auto intro: crowd_step.sleeps)
    next
      case (Unlock m)
      then have "holder s m = Some j"
        using inv j unfolding crowd_inv_def by (auto dest!: spec [of _ j])
      with j Unlock show ?thesis by (auto intro: crowd_step.unlocks)
    qed (use j in simp)
  next
    case False
    then have at_lock: "length (todo s j) \<notin> {1, 2}" for j
      using inv unfolding crowd_inv_def by (auto dest!: spec [of _ j])
    obtain m cs where "todo s i = Lock m # cs" using i False by (cases "todo s i") auto
    moreover have "holder s m = None" using inv at_lock by (cases "holder s m") (auto simp: crowd_inv_def)
    ultimately show ?thesis by (auto intro: crowd_step.locks)
  qed
qed

lemma inside_holder:
  assumes "crowd_inv n t1 t2 mut s" "inside s i m"
  shows "holder s m = Some i"
  using assms unfolding crowd_inv_def inside_def by (auto dest!: spec [of _ i])

section \<open>The property\<close>

text \<open>
  C36: threads started with \<open>start_thread_obtaining_mutex\<close>'s function, any number, on any mutexes and with any waits
  that fit, as the mutex calls succeed: in every state of every interleaving no two of them are inside the
  same mutex; there is a next step as long as a call is left, so no run gets stuck or goes on for ever; and when there is none, every thread
  has made all its calls and says it succeeded.
\<close>

theorem threads_complete:
  assumes d: "\<forall>i<n. threadfunc 0 0 (d i) = Some (prog i, d' i)"
    and r: "crowd_runs k (crowd_start n prog) s"
  shows "(\<forall>i j m. inside s i m \<and> inside s j m \<longrightarrow> i = j) \<and>
     k \<le> 4 * n \<and> ((\<exists>u. crowd_step s u) \<longleftrightarrow> k < 4 * n) \<and>
     (k = 4 * n \<longrightarrow> (\<forall>i. todo s i = [])) \<and> (\<forall>i<n. thread_complete_success (d' i))"
proof -
  let ?t1 = "\<lambda>i. wait_to_obtain_ms (d i) * 1000" and ?t2 = "\<lambda>i. wait_to_release_ms (d i) * 1000"
    and ?m = "\<lambda>i. wait_mutex (d i)"
  have p: "prog i = [Usleep (?t1 i), Lock (?m i), Usleep (?t2 i), Unlock (?m i)] \<and> thread_complete_success (d' i)"
    if "i < n" for i
  proof -
    have "threadfunc 0 0 (d i) = Some (prog i, d' i)" using d that by blast
    from threadfunc_success [OF this] show ?thesis by simp
  qed
  have start: "crowd_inv n ?t1 ?t2 ?m (crowd_start n prog)" "calls_left n (crowd_start n prog) = 4 * n"
    using p by (simp_all add: crowd_inv_def crowd_start_def calls_left_def)
  from crowd_runs_inv [OF r start(1)] start(2)
  have s: "crowd_inv n ?t1 ?t2 ?m s" "4 * n = k + calls_left n s" by simp_all
  have go: "(\<exists>u. crowd_step s u) \<longleftrightarrow> calls_left n s \<noteq> 0"
    using crowd_progress [OF s(1)] calls_left_step [OF _ s(1)] by (metis Zero_not_Suc)
  have "i = j" if "inside s i m" "inside s j m" for i j m
    using inside_holder [OF s(1) that(1)] inside_holder [OF s(1) that(2)] by simp
  moreover have "todo s i = []" if "k = 4 * n" for i
    using that s by (cases "i < n") (simp_all add: calls_left_def crowd_inv_def)
  moreover have "k \<le> 4 * n" "(\<exists>u. crowd_step s u) \<longleftrightarrow> k < 4 * n" using go s(2) by auto
  moreover have "\<forall>i<n. thread_complete_success (d' i)" using p by blast
  ultimately show ?thesis by blast
qed

text \<open>Two threads on one mutex, after the first has locked it.\<close>

definition two_data :: "nat \<Rightarrow> wait_data" where
  "two_data i = \<lparr>wait_mutex = 7, wait_to_obtain_ms = int i, wait_to_release_ms = 10, thread_complete_success = False\<rparr>"

definition two_prog :: "nat \<Rightarrow> call list" where
  "two_prog i = [Usleep (int i * 1000), Lock 7, Usleep 10000, Unlock 7]"

definition one_locked :: crowd where
  "one_locked = \<lparr>todo = (\<lambda>i. if i = 0 then [Usleep 10000, Unlock 7] else if i = 1 then two_prog 1 else []),
     holder = (\<lambda>m. if m = 7 then Some 0 else None)\<rparr>"

lemma one_locked_runs: "crowd_runs 2 (crowd_start 2 two_prog) one_locked"
proof -
  let ?s = "crowd_start 2 two_prog"
  let ?t = "?s\<lparr>todo := (todo ?s)(0 := [Lock 7, Usleep 10000, Unlock 7])\<rparr>"
  let ?u = "?t\<lparr>todo := (todo ?t)(0 := [Usleep 10000, Unlock 7]), holder := (holder ?t)(7 := Some 0)\<rparr>"
  have 1: "crowd_step ?s ?t" by (rule sleeps [of _ _ 0]) (simp add: crowd_start_def two_prog_def)
  have 2: "crowd_step ?t ?u" by (rule locks) (simp_all add: crowd_start_def)
  have "crowd_runs (Suc (Suc 0)) ?s ?u"
    by (rule crowd_runs.more [OF crowd_runs.more [OF crowd_runs.none 1] 2])
  moreover have "?u = one_locked" by (auto simp: one_locked_def crowd_start_def fun_eq_iff)
  ultimately show ?thesis by (simp add: numeral_2_eq_2)
qed

theorem threads_complete_witness:
  "crowd_runs 2 (crowd_start 2 two_prog) one_locked \<and> (\<exists>u. crowd_step one_locked u) \<and>
   \<not> inside one_locked 1 7"
proof -
  have "\<forall>i<2. threadfunc 0 0 (two_data i) = Some (two_prog i, (two_data i)\<lparr>thread_complete_success := True\<rparr>)"
    by (auto simp: threadfunc_def usec_def two_data_def two_prog_def Let_def)
  note t = threads_complete [OF this one_locked_runs]
  have "\<exists>u. crowd_step one_locked u" using t by simp
  moreover have "inside one_locked 0 7" by (simp add: inside_def one_locked_def)
  then have "\<not> inside one_locked 1 7" using t zero_neq_one by blast
  ultimately show ?thesis using one_locked_runs by blast
qed

end
