(* ===== verification/Autotest.thy ===== *)
theory Autotest
  imports Prelude
begin

text \<open>
  \<^verbatim>\<open>examples/autotest-validate\<close> and the unit test of it in \<^verbatim>\<open>student-test/assignment1\<close>.  What the
  test takes from elsewhere, the reading of the configuration file and the assertion of the test
  framework, are parameters.
\<close>

definition this_function_returns_true :: bool where
  "this_function_returns_true = True"

definition this_function_returns_false :: bool where
  "this_function_returns_false = False"

definition my_username :: string where
  "my_username = ''SoulCatcher1794''"

text \<open>What the program prints.\<close>

definition autotest_main :: string where
  "autotest_main =
     ''this_function_returns_true returned '' @ (if this_function_returns_true then ''true'' else ''false'') @
     newline # ''this_function_returns_false returned '' @
     (if this_function_returns_false then ''true'' else ''false'') @ [newline]"

definition test_validate_my_username ::
    "('w \<Rightarrow> string \<times> 'w) \<Rightarrow> (string \<Rightarrow> string \<Rightarrow> string \<Rightarrow> 'w \<Rightarrow> 'w) \<Rightarrow> 'w \<Rightarrow> 'w" where
  "test_validate_my_username malloc_username_from_conf_file assert_equal_string w =
     (let test_username = my_username;
          (config_username, w) = malloc_username_from_conf_file w
      in assert_equal_string test_username config_username ''Usernames do not match!'' w)"

text \<open>
  With an assertion that records a failure exactly when its strings differ, the test passes exactly
  for a configuration file with this name.
\<close>

lemma test_passes_iff:
  "snd (test_validate_my_username (\<lambda>w. (fst w, w)) (\<lambda>a b msg w. (fst w, if a = b then snd w else snd w @ [msg])) (conf, [])) = [] \<longleftrightarrow>
     conf = ''SoulCatcher1794''"
  by (auto simp: test_validate_my_username_def my_username_def)

lemma autotest_prints:
  "autotest_main = ''this_function_returns_true returned true'' @ newline # ''this_function_returns_false returned false'' @ [newline]"
  by (simp add: autotest_main_def this_function_returns_true_def this_function_returns_false_def)

end
